(* ===== verification/Prelude.thy ===== *)
theory Prelude
  imports Main "HOL-Library.Word"
begin

text \<open>
  Shared vocabulary of the development.
  Unsigned C++ integers of 64 bits (\<^verbatim>\<open>std::size_t\<close>, \<^verbatim>\<open>DB::UInt64\<close> used as a size or an
  address) are natural numbers with the wrap-around written out in the operations
  \<open>add64\<close>, \<open>sub64\<close> and \<open>mul64\<close>.  Raw memory is a function from byte addresses to bytes;
  a 64-bit object is read and written little-endian, as the targets of the program do.
  The collections \<open>u64_simps\<close> and \<open>mem_simps\<close> hold the rewrite rules that the component
  theories use to discharge arithmetic without overflow and to separate memory accesses.
\<close>

named_theorems u64_simps \<open>unsigned 64-bit operations that do not overflow\<close>
named_theorems mem_simps \<open>reads after writes\<close>

section \<open>Unsigned 64-bit arithmetic\<close>

type_synonym size_t = nat

definition add64 :: "size_t \<Rightarrow> size_t \<Rightarrow> size_t" where
  "add64 a b = (a + b) mod 2 ^ 64"

definition sub64 :: "size_t \<Rightarrow> size_t \<Rightarrow> size_t" where
  "sub64 a b = (a + (2 ^ 64 - b mod 2 ^ 64)) mod 2 ^ 64"

definition mul64 :: "size_t \<Rightarrow> size_t \<Rightarrow> size_t" where
  "mul64 a b = (a * b) mod 2 ^ 64"

lemma add64_exact [u64_simps]: "a + b < 2 ^ 64 \<Longrightarrow> add64 a b = a + b"
  by (simp add: add64_def)

lemma mul64_exact [u64_simps]: "a * b < 2 ^ 64 \<Longrightarrow> mul64 a b = a * b"
  by (simp add: mul64_def)

lemma sub64_exact [u64_simps]:
  assumes "b \<le> a" and "a < 2 ^ 64"
  shows "sub64 a b = a - b"
proof -
  from assms have "b mod 2 ^ 64 = b" by simp
  then have "sub64 a b = (a - b + 2 ^ 64) mod 2 ^ 64"
    using assms by (simp add: sub64_def)
  also have "\<dots> = (a - b) mod 2 ^ 64" by (rule mod_add_self2)
  also have "\<dots> = a - b" using assms by simp
  finally show ?thesis .
qed

lemma add64_bound: "add64 a b < 2 ^ 64"
  by (simp add: add64_def)

lemma sub64_bound: "sub64 a b < 2 ^ 64"
  by (simp add: sub64_def)

lemma mul64_bound: "mul64 a b < 2 ^ 64"
  by (simp add: mul64_def)

section \<open>Byte-addressed memory\<close>

type_synonym memory = "nat \<Rightarrow> 8 word"

fun ld_bytes :: "memory \<Rightarrow> nat \<Rightarrow> nat \<Rightarrow> nat" where
  "ld_bytes m a 0 = 0"
| "ld_bytes m a (Suc n) = unat (m a) + 256 * ld_bytes m (Suc a) n"

definition ld64 :: "memory \<Rightarrow> nat \<Rightarrow> nat" where
  "ld64 m a = ld_bytes m a 8"

definition st64 :: "memory \<Rightarrow> nat \<Rightarrow> nat \<Rightarrow> memory" where
  "st64 m a v = (\<lambda>x. if a \<le> x \<and> x < a + 8 then word_of_nat (v div 256 ^ (x - a)) else m x)"

definition st8 :: "memory \<Rightarrow> nat \<Rightarrow> nat \<Rightarrow> memory" where
  "st8 m a v = m(a := word_of_nat v)"

definition memcpy :: "memory \<Rightarrow> nat \<Rightarrow> nat \<Rightarrow> nat \<Rightarrow> memory" where
  "memcpy m dst src n = (\<lambda>x. if dst \<le> x \<and> x < dst + n then m (src + (x - dst)) else m x)"

definition memset0 :: "memory \<Rightarrow> nat \<Rightarrow> nat \<Rightarrow> memory" where
  "memset0 m dst n = (\<lambda>x. if dst \<le> x \<and> x < dst + n then 0 else m x)"

lemma ld_bytes_cong:
  "(\<And>i. i < n \<Longrightarrow> m (a + i) = m' (a + i)) \<Longrightarrow> ld_bytes m a n = ld_bytes m' a n"
proof (induction n arbitrary: a)
  case (Suc n)
  have "m a = m' a" using Suc.prems [of 0] by simp
  moreover have "ld_bytes m (Suc a) n = ld_bytes m' (Suc a) n"
    by (rule Suc.IH) (use Suc.prems [of "Suc _"] in simp)
  ultimately show ?case by simp
qed simp

lemma ld_bytes_bound: "ld_bytes m a n < 256 ^ n"
proof (induction n arbitrary: a)
  case (Suc n)
  have "unat (m a) < 256" using unsigned_less [of "m a", where ?'a = nat] by simp
  moreover have "ld_bytes m (Suc a) n + 1 \<le> 256 ^ n" using Suc.IH [of "Suc a"] by simp
  ultimately show ?case by simp
qed simp

lemma ld64_bound: "ld64 m a < 2 ^ 64"
  using ld_bytes_bound [of m a 8] by (simp add: ld64_def)

lemma ld64_cong:
  "(\<And>x. a \<le> x \<Longrightarrow> x < a + 8 \<Longrightarrow> m x = m' x) \<Longrightarrow> ld64 m a = ld64 m' a"
  unfolding ld64_def by (rule ld_bytes_cong) simp

lemma ld_bytes_stored:
  "(\<And>i. i < n \<Longrightarrow> m (a + i) = word_of_nat (v div 256 ^ i)) \<Longrightarrow> ld_bytes m a n = v mod 256 ^ n"
proof (induction n arbitrary: a v)
  case (Suc n)
  have 0: "unat (m a) = v mod 256"
    using Suc.prems [of 0] by (simp add: unat_of_nat)
  have "ld_bytes m (Suc a) n = v div 256 mod 256 ^ n"
    by (rule Suc.IH) (use Suc.prems [of "Suc _"] in \<open>simp add: div_mult2_eq\<close>)
  with 0 show ?case by (simp add: mod_mult2_eq)
qed simp

lemma ld64_st64_same [mem_simps]: "v < 2 ^ 64 \<Longrightarrow> ld64 (st64 m a v) a = v"
  using ld_bytes_stored [of 8 "st64 m a v" a v] by (simp add: ld64_def st64_def)

lemma ld64_st64_other [mem_simps]:
  "a + 8 \<le> b \<or> b + 8 \<le> a \<Longrightarrow> ld64 (st64 m a v) b = ld64 m b"
  by (rule ld64_cong) (auto simp: st64_def)

lemma ld64_st8_other [mem_simps]:
  "a < b \<or> b + 8 \<le> a \<Longrightarrow> ld64 (st8 m a v) b = ld64 m b"
  by (rule ld64_cong) (auto simp: st8_def)

lemma st64_outside [mem_simps]: "x < a \<or> a + 8 \<le> x \<Longrightarrow> st64 m a v x = m x"
  by (auto simp: st64_def)

lemma st8_outside [mem_simps]: "x \<noteq> a \<Longrightarrow> st8 m a v x = m x"
  by (simp add: st8_def)

lemma st8_same [mem_simps]: "st8 m a v a = word_of_nat v"
  by (simp add: st8_def)

lemma memcpy_inside [mem_simps]: "i < n \<Longrightarrow> memcpy m dst src n (dst + i) = m (src + i)"
  by (simp add: memcpy_def)

lemma memcpy_outside [mem_simps]: "x < dst \<or> dst + n \<le> x \<Longrightarrow> memcpy m dst src n x = m x"
  by (auto simp: memcpy_def)

lemma memset0_outside [mem_simps]: "x < dst \<or> dst + n \<le> x \<Longrightarrow> memset0 m dst n x = m x"
  by (auto simp: memset0_def)

end
