(* ===== verification/Pinned_Pool_Correct.thy ===== *)
theory Pinned_Pool_Correct
  imports Pinned_Pool
begin

text \<open>
  Correctness of the pool on the bytes of its region.  The free list is described by the list of
  its blocks (\<open>seg\<close>), a state by the free blocks and the live ones (\<open>pool_inv\<close>), and every
  operation by the list it leaves: \<open>carve\<close> for an allocation, \<open>release\<close> for a release with its
  merging of neighbours.  The \<open>frame\<close> of an operation is the set of bytes it may write.
\<close>

section \<open>The free list in memory\<close>

type_synonym block = "nat \<times> nat"

fun seg :: "memory \<Rightarrow> nat \<Rightarrow> block list \<Rightarrow> nat \<Rightarrow> bool" where
  "seg m a [] b = (a = b)"
| "seg m a ((x, s) # xs) b =
     (a = x \<and> x \<noteq> 0 \<and> get_blockSize m x = s \<and> seg m (get_next m x) xs b)"

definition lastaddr :: "block list \<Rightarrow> nat" where
  "lastaddr xs = (if xs = [] then 0 else fst (last xs))"

definition apart :: "block \<Rightarrow> block \<Rightarrow> bool" where
  "apart b c \<longleftrightarrow> fst b + 16 \<le> fst c \<or> fst c + 16 \<le> fst b"

lemma lastaddr_Nil [simp]: "lastaddr [] = 0"
  and lastaddr_snoc [simp]: "lastaddr (xs @ [b]) = fst b"
  by (simp_all add: lastaddr_def)

lemma apart_sym: "apart b c \<Longrightarrow> apart c b"
  by (auto simp: apart_def)

lemma get_blockSize_cong:
  "(\<And>y. x \<le> y \<Longrightarrow> y < x + 16 \<Longrightarrow> m y = m' y) \<Longrightarrow> get_blockSize m x = get_blockSize m' x"
  unfolding get_blockSize_def by (rule ld64_cong) simp

lemma get_next_cong:
  "(\<And>y. x \<le> y \<Longrightarrow> y < x + 16 \<Longrightarrow> m y = m' y) \<Longrightarrow> get_next m x = get_next m' x"
  unfolding get_next_def by (rule ld64_cong) simp

lemma seg_cong:
  "(\<And>x s y. (x, s) \<in> set xs \<Longrightarrow> x \<le> y \<Longrightarrow> y < x + 16 \<Longrightarrow> m y = m' y) \<Longrightarrow>
   seg m a xs b = seg m' a xs b"
proof (induction xs arbitrary: a)
  case (Cons c xs)
  obtain x s where c: "c = (x, s)" by (cases c)
  have eq: "\<And>y. x \<le> y \<Longrightarrow> y < x + 16 \<Longrightarrow> m y = m' y"
    using Cons.prems [of x s] by (simp add: c)
  have "get_blockSize m x = get_blockSize m' x" by (rule get_blockSize_cong [OF eq])
  moreover have "get_next m x = get_next m' x" by (rule get_next_cong [OF eq])
  moreover have "seg m (get_next m' x) xs b = seg m' (get_next m' x) xs b"
    by (rule Cons.IH) (use Cons.prems in auto)
  ultimately show ?case by (simp add: c)
qed simp

lemma seg_append: "seg m a (xs @ ys) c \<longleftrightarrow> (\<exists>b. seg m a xs b \<and> seg m b ys c)"
  by (induction xs arbitrary: a) (auto split: prod.splits)

lemma seg_end_unique: "seg m a xs b \<Longrightarrow> seg m a xs c \<Longrightarrow> b = c"
  by (induction xs arbitrary: a) auto

lemma seg_nonzero: "seg m a xs b \<Longrightarrow> (x, s) \<in> set xs \<Longrightarrow> x \<noteq> 0"
  by (induction xs arbitrary: a) auto

lemma seg_last_next: "seg m a (xs @ [(x, s)]) b \<Longrightarrow> get_next m x = b"
  by (auto simp: seg_append)

lemma lastaddr_zero_iff: "seg m a xs b \<Longrightarrow> lastaddr xs = 0 \<longleftrightarrow> xs = []"
  by (cases xs rule: rev_cases) (auto simp: seg_append split: prod.splits dest: seg_nonzero)

lemma seg_redirect:
  assumes "seg m a (xs @ [(x, s)]) b" and "c < 2 ^ 64"
    and "\<And>y. y \<in> set xs \<Longrightarrow> apart y (x, s)"
  shows "seg (st64 m (x + 8) c) a (xs @ [(x, s)]) c"
proof -
  let ?m = "st64 m (x + 8) c"
  from assms(1) have xs: "seg m a xs x" and x: "x \<noteq> 0" "get_blockSize m x = s"
    by (auto simp: seg_append)
  have "seg ?m a xs x \<longleftrightarrow> seg m a xs x"
  proof (rule seg_cong)
    fix z t y assume "(z, t) \<in> set xs" "z \<le> y" "y < z + 16"
    with assms(3) [of "(z, t)"] show "?m y = m y"
      by (auto simp: apart_def st64_outside)
  qed
  with xs have "seg ?m a xs x" by simp
  moreover have "get_blockSize ?m x = s"
    using x by (simp add: get_blockSize_def mem_simps)
  moreover have "get_next ?m x = c"
    using assms(2) by (simp add: get_next_def mem_simps)
  ultimately show ?thesis using x by (auto simp: seg_append)
qed

subsection \<open>Insertion and removal\<close>

lemma st64_commute:
  "a + 8 \<le> b \<or> b + 8 \<le> a \<Longrightarrow> st64 (st64 m a v) b w = st64 (st64 m b w) a v"
  by (auto simp: st64_def fun_eq_iff)

lemma set_next_commute:
  "apart (a, s) (b, t) \<Longrightarrow> set_next a v (set_next b w p) = set_next b w (set_next a v p)"
  using st64_commute [of "b + 8" "a + 8" "m_bytes p" w v] by (auto simp: set_next_def apart_def)

text \<open>The two branches of the insertion after a node write the same fields.\<close>

lemma list_insert_after:
  assumes "prev \<noteq> 0" and "apart (prev, s) (n, t)"
  shows "list_insert prev n p =
    set_next prev n (set_next n (get_next (m_bytes p) prev) p)"
  using assms set_next_commute [OF assms(2)] by (simp add: list_insert_def)

lemma list_insert_front:
  "list_insert 0 n p = (set_next n (m_head p) p)\<lparr>m_head := n\<rparr>"
  by (simp add: list_insert_def)

lemma list_remove_front:
  "list_remove 0 d p = p\<lparr>m_head := get_next (m_bytes p) d\<rparr>"
  by (simp add: list_remove_def)

lemma list_remove_after:
  "prev \<noteq> 0 \<Longrightarrow> list_remove prev d p = set_next prev (get_next (m_bytes p) d) p"
  by (simp add: list_remove_def)

text \<open>
  The bytes an update of the list may touch: the \<^verbatim>\<open>next\<close> field of the previous node, and that
  of the node inserted.  Everything else, and every other field of the pool, is unchanged.
\<close>

definition frame :: "nat set \<Rightarrow> mem_pool \<Rightarrow> mem_pool \<Rightarrow> bool" where
  "frame A p q \<longleftrightarrow>
     (\<forall>y. y \<notin> A \<longrightarrow> m_bytes q y = m_bytes p y) \<and>
     m_totalSize q = m_totalSize p \<and> m_start_ptr q = m_start_ptr p \<and>
     m_used q = m_used p \<and> m_peak q = m_peak p"

definition next_field :: "nat \<Rightarrow> nat set" where
  "next_field a = (if a = 0 then {} else {a + 8 ..< a + 16})"

lemma frameD: "frame A p q \<Longrightarrow> y \<notin> A \<Longrightarrow> m_bytes q y = m_bytes p y"
  by (simp add: frame_def)

lemma frame_fields:
  "frame A p q \<Longrightarrow> m_totalSize q = m_totalSize p \<and> m_start_ptr q = m_start_ptr p \<and>
     m_used q = m_used p \<and> m_peak q = m_peak p"
  by (simp add: frame_def)

lemma frame_refl [simp]: "frame A p p"
  by (simp add: frame_def)

lemma frame_trans: "frame A p q \<Longrightarrow> frame B q r \<Longrightarrow> frame (A \<union> B) p r"
  by (simp add: frame_def)

lemma frame_mono: "frame A p q \<Longrightarrow> A \<subseteq> B \<Longrightarrow> frame B p q"
  by (auto simp: frame_def)

lemma frame_set_next: "frame {a + 8 ..< a + 16} p (set_next a v p)"
  by (auto simp: frame_def set_next_def st64_def)

lemma frame_set_blockSize: "frame {a ..< a + 8} p (set_blockSize a v p)"
  by (auto simp: frame_def set_blockSize_def st64_def)

lemma frame_list_insert:
  "apart (prev, s) (n, t) \<or> prev = 0 \<Longrightarrow> n \<noteq> 0 \<Longrightarrow>
   frame (next_field prev \<union> next_field n) p (list_insert prev n p)"
  by (cases "prev = 0")
    (auto simp: list_insert_front list_insert_after next_field_def frame_def set_next_def st64_def)

lemma frame_list_remove: "frame (next_field prev) p (list_remove prev d p)"
  by (auto simp: list_remove_def next_field_def frame_def set_next_def st64_def)

lemma list_insert_seg:
  assumes chain: "seg (m_bytes p) (m_head p) (xs @ ys) 0"
    and new: "n \<noteq> 0" "n < 2 ^ 64" "get_blockSize (m_bytes p) n = s"
    and addr: "\<And>x t. (x, t) \<in> set (xs @ ys) \<Longrightarrow> x < 2 ^ 64"
    and sep: "\<And>c. c \<in> set (xs @ ys) \<Longrightarrow> apart c (n, s)"
    and nodes: "sorted_wrt apart (xs @ ys)"
    and q: "q = list_insert (lastaddr xs) n p"
  shows "seg (m_bytes q) (m_head q) (xs @ (n, s) # ys) 0"
proof (cases xs rule: rev_cases)
  case Nil
  let ?q = "set_next n (m_head p) p"
  from Nil chain have ys: "seg (m_bytes p) (m_head p) ys 0" by simp
  have "m_head p < 2 ^ 64" using ys addr [of "fst (hd ys)" "snd (hd ys)"] by (cases ys) auto
  have "seg (m_bytes ?q) (m_head p) ys 0 = seg (m_bytes p) (m_head p) ys 0"
  proof (rule seg_cong)
    fix x t y assume "(x, t) \<in> set ys" "x \<le> y" "y < x + 16"
    with sep [of "(x, t)"] show "m_bytes ?q y = m_bytes p y"
      by (auto simp: set_next_def apart_def st64_outside)
  qed
  with ys have "seg (m_bytes ?q) (m_head p) ys 0" by simp
  moreover have "get_next (m_bytes ?q) n = m_head p"
    using \<open>m_head p < 2 ^ 64\<close> by (simp add: set_next_def get_next_def mem_simps)
  moreover have "get_blockSize (m_bytes ?q) n = s"
    using new by (simp add: set_next_def get_blockSize_def mem_simps)
  ultimately show ?thesis
    using Nil new by (simp add: q list_insert_front)
next
  case (snoc zs c)
  obtain x t where c: "c = (x, t)" by (cases c)
  from chain snoc c obtain b where
    zs: "seg (m_bytes p) (m_head p) (zs @ [(x, t)]) b" and ys: "seg (m_bytes p) b ys 0"
    by (auto simp: seg_append)
  have x0: "x \<noteq> 0" using seg_nonzero [OF zs] by auto
  have nx: "get_next (m_bytes p) x = b" by (rule seg_last_next [OF zs])
  have b: "b < 2 ^ 64" using ys addr [of "fst (hd ys)" "snd (hd ys)"] by (cases ys) auto
  have xn: "apart (x, t) (n, s)" using sep snoc c by auto
  let ?m1 = "st64 (m_bytes p) (n + 8) b"
  let ?m2 = "st64 ?m1 (x + 8) n"
  have mq: "m_bytes q = ?m2" and hq: "m_head q = m_head p"
    using x0 xn by (simp_all add: q snoc c list_insert_after nx set_next_def)
  have "seg ?m1 (m_head p) (zs @ [(x, t)]) b = seg (m_bytes p) (m_head p) (zs @ [(x, t)]) b"
  proof (rule seg_cong)
    fix z u y assume "(z, u) \<in> set (zs @ [(x, t)])" "z \<le> y" "y < z + 16"
    moreover from this(1) have "apart (z, u) (n, s)" using sep snoc c by auto
    ultimately show "?m1 y = m_bytes p y" by (auto simp: apart_def st64_outside)
  qed
  with zs have "seg ?m1 (m_head p) (zs @ [(x, t)]) b" by simp
  then have 1: "seg ?m2 (m_head p) (zs @ [(x, t)]) n"
    by (rule seg_redirect) (use nodes snoc c new in \<open>auto simp: sorted_wrt_append\<close>)
  have "seg ?m2 b ys 0 = seg (m_bytes p) b ys 0"
  proof (rule seg_cong)
    fix z u y assume "(z, u) \<in> set ys" "z \<le> y" "y < z + 16"
    moreover from this(1) have "apart (z, u) (n, s)" using sep by auto
    moreover have "apart (x, t) (z, u)"
      using \<open>(z, u) \<in> set ys\<close> nodes snoc c by (auto simp: sorted_wrt_append)
    ultimately show "?m2 y = m_bytes p y" by (auto simp: apart_def st64_outside)
  qed
  with ys have 2: "seg ?m2 b ys 0" by simp
  have 3: "get_blockSize ?m2 n = s" "get_next ?m2 n = b"
    using new b xn by (auto simp: get_blockSize_def get_next_def apart_def mem_simps)
  from 1 2 3 new show ?thesis
    unfolding mq hq snoc c using seg_append [of ?m2 "m_head p" "zs @ [(x, t)]" "(n, s) # ys" 0]
    by auto
qed

lemma list_remove_seg:
  assumes chain: "seg (m_bytes p) (m_head p) (xs @ (d, s) # ys) 0"
    and addr: "\<And>x t. (x, t) \<in> set (xs @ ys) \<Longrightarrow> x < 2 ^ 64"
    and nodes: "sorted_wrt apart (xs @ ys)"
    and q: "q = list_remove (lastaddr xs) d p"
  shows "seg (m_bytes q) (m_head q) (xs @ ys) 0"
proof (cases xs rule: rev_cases)
  case Nil
  with chain show ?thesis by (auto simp: q list_remove_front)
next
  case (snoc zs c)
  obtain x t where c: "c = (x, t)" by (cases c)
  let ?b = "get_next (m_bytes p) d"
  let ?m = "st64 (m_bytes p) (x + 8) ?b"
  from chain snoc c have zs: "seg (m_bytes p) (m_head p) (zs @ [(x, t)]) d"
    and ys: "seg (m_bytes p) ?b ys 0"
    by (auto simp: seg_append)
  have x0: "x \<noteq> 0" using seg_nonzero [OF zs] by auto
  have b: "?b < 2 ^ 64" unfolding get_next_def by (rule ld64_bound)
  have mq: "m_bytes q = ?m" and hq: "m_head q = m_head p"
    using x0 by (simp_all add: q snoc c list_remove_after set_next_def)
  have 1: "seg ?m (m_head p) (zs @ [(x, t)]) ?b"
    by (rule seg_redirect [OF zs b]) (use nodes snoc c in \<open>auto simp: sorted_wrt_append\<close>)
  have "seg ?m ?b ys 0 = seg (m_bytes p) ?b ys 0"
  proof (rule seg_cong)
    fix z u y assume "(z, u) \<in> set ys" "z \<le> y" "y < z + 16"
    moreover have "apart (x, t) (z, u)"
      using \<open>(z, u) \<in> set ys\<close> nodes snoc c by (auto simp: sorted_wrt_append)
    ultimately show "?m y = m_bytes p y" by (auto simp: apart_def st64_outside)
  qed
  with ys 1 show ?thesis
    unfolding mq hq snoc c using seg_append [of ?m "m_head p" "zs @ [(x, t)]" ys 0] by auto
qed


section \<open>The heap invariant\<close>

definition disj_blocks :: "block \<Rightarrow> block \<Rightarrow> bool" where
  "disj_blocks b c \<longleftrightarrow> fst b + snd b \<le> fst c \<or> fst c + snd c \<le> fst b"

definition block_ok :: "mem_pool \<Rightarrow> block \<Rightarrow> bool" where
  "block_ok p b \<longleftrightarrow> 16 dvd fst b \<and> 16 dvd snd b \<and> 0 < snd b \<and>
     m_start_ptr p \<le> fst b \<and> fst b + snd b \<le> m_start_ptr p + m_totalSize p"

definition header_ok :: "memory \<Rightarrow> block \<Rightarrow> bool" where
  "header_ok m b \<longleftrightarrow> get_blockSize m (fst b) = snd b \<and> m (fst b + 8) = 0 \<and> 32 \<le> snd b"

definition gap :: "block \<Rightarrow> block \<Rightarrow> bool" where
  "gap b c \<longleftrightarrow> fst b + snd b < fst c"

text \<open>
  \<open>pool_inv p fs live\<close>: the free list of \<open>p\<close> is \<open>fs\<close>, in increasing order of addresses and with
  no two adjacent blocks (fully coalesced); \<open>live\<close> are the blocks handed out; all blocks are
  multiples of 16 bytes inside the region, pairwise disjoint; every live block still has its
  header; and \<^verbatim>\<open>m_used\<close> is the total size of the live blocks.
\<close>

definition pool_inv :: "mem_pool \<Rightarrow> block list \<Rightarrow> block list \<Rightarrow> bool" where
  "pool_inv p fs live \<longleftrightarrow>
     m_start_ptr p \<noteq> 0 \<and> m_start_ptr p + m_totalSize p < 2 ^ 64 \<and>
     seg (m_bytes p) (m_head p) fs 0 \<and>
     (\<forall>b \<in> set fs \<union> set live. block_ok p b) \<and>
     sorted_wrt gap fs \<and> sorted_wrt disj_blocks live \<and>
     (\<forall>b \<in> set fs. \<forall>c \<in> set live. disj_blocks b c) \<and>
     (\<forall>b \<in> set live. header_ok (m_bytes p) b) \<and>
     m_used p = sum_list (map snd live)"

lemma pool_invD:
  assumes "pool_inv p fs live"
  shows "m_start_ptr p \<noteq> 0" "m_start_ptr p + m_totalSize p < 2 ^ 64"
    "seg (m_bytes p) (m_head p) fs 0"
    "\<And>b. b \<in> set fs \<Longrightarrow> block_ok p b" "\<And>b. b \<in> set live \<Longrightarrow> block_ok p b"
    "sorted_wrt gap fs" "sorted_wrt disj_blocks live"
    "\<And>b c. b \<in> set fs \<Longrightarrow> c \<in> set live \<Longrightarrow> disj_blocks b c"
    "\<And>b. b \<in> set live \<Longrightarrow> header_ok (m_bytes p) b"
    "m_used p = sum_list (map snd live)"
  using assms by (auto simp: pool_inv_def)

lemma block_ok_ge16: "block_ok p b \<Longrightarrow> 16 \<le> snd b"
  by (auto simp: block_ok_def dest: dvd_imp_le)

lemma block_ok_addr:
  "block_ok p b \<Longrightarrow> m_start_ptr p + m_totalSize p < 2 ^ 64 \<Longrightarrow> fst b + snd b < 2 ^ 64"
  by (simp add: block_ok_def)

lemma disj_blocks_sym: "disj_blocks b c \<Longrightarrow> disj_blocks c b"
  by (auto simp: disj_blocks_def)

lemma gap_disj: "gap b c \<Longrightarrow> disj_blocks b c"
  by (simp add: gap_def disj_blocks_def)

lemma disj_apart:
  "disj_blocks b c \<Longrightarrow> 16 \<le> snd b \<Longrightarrow> 16 \<le> snd c \<Longrightarrow> apart b c"
  by (auto simp: disj_blocks_def apart_def)

lemma gap_sorted_apart:
  "sorted_wrt gap fs \<Longrightarrow> (\<And>b. b \<in> set fs \<Longrightarrow> 16 \<le> snd b) \<Longrightarrow> sorted_wrt apart fs"
  by (induction fs) (auto intro!: disj_apart gap_disj)

lemma header_ok_cong:
  assumes "\<And>y. fst b \<le> y \<Longrightarrow> y < fst b + 16 \<Longrightarrow> m' y = m y"
  shows "header_ok m' b = header_ok m b"
  using get_blockSize_cong [of "fst b" m' m] assms by (simp add: header_ok_def)

subsection \<open>Sizes and paddings\<close>

lemma padding_aligned:
  assumes "16 dvd a" and "a + 16 < 2 ^ 64"
  shows "CalculatePaddingWithHeader a 16 16 = 16"
proof -
  from assms(1) obtain k where k: "a = 16 * k" by (elim dvdE)
  have "add64 k 1 = k + 1" "mul64 (k + 1) 16 = 16 * k + 16" "sub64 (16 * k + 16) (16 * k) = 16"
    using assms(2) by (simp_all add: k u64_simps)
  then show ?thesis
    by (simp add: CalculatePaddingWithHeader_def CalculatePadding_def k)
qed

lemma round_size_exact:
  assumes "sz + 48 < 2 ^ 64"
  shows "round_size sz = (max sz 16 div 16 + 1) * 16"
proof -
  have "(max sz 16 div 16 + 1) * 16 \<le> max sz 16 + 16" by simp
  also have "\<dots> < 2 ^ 64" using assms by simp
  finally have "(max sz 16 div 16 + 1) * 16 < 2 ^ 64" .
  then show ?thesis by (simp add: round_size_def u64_simps)
qed

lemma round_size_bounds:
  assumes "sz + 48 < 2 ^ 64"
  shows "16 dvd round_size sz" "sz < round_size sz" "32 \<le> round_size sz"
    "round_size sz \<le> max sz 16 + 16" "round_size sz + 16 < 2 ^ 64"
  using assms by (simp_all add: round_size_exact)

subsection \<open>The search\<close>

lemma find_loop_spec:
  assumes "seg m it ys 0"
    and "\<And>b. b \<in> set ys \<Longrightarrow> 16 dvd fst b \<and> fst b + 16 < 2 ^ 64"
    and "n + 16 < 2 ^ 64"
  shows "(\<exists>us a s vs. ys = us @ (a, s) # vs \<and> (\<forall>b \<in> set us. snd b < n + 16) \<and> n + 16 \<le> s \<and>
            find_loop m n 16 pad prev it =
              Some (16, if us = [] then prev else lastaddr us, a)) \<or>
         ((\<forall>b \<in> set ys. snd b < n + 16) \<and>
            (\<exists>pad' prev'. find_loop m n 16 pad prev it = Some (pad', prev', 0)))"
  using assms
proof (induction ys arbitrary: it pad prev)
  case Nil
  then show ?case by (simp add: find_loop.simps)
next
  case (Cons c ys)
  obtain a s where c: "c = (a, s)" by (cases c)
  have it: "it = a" "a \<noteq> 0" "get_blockSize m a = s" "seg m (get_next m a) ys 0"
    using Cons.prems(1) by (auto simp: c)
  have pad: "CalculatePaddingWithHeader a 16 16 = 16"
    using Cons.prems(2) [of c] by (intro padding_aligned) (auto simp: c)
  have step: "find_loop m n 16 pad prev it =
      (if n + 16 \<le> s then Some (16, prev, a) else find_loop m n 16 16 a (get_next m a))"
    using it pad Cons.prems(3) by (subst find_loop.simps) (simp add: u64_simps Let_def)
  show ?case
  proof (cases "n + 16 \<le> s")
    case True
    then have "c # ys = [] @ (a, s) # ys \<and> (\<forall>b \<in> set []. snd b < n + 16) \<and> n + 16 \<le> s \<and>
            find_loop m n 16 pad prev it = Some (16, if [] = [] then prev else lastaddr [], a)"
      using step c by simp
    then show ?thesis by blast
  next
    case False
    from Cons.IH [OF it(4), of 16 a] Cons.prems(2,3)
    consider (found) us b t vs where "ys = us @ (b, t) # vs" "\<forall>b \<in> set us. snd b < n + 16"
        "n + 16 \<le> t" "find_loop m n 16 16 a (get_next m a) =
           Some (16, if us = [] then a else lastaddr us, b)"
      | (none) pad' prev' where "\<forall>b \<in> set ys. snd b < n + 16"
        "find_loop m n 16 16 a (get_next m a) = Some (pad', prev', 0)"
      by auto
    then show ?thesis
    proof cases
      case found
      then have "c # ys = (c # us) @ (b, t) # vs \<and> (\<forall>b \<in> set (c # us). snd b < n + 16) \<and>
          n + 16 \<le> t \<and> find_loop m n 16 pad prev it =
            Some (16, if c # us = [] then prev else lastaddr (c # us), b)"
        using False step by (auto simp: c lastaddr_def)
      then show ?thesis by blast
    next
      case none
      then show ?thesis using False step by (auto simp: c)
    qed
  qed
qed


subsection \<open>Allocation\<close>

text \<open>
  Carving the first \<open>r\<close> bytes off the free block \<open>(a, s)\<close>: the rest of the block, if there is
  one, takes its place in the list.
\<close>

definition carve :: "nat \<Rightarrow> nat \<Rightarrow> nat \<Rightarrow> block list" where
  "carve a s r = (if s = r then [] else [(a + r, s - r)])"

definition carve_block :: "mem_pool \<Rightarrow> nat \<Rightarrow> nat \<Rightarrow> nat \<Rightarrow> nat \<Rightarrow> mem_pool" where
  "carve_block p prev a s r =
     list_remove prev a
       (if s - r > 0 then list_insert a (a + r) (set_blockSize (a + r) (s - r) p) else p)"

lemma carve_block_seg:
  assumes inv: "pool_inv p (us @ (a, s) # vs) live"
    and r: "16 dvd r" "16 \<le> r" "r \<le> s"
    and q: "q = carve_block p (lastaddr us) a s r"
  shows "seg (m_bytes q) (m_head q) (us @ carve a s r @ vs) 0"
    and "frame ({a ..< a + s} \<union> next_field (lastaddr us)) p q"
proof -
  let ?fs = "us @ (a, s) # vs"
  note D = pool_invD [OF inv]
  have ok: "\<And>b. b \<in> set ?fs \<Longrightarrow> 16 \<le> snd b \<and> fst b + snd b < 2 ^ 64"
    using D(2,4) block_ok_ge16 block_ok_addr by blast
  have as: "16 dvd a" "16 dvd s" "a \<noteq> 0" "a + s < 2 ^ 64"
    using D(1) D(4) [of "(a, s)"] ok [of "(a, s)"] by (auto simp: block_ok_def)
  have nodes: "sorted_wrt apart ?fs"
    using D(6) ok by (intro gap_sorted_apart) auto
  have "seg (m_bytes q) (m_head q) (us @ carve a s r @ vs) 0 \<and>
        frame ({a ..< a + s} \<union> next_field (lastaddr us)) p q"
  proof (cases "s = r")
    case True
    then have q': "q = list_remove (lastaddr us) a p" by (simp add: q carve_block_def)
    have "seg (m_bytes q) (m_head q) (us @ vs) 0"
      using D(3) _ _ q' by (rule list_remove_seg)
        (use nodes ok in \<open>fastforce simp: sorted_wrt_append\<close>)+
    moreover have "frame ({a ..< a + s} \<union> next_field (lastaddr us)) p q"
      unfolding q' by (rule frame_mono [OF frame_list_remove]) simp
    ultimately show ?thesis using True by (simp add: carve_def)
  next
    case False
    let ?n = "a + r" and ?t = "s - r"
    have t: "16 \<le> ?t" using False r as(2) by (auto intro: dvd_imp_le)
    let ?p0 = "set_blockSize ?n ?t p"
    let ?p1 = "list_insert a ?n ?p0"
    have q': "q = list_remove (lastaddr us) a ?p1"
      using False r by (simp add: q carve_block_def)
    have n_apart: "apart b (?n, ?t)" if "b \<in> set ?fs" for b
      using that D(6) r t ok by (fastforce simp: apart_def gap_def sorted_wrt_append)
    have "seg (m_bytes ?p0) (m_head p) ?fs 0 = seg (m_bytes p) (m_head p) ?fs 0"
    proof (rule seg_cong)
      fix x u y assume "(x, u) \<in> set ?fs" "x \<le> y" "y < x + 16"
      with n_apart [of "(x, u)"] show "m_bytes ?p0 y = m_bytes p y"
        by (auto simp: set_blockSize_def apart_def st64_outside)
    qed
    with D(3) have "seg (m_bytes ?p0) (m_head ?p0) ((us @ [(a, s)]) @ vs) 0"
      by (simp add: set_blockSize_def)
    then have "seg (m_bytes ?p1) (m_head ?p1) ((us @ [(a, s)]) @ (?n, ?t) # vs) 0"
    proof (rule list_insert_seg)
      show "?n \<noteq> 0" "?n < 2 ^ 64" using as t r by simp_all
      show "get_blockSize (m_bytes ?p0) ?n = ?t"
        using as by (simp add: get_blockSize_def set_blockSize_def mem_simps)
      show "\<And>x u. (x, u) \<in> set ((us @ [(a, s)]) @ vs) \<Longrightarrow> x < 2 ^ 64" using ok by fastforce
      show "\<And>c. c \<in> set ((us @ [(a, s)]) @ vs) \<Longrightarrow> apart c (?n, ?t)" using n_apart by auto
      show "sorted_wrt apart ((us @ [(a, s)]) @ vs)" using nodes by simp
      show "?p1 = list_insert (lastaddr (us @ [(a, s)])) ?n ?p0" by simp
    qed
    then have "seg (m_bytes ?p1) (m_head ?p1) (us @ (a, s) # (?n, ?t) # vs) 0" by simp
    then have "seg (m_bytes q) (m_head q) (us @ (?n, ?t) # vs) 0"
    proof (rule list_remove_seg [OF _ _ _ q'])
      show "\<And>x u. (x, u) \<in> set (us @ (?n, ?t) # vs) \<Longrightarrow> x < 2 ^ 64" using ok as t r by fastforce
      show "sorted_wrt apart (us @ (?n, ?t) # vs)"
        using nodes n_apart apart_sym by (auto simp: sorted_wrt_append)
    qed
    moreover have "frame ({a ..< a + s} \<union> next_field (lastaddr us)) p q"
    proof -
      have "frame ({?n ..< ?n + 8} \<union> (next_field a \<union> next_field ?n)) p ?p1"
        using n_apart [of "(a, s)"] r
        by (intro frame_trans [OF frame_set_blockSize frame_list_insert]) auto
      then have "frame {a ..< a + s} p ?p1"
        by (rule frame_mono) (use t r in \<open>auto simp: next_field_def split: if_splits\<close>)
      then show ?thesis unfolding q' by (rule frame_trans) (rule frame_list_remove)
    qed
    ultimately show ?thesis using False by (simp add: carve_def)
  qed
  then show "seg (m_bytes q) (m_head q) (us @ carve a s r @ vs) 0"
    and "frame ({a ..< a + s} \<union> next_field (lastaddr us)) p q" by simp_all
qed


text \<open>Disjoint blocks of a region do not add up to more than the region.\<close>

definition cells :: "block \<Rightarrow> nat set" where
  "cells b = {fst b ..< fst b + snd b}"

lemma disj_blocks_cells: "disj_blocks b c \<Longrightarrow> cells b \<inter> cells c = {}"
  by (auto simp: disj_blocks_def cells_def)

lemma sum_sizes_card:
  "sorted_wrt disj_blocks bs \<Longrightarrow> sum_list (map snd bs) = card (\<Union>b \<in> set bs. cells b)"
proof (induction bs)
  case (Cons b bs)
  have "cells b \<inter> (\<Union>c \<in> set bs. cells c) = {}"
    using Cons.prems disj_blocks_cells by fastforce
  then have "card (cells b \<union> (\<Union>c \<in> set bs. cells c)) =
      card (cells b) + card (\<Union>c \<in> set bs. cells c)"
    by (intro card_Un_disjoint) (auto simp: cells_def)
  with Cons show ?case by (simp add: cells_def)
qed simp

lemma pool_blocks_disj:
  assumes "pool_inv p fs live"
  shows "sorted_wrt disj_blocks (fs @ live)"
  using pool_invD(6,7,8) [OF assms]
  by (auto simp: sorted_wrt_append intro: sorted_wrt_mono_rel [of _ gap disj_blocks] gap_disj)

lemma pool_total_bound:
  assumes "pool_inv p fs live"
  shows "sum_list (map snd fs) + sum_list (map snd live) \<le> m_totalSize p"
proof -
  have "(\<Union>b \<in> set (fs @ live). cells b) \<subseteq> {m_start_ptr p ..< m_start_ptr p + m_totalSize p}"
    using pool_invD(4,5) [OF assms] by (fastforce simp: cells_def block_ok_def)
  then have "card (\<Union>b \<in> set (fs @ live). cells b) \<le> m_totalSize p"
    using card_mono [of "{m_start_ptr p ..< m_start_ptr p + m_totalSize p}"] by fastforce
  then show ?thesis
    using sum_sizes_card [OF pool_blocks_disj [OF assms]] by simp
qed

lemma live_outside_free:
  assumes "pool_inv p fs live" and "b \<in> set fs" and "c \<in> set live" and "y \<in> cells c"
  shows "y \<notin> cells b"
  using pool_invD(8) [OF assms(1-3)] disj_blocks_cells assms(4) by blast

lemma next_field_cells:
  assumes "pool_inv p fs live" and "us \<noteq> []" and "set us \<subseteq> set fs"
  shows "next_field (lastaddr us) \<subseteq> cells (last us)"
proof -
  have "last us \<in> set fs" using assms(2,3) by auto
  then have "16 \<le> snd (last us)" using pool_invD(4) [OF assms(1)] block_ok_ge16 by blast
  then show ?thesis using assms(2) by (auto simp: next_field_def lastaddr_def cells_def)
qed

definition alloc_state :: "mem_pool \<Rightarrow> nat \<Rightarrow> nat \<Rightarrow> nat \<Rightarrow> nat \<Rightarrow> mem_pool" where
  "alloc_state p prev a s r =
     (set_padding a 0 (set_blockSize a r (carve_block p prev a s r)))
       \<lparr>m_used := m_used p + r, m_peak := max (m_peak p) (m_used p + r)\<rparr>"

lemma carve_sorted:
  assumes "sorted_wrt gap (us @ (a, s) # vs)" and "r \<le> s"
  shows "sorted_wrt gap (us @ carve a s r @ vs)"
  using assms by (fastforce simp: carve_def sorted_wrt_append gap_def)

lemma alloc_state_frame:
  assumes inv: "pool_inv p (us @ (a, s) # vs) live"
    and r: "16 dvd r" "16 \<le> r" "r \<le> s"
    and y: "y \<notin> cells (a, s)" "y \<notin> next_field (lastaddr us)"
  shows "m_bytes (alloc_state p (lastaddr us) a s r) y = m_bytes p y"
proof -
  have "16 \<le> s" using r by simp
  then show ?thesis
    using frameD [OF carve_block_seg(2) [OF inv r refl], of y] y
    by (simp add: alloc_state_def set_padding_def set_blockSize_def cells_def mem_simps)
      (auto simp: st8_def st64_def)
qed

lemma live_bytes_unchanged:
  assumes inv: "pool_inv p (us @ (a, s) # vs) live"
    and r: "16 dvd r" "16 \<le> r" "r \<le> s" and c: "c \<in> set live" "y \<in> cells c"
  shows "m_bytes (alloc_state p (lastaddr us) a s r) y = m_bytes p y"
proof (rule alloc_state_frame [OF inv r])
  show "y \<notin> cells (a, s)" using live_outside_free [OF inv _ c] by simp
  show "y \<notin> next_field (lastaddr us)"
  proof (cases "us = []")
    case False
    then have "next_field (lastaddr us) \<subseteq> cells (last us)"
      by (intro next_field_cells [OF inv]) auto
    with False live_outside_free [OF inv _ c, of "last us"] show ?thesis by auto
  qed (simp add: next_field_def)
qed

lemma alloc_state_inv:
  assumes inv: "pool_inv p (us @ (a, s) # vs) live"
    and r: "16 dvd r" "32 \<le> r" "r \<le> s"
    and q: "q = alloc_state p (lastaddr us) a s r"
  shows "pool_inv q (us @ carve a s r @ vs) ((a, r) # live)"
proof -
  let ?fs = "us @ (a, s) # vs" and ?fs' = "us @ carve a s r @ vs"
  let ?q0 = "carve_block p (lastaddr us) a s r"
  have r16: "16 \<le> r" using r by simp
  note D = pool_invD [OF inv] and C = carve_block_seg [OF inv r(1) r16 r(3) refl]
  have as: "16 dvd a" "16 dvd s" "a \<noteq> 0" "a + s < 2 ^ 64"
    using D(1,2) D(4) [of "(a, s)"] by (auto simp: block_ok_def)
  have fields: "m_start_ptr q = m_start_ptr p" "m_totalSize q = m_totalSize p"
      "m_used q = m_used p + r" "m_head q = m_head ?q0"
    using frame_fields [OF C(2)] by (simp_all add: q alloc_state_def set_padding_def set_blockSize_def)
  have bytes: "m_bytes q y = m_bytes ?q0 y" if "y < a \<or> a + 16 \<le> y" for y
    using that by (auto simp: q alloc_state_def set_padding_def set_blockSize_def st8_def st64_def)
  have free_ok: "block_ok q b \<and> 16 \<le> snd b" if "b \<in> set ?fs'" for b
  proof -
    have "block_ok q b"
    proof (cases "b \<in> set ?fs")
      case True
      with D(4) show ?thesis by (simp add: block_ok_def fields)
    next
      case False
      with that r as D(4) [of "(a, s)"] show ?thesis
        by (auto simp: carve_def block_ok_def fields split: if_splits)
    qed
    with block_ok_ge16 show ?thesis by blast
  qed
  have new_disj: "disj_blocks b (a, r)" if "b \<in> set ?fs'" for b
    using that D(6) r by (fastforce simp: carve_def disj_blocks_def gap_def sorted_wrt_append
        split: if_splits)
  have sub: "disj_blocks b c" if "b \<in> set ?fs'" "c \<in> set live" for b c
  proof -
    have "disj_blocks (a, s) c" using D(8) that(2) by simp
    then show ?thesis using that D(8) [of b c] r
      by (auto simp: carve_def disj_blocks_def split: if_splits)
  qed
  have live_bytes: "m_bytes q y = m_bytes p y" if "c \<in> set live" "y \<in> cells c" for c y
    unfolding q by (rule live_bytes_unchanged [OF inv r(1) r16 r(3) that])
  have "seg (m_bytes q) (m_head ?q0) ?fs' 0 = seg (m_bytes ?q0) (m_head ?q0) ?fs' 0"
  proof (rule seg_cong)
    fix x t y assume xt: "(x, t) \<in> set ?fs'" and "x \<le> y" "y < x + 16"
    moreover have "16 \<le> t" "disj_blocks (x, t) (a, r)"
      using free_ok [OF xt] new_disj [OF xt] by simp_all
    ultimately show "m_bytes q y = m_bytes ?q0 y"
      using r by (intro bytes) (auto simp: disj_blocks_def)
  qed
  with C(1) have 1: "seg (m_bytes q) (m_head q) ?fs' 0" by (simp add: fields)
  have 2: "\<forall>b \<in> set ?fs' \<union> set ((a, r) # live). block_ok q b"
    using free_ok D(5) D(4) [of "(a, s)"] r as by (auto simp: block_ok_def fields)
  have 3: "sorted_wrt gap ?fs'" by (rule carve_sorted [OF D(6) r(3)])
  have "disj_blocks (a, r) c" if "c \<in> set live" for c
    using D(8) [of "(a, s)" c] that r by (auto simp: disj_blocks_def)
  with D(7) have 4: "sorted_wrt disj_blocks ((a, r) # live)" by simp
  have 5: "\<forall>b \<in> set ?fs'. \<forall>c \<in> set ((a, r) # live). disj_blocks b c"
    using new_disj sub by auto
  have "header_ok (m_bytes q) c" if c: "c \<in> set live" for c
  proof -
    have "16 \<le> snd c" using D(5) [OF c] by (rule block_ok_ge16)
    then show ?thesis
      using D(9) [OF c] header_ok_cong [of c "m_bytes q" "m_bytes p"] live_bytes [OF c]
      by (simp add: cells_def)
  qed
  moreover have "header_ok (m_bytes q) (a, r)"
    using r as by (simp add: header_ok_def q alloc_state_def set_padding_def set_blockSize_def
        get_blockSize_def mem_simps)
  ultimately have 6: "\<forall>b \<in> set ((a, r) # live). header_ok (m_bytes q) b" by simp
  show ?thesis
    unfolding pool_inv_def using D(1,2,10) 1 2 3 4 5 6 by (simp add: fields)
qed


lemma pool_alloc_fit:
  assumes inv: "pool_inv p (us @ (a, s) # vs) live"
    and sz: "sz + 48 < 2 ^ 64" and al: "al \<le> 16"
    and first: "\<forall>b \<in> set us. snd b < round_size sz + 16" and fit: "round_size sz + 16 \<le> s"
    and find: "find_block p (round_size sz) 16 = Some (16, lastaddr us, a)"
  shows "pool_alloc p sz al =
    Some (Inr (a + 16, alloc_state p (lastaddr us) a s (round_size sz + 16)))"
proof -
  let ?r = "round_size sz + 16"
  note D = pool_invD [OF inv]
  have as: "a \<noteq> 0" "a + s < 2 ^ 64" "get_blockSize (m_bytes p) a = s"
    using D(1,2) D(4) [of "(a, s)"] D(3) by (auto simp: block_ok_def seg_append)
  have "16 dvd ?r" "16 \<le> ?r" using round_size_bounds(1) [OF sz] by simp_all
  note C = frame_fields [OF carve_block_seg(2) [OF inv this fit refl]]
  have used: "m_used p + ?r < 2 ^ 64"
    using pool_total_bound [OF inv] D(2,10) fit by simp
  have simps: "sub64 16 16 = 0" "add64 (round_size sz) 16 = ?r" "sub64 s ?r = s - ?r"
    "add64 a ?r = a + ?r" "add64 a 0 = a" "add64 a 16 = a + 16" "add64 (m_used p) ?r = m_used p + ?r"
    using as fit used by (simp_all add: u64_simps)
  have "max al 16 = 16" using al by simp
  then show ?thesis
    using as find C unfolding carve_block_def
    by (cases "0 < s - ?r")
      (simp_all add: pool_alloc_def Let_def simps carve_block_def alloc_state_def
        set_padding_def set_blockSize_def)
qed

text \<open>
  Allocation with the default alignment: it fails exactly when no free block is large enough,
  and otherwise takes the first one that is, without touching any byte of a live block.
\<close>

lemma pool_alloc_cases:
  assumes inv: "pool_inv p fs live" and sz: "sz + 48 < 2 ^ 64" and al: "al \<le> 16"
  obtains (full) "pool_alloc p sz al = Some (Inl NotEnoughMemory)"
      "\<forall>b \<in> set fs. snd b < round_size sz + 16"
    | (fit) us a s vs where "fs = us @ (a, s) # vs" "\<forall>b \<in> set us. snd b < round_size sz + 16"
      "round_size sz + 16 \<le> s"
      "pool_alloc p sz al =
         Some (Inr (a + 16, alloc_state p (lastaddr us) a s (round_size sz + 16)))"
proof -
  let ?n = "round_size sz"
  note D = pool_invD [OF inv]
  have "\<And>b. b \<in> set fs \<Longrightarrow> 16 dvd fst b \<and> fst b + 16 < 2 ^ 64"
  proof -
    fix b assume "b \<in> set fs"
    from D(4) [OF this] block_ok_ge16 [of p b] D(2)
    show "16 dvd fst b \<and> fst b + 16 < 2 ^ 64" by (auto simp: block_ok_def)
  qed
  from find_loop_spec [OF D(3) this round_size_bounds(5) [OF sz], of 0 0]
  consider (found) us a s vs where "fs = us @ (a, s) # vs" "\<forall>b \<in> set us. snd b < ?n + 16"
      "?n + 16 \<le> s" "find_block p ?n 16 = Some (16, lastaddr us, a)"
    | (none) pad' prev' where "\<forall>b \<in> set fs. snd b < ?n + 16"
      "find_block p ?n 16 = Some (pad', prev', 0)"
    unfolding find_block_def by (auto simp: lastaddr_def)
  then show thesis
  proof cases
    case found
    with pool_alloc_fit [OF _ sz al found(2,3,4)] inv show ?thesis
      by (intro fit) auto
  next
    case none
    have "max al 16 = 16" using al by simp
    with none show ?thesis
      by (intro full) (simp_all add: pool_alloc_def Let_def)
  qed
qed


subsection \<open>Release\<close>

lemma free_loop_spec:
  assumes "seg m it ys 0" and "sorted_wrt gap ys"
  shows "\<exists>us vs. ys = us @ vs \<and> (\<forall>b \<in> set us. fst b \<le> ptr) \<and> (\<forall>b \<in> set vs. ptr < fst b) \<and>
    free_loop m ptr prev it =
      Some (if us = [] then prev else lastaddr us, if vs = [] then 0 else fst (hd vs))"
  using assms
proof (induction ys arbitrary: it prev)
  case Nil
  then show ?case by (simp add: free_loop.simps)
next
  case (Cons c ys)
  obtain a s where c: "c = (a, s)" by (cases c)
  have it: "it = a" "a \<noteq> 0" "seg m (get_next m a) ys 0" and srt: "sorted_wrt gap ys"
    using Cons.prems by (auto simp: c)
  have step: "free_loop m ptr prev it =
      (if ptr < a then Some (prev, a) else free_loop m ptr a (get_next m a))"
    using it by (subst free_loop.simps) simp
  show ?case
  proof (cases "ptr < a")
    case True
    with Cons.prems(2) have "\<forall>b \<in> set (c # ys). ptr < fst b" by (auto simp: c gap_def)
    with True step show ?thesis by (intro exI [of _ "[]"] exI [of _ "c # ys"]) (simp add: c)
  next
    case False
    from Cons.IH [OF it(3) srt, of a] obtain us vs where
      "ys = us @ vs" "\<forall>b \<in> set us. fst b \<le> ptr" "\<forall>b \<in> set vs. ptr < fst b"
      "free_loop m ptr a (get_next m a) =
        Some (if us = [] then a else lastaddr us, if vs = [] then 0 else fst (hd vs))"
      by blast
    with False step show ?thesis
      by (intro exI [of _ "c # us"] exI [of _ vs]) (auto simp: c lastaddr_def)
  qed
qed

definition touches :: "block list \<Rightarrow> nat \<Rightarrow> bool" where
  "touches us h \<longleftrightarrow> us \<noteq> [] \<and> fst (last us) + snd (last us) = h"

definition merge_next :: "nat \<Rightarrow> nat \<Rightarrow> block list \<Rightarrow> nat \<times> block list" where
  "merge_next h r vs =
     (case vs of [] \<Rightarrow> (r, []) | (b, t) # ws \<Rightarrow> if h + r = b then (r + t, ws) else (r, vs))"

definition merge_prev :: "block list \<Rightarrow> nat \<Rightarrow> nat \<Rightarrow> block list" where
  "merge_prev us h r =
     (if touches us h then butlast us @ [(fst (last us), snd (last us) + r)] else us @ [(h, r)])"

text \<open>
  The free list after the release of the block \<open>(h, r)\<close> between the free blocks \<open>us\<close> below it
  and \<open>vs\<close> above it.  When nothing is above it and the last block does not touch it, the loop
  of \<^verbatim>\<open>free\<close> ends without inserting the node, and the list stays as it is.
\<close>

definition release :: "block list \<Rightarrow> nat \<Rightarrow> nat \<Rightarrow> block list \<Rightarrow> block list" where
  "release us h r vs =
     (if vs = [] \<and> \<not> touches us h then us
      else (case merge_next h r vs of (r1, vs1) \<Rightarrow> merge_prev us h r1 @ vs1))"

lemma resize_seg:
  assumes "seg m a (xs @ (x, s) # ys) b" and "v < 2 ^ 64"
    and "\<And>c. c \<in> set (xs @ ys) \<Longrightarrow> apart c (x, s)"
  shows "seg (st64 m x v) a (xs @ (x, v) # ys) b"
proof -
  let ?m = "st64 m x v"
  from assms(1) have 1: "seg m a xs x" "x \<noteq> 0" "seg m (get_next m x) ys b"
    by (auto simp: seg_append)
  have eq: "seg ?m c zs d = seg m c zs d" if "set zs \<subseteq> set (xs @ ys)" for c zs d
  proof (rule seg_cong)
    fix z t y assume "(z, t) \<in> set zs" "z \<le> y" "y < z + 16"
    moreover from this(1) have "apart (z, t) (x, s)" using that assms(3) by blast
    ultimately show "?m y = m y" by (auto simp: apart_def st64_outside)
  qed
  have "get_next ?m x = get_next m x" "get_blockSize ?m x = v"
    using assms(2) by (simp_all add: get_next_def get_blockSize_def mem_simps)
  with 1 show ?thesis by (auto simp: seg_append eq)
qed

lemma absorb_seg:
  assumes chain: "seg (m_bytes p) (m_head p) (xs @ (x, s) # (y, t) # zs) 0"
    and v: "v < 2 ^ 64"
    and addr: "\<And>c. c \<in> set (xs @ (x, s) # zs) \<Longrightarrow> fst c < 2 ^ 64"
    and nodes: "sorted_wrt apart (xs @ (x, s) # (y, t) # zs)"
    and q: "q = list_remove x y (set_blockSize x v p)"
  shows "seg (m_bytes q) (m_head q) (xs @ (x, v) # zs) 0" and "frame {x ..< x + 16} p q"
proof -
  let ?p = "set_blockSize x v p"
  have sep: "\<And>c. c \<in> set (xs @ (y, t) # zs) \<Longrightarrow> apart c (x, s)"
    using nodes apart_sym by (auto simp: sorted_wrt_append)
  from resize_seg [OF chain v sep]
  have "seg (m_bytes ?p) (m_head ?p) ((xs @ [(x, v)]) @ (y, t) # zs) 0"
    by (simp add: set_blockSize_def)
  then have "seg (m_bytes q) (m_head q) ((xs @ [(x, v)]) @ zs) 0"
  proof (rule list_remove_seg)
    show "\<And>u w. (u, w) \<in> set ((xs @ [(x, v)]) @ zs) \<Longrightarrow> u < 2 ^ 64" using addr by fastforce
    show "sorted_wrt apart ((xs @ [(x, v)]) @ zs)"
      using nodes by (auto simp: sorted_wrt_append apart_def)
    show "q = list_remove (lastaddr (xs @ [(x, v)])) y ?p" by (simp add: q)
  qed
  then show "seg (m_bytes q) (m_head q) (xs @ (x, v) # zs) 0" by simp
  have "frame ({x ..< x + 8} \<union> next_field x) p q"
    unfolding q by (rule frame_trans [OF frame_set_blockSize frame_list_remove])
  then show "frame {x ..< x + 16} p q"
    by (rule frame_mono) (auto simp: next_field_def split: if_splits)
qed


text \<open>
  During a release two blocks of the list may touch: the same conditions with \<open>wgap\<close> for
  \<open>gap\<close>.  Joining two blocks that touch keeps them.
\<close>

definition wgap :: "block \<Rightarrow> block \<Rightarrow> bool" where
  "wgap b c \<longleftrightarrow> fst b + snd b \<le> fst c"

definition wblocks :: "mem_pool \<Rightarrow> block list \<Rightarrow> block list \<Rightarrow> bool" where
  "wblocks p fs live \<longleftrightarrow> sorted_wrt wgap fs \<and> (\<forall>b \<in> set fs. block_ok p b) \<and>
     (\<forall>c \<in> set live. 0 < snd c \<and> (\<forall>b \<in> set fs. disj_blocks b c))"

lemma wblocks_apart:
  assumes "wblocks p fs live"
  shows "sorted_wrt apart fs"
proof -
  have "\<forall>b \<in> set fs. 16 \<le> snd b" using assms block_ok_ge16 by (auto simp: wblocks_def)
  moreover have "sorted_wrt wgap fs" using assms by (simp add: wblocks_def)
  ultimately show ?thesis
    by (induction fs) (fastforce simp: wgap_def apart_def)+
qed

lemma wblocks_join:
  assumes "wblocks p (xs @ (x, s) # (y, t) # zs) live" and "x + s = y"
  shows "wblocks p (xs @ (x, s + t) # zs) live"
proof -
  have "block_ok p (x, s + t)"
    using assms by (auto simp: wblocks_def block_ok_def)
  moreover have "disj_blocks (x, s + t) c" if "c \<in> set live" for c
  proof -
    have "0 < snd c" "disj_blocks (x, s) c" "disj_blocks (y, t) c"
      using assms(1) that by (auto simp: wblocks_def)
    then show ?thesis using assms(2) by (auto simp: disj_blocks_def)
  qed
  moreover have "sorted_wrt wgap (xs @ (x, s + t) # zs)"
    using assms by (auto simp: wblocks_def sorted_wrt_append wgap_def)
  ultimately show ?thesis using assms(1) by (auto simp: wblocks_def)
qed


lemma join_step:
  assumes W: "wblocks p (xs @ (x, s) # (y, t) # zs) live" and xy: "x + s = y"
    and chain: "seg (m_bytes p) (m_head p) (xs @ (x, s) # (y, t) # zs) 0"
    and lim: "m_start_ptr p + m_totalSize p < 2 ^ 64"
    and q: "q = list_remove x y (set_blockSize x (s + t) p)"
  shows "wblocks q (xs @ (x, s + t) # zs) live"
    and "seg (m_bytes q) (m_head q) (xs @ (x, s + t) # zs) 0"
    and "frame {x ..< x + 16} p q"
proof -
  have ok: "block_ok p c" if "c \<in> set (xs @ (x, s) # (y, t) # zs)" for c
    using W that unfolding wblocks_def by blast
  have v: "s + t < 2 ^ 64"
    using ok [of "(y, t)"] xy lim by (simp add: block_ok_def)
  have addr: "fst c < 2 ^ 64" if "c \<in> set (xs @ (x, s) # zs)" for c
    using ok [of c] that lim by (auto simp: block_ok_def)
  show "seg (m_bytes q) (m_head q) (xs @ (x, s + t) # zs) 0"
    by (rule absorb_seg(1) [OF chain v addr wblocks_apart [OF W] q])
  show f: "frame {x ..< x + 16} p q"
    by (rule absorb_seg(2) [OF chain v addr wblocks_apart [OF W] q])
  show "wblocks q (xs @ (x, s + t) # zs) live"
    using wblocks_join [OF W xy] frame_fields [OF f] by (simp add: wblocks_def block_ok_def)
qed

lemma merge_next_simps:
  "merge_next h r [] = (r, [])"
  "merge_next h r ((b, t) # ws) = (if h + r = b then (r + t, ws) else (r, (b, t) # ws))"
  by (simp_all add: merge_next_def)

lemma merge_prev_simps:
  "merge_prev [] h r = [(h, r)]"
  "merge_prev (zs @ [(x, u)]) h r = (if x + u = h then zs @ [(x, u + r)] else zs @ [(x, u), (h, r)])"
  by (simp_all add: merge_prev_def touches_def)

text \<open>The two halves of \<^verbatim>\<open>coalescence\<close>.\<close>

definition join_next :: "nat \<Rightarrow> mem_pool \<Rightarrow> mem_pool" where
  "join_next h p =
     (let b = get_next (m_bytes p) h; r = get_blockSize (m_bytes p) h
      in if b \<noteq> 0 \<and> add64 h r = b
         then list_remove h b (set_blockSize h (add64 r (get_blockSize (m_bytes p) b)) p) else p)"

definition join_prev :: "nat \<Rightarrow> nat \<Rightarrow> mem_pool \<Rightarrow> mem_pool" where
  "join_prev x h p =
     (let u = get_blockSize (m_bytes p) x
      in if x \<noteq> 0 \<and> add64 x u = h
         then list_remove x h (set_blockSize x (add64 u (get_blockSize (m_bytes p) h)) p) else p)"

lemma coalescence_eq: "coalescence x h p = join_prev x h (join_next h p)"
  by (simp add: coalescence_def join_next_def join_prev_def Let_def)

lemma wblocks_small:
  assumes "wblocks p fs live" and "m_start_ptr p + m_totalSize p < 2 ^ 64" and "b \<in> set fs"
  shows "fst b + snd b < 2 ^ 64"
proof -
  have "block_ok p b" using assms by (simp add: wblocks_def)
  with assms(2) show ?thesis by (simp add: block_ok_def)
qed

lemma join_next_seg:
  assumes W: "wblocks p (us @ (h, r) # vs) live"
    and chain: "seg (m_bytes p) (m_head p) (us @ (h, r) # vs) 0"
    and lim: "m_start_ptr p + m_totalSize p < 2 ^ 64"
    and mn: "merge_next h r vs = (r1, vs1)"
    and q: "q = join_next h p"
  shows "wblocks q (us @ (h, r1) # vs1) live \<and>
    seg (m_bytes q) (m_head q) (us @ (h, r1) # vs1) 0 \<and> frame {h ..< h + 16} p q"
proof (cases vs)
  case Nil
  with chain have "q = p" by (auto simp: q join_next_def seg_append)
  then show ?thesis using W chain mn Nil by (simp add: merge_next_simps)
next
  case (Cons c ws)
  obtain b t where c: "c = (b, t)" by (cases c)
  have b: "get_next (m_bytes p) h = b" "b \<noteq> 0" "get_blockSize (m_bytes p) b = t"
      "get_blockSize (m_bytes p) h = r"
    using chain by (auto simp: seg_append Cons c)
  have "h + r < 2 ^ 64" "b + t < 2 ^ 64"
    using wblocks_small [OF W lim, of "(h, r)"] wblocks_small [OF W lim, of "(b, t)"]
    by (simp_all add: Cons c)
  then have q': "q = (if h + r = b then list_remove h b (set_blockSize h (r + t) p) else p)"
    unfolding q join_next_def Let_def b using b(2) by (auto simp: u64_simps)
  show ?thesis
  proof (cases "h + r = b")
    case True
    have "wblocks p (us @ (h, r) # (b, t) # ws) live"
      "seg (m_bytes p) (m_head p) (us @ (h, r) # (b, t) # ws) 0" using W chain Cons c by simp_all
    note J = join_step [OF this(1) True this(2) lim]
    have "q = list_remove h b (set_blockSize h (r + t) p)" using q' True by simp
    moreover have "r1 = r + t" "vs1 = ws" using mn True by (simp_all add: Cons c merge_next_simps)
    ultimately show ?thesis using J by blast
  next
    case False
    then have "q = p" "r1 = r" "vs1 = vs" using q' mn by (simp_all add: Cons c merge_next_simps)
    then show ?thesis using W chain by simp
  qed
qed


lemma join_prev_seg:
  assumes W: "wblocks p (us @ (h, r) # vs) live"
    and chain: "seg (m_bytes p) (m_head p) (us @ (h, r) # vs) 0"
    and lim: "m_start_ptr p + m_totalSize p < 2 ^ 64"
    and q: "q = join_prev (lastaddr us) h p"
  shows "wblocks q (merge_prev us h r @ vs) live \<and>
    seg (m_bytes q) (m_head q) (merge_prev us h r @ vs) 0 \<and>
    frame (if us = [] then {} else {lastaddr us ..< lastaddr us + 16}) p q"
proof (cases us rule: rev_cases)
  case Nil
  then have "q = p" by (simp add: q join_prev_def)
  with Nil W chain show ?thesis by (simp add: merge_prev_simps)
next
  case (snoc zs c)
  obtain x u where c: "c = (x, u)" by (cases c)
  have x: "x \<noteq> 0" "get_blockSize (m_bytes p) x = u" "get_blockSize (m_bytes p) h = r"
    using chain by (auto simp: seg_append snoc c)
  have "x + u < 2 ^ 64" "h + r < 2 ^ 64"
    using wblocks_small [OF W lim, of "(h, r)"] wblocks_small [OF W lim, of "(x, u)"]
    by (simp_all add: snoc c)
  then have q': "q = (if x + u = h then list_remove x h (set_blockSize x (u + r) p) else p)"
    unfolding q join_prev_def Let_def snoc c using x by (auto simp: u64_simps)
  show ?thesis
  proof (cases "x + u = h")
    case True
    have "wblocks p (zs @ (x, u) # (h, r) # vs) live"
      "seg (m_bytes p) (m_head p) (zs @ (x, u) # (h, r) # vs) 0" using W chain snoc c by simp_all
    note J = join_step [OF this(1) True this(2) lim]
    have "q = list_remove x h (set_blockSize x (u + r) p)" using q' True by simp
    moreover have "merge_prev us h r @ vs = zs @ (x, u + r) # vs"
      using True by (simp add: snoc c merge_prev_simps)
    ultimately show ?thesis using J by (simp add: snoc c)
  next
    case False
    then have "q = p" "merge_prev us h r @ vs = us @ (h, r) # vs"
      using q' by (simp_all add: snoc c merge_prev_simps)
    then show ?thesis using W chain by simp
  qed
qed

lemma coalescence_seg:
  assumes W: "wblocks p (us @ (h, r) # vs) live"
    and chain: "seg (m_bytes p) (m_head p) (us @ (h, r) # vs) 0"
    and lim: "m_start_ptr p + m_totalSize p < 2 ^ 64"
    and mn: "merge_next h r vs = (r1, vs1)"
    and q: "q = coalescence (lastaddr us) h p"
  shows "wblocks q (merge_prev us h r1 @ vs1) live"
    and "seg (m_bytes q) (m_head q) (merge_prev us h r1 @ vs1) 0"
    and "frame ({h ..< h + 16} \<union> (if us = [] then {} else {lastaddr us ..< lastaddr us + 16})) p q"
proof -
  note N = join_next_seg [OF W chain lim mn refl]
  then have f: "frame {h ..< h + 16} p (join_next h p)" by simp
  with lim have "m_start_ptr (join_next h p) + m_totalSize (join_next h p) < 2 ^ 64"
    by (simp add: frame_def)
  note P = join_prev_seg [OF _ _ this, of us h r1 vs1 live q]
  have "q = join_prev (lastaddr us) h (join_next h p)" by (simp add: q coalescence_eq)
  with N P have P': "wblocks q (merge_prev us h r1 @ vs1) live \<and>
    seg (m_bytes q) (m_head q) (merge_prev us h r1 @ vs1) 0 \<and>
    frame (if us = [] then {} else {lastaddr us ..< lastaddr us + 16}) (join_next h p) q" by blast
  then show "wblocks q (merge_prev us h r1 @ vs1) live"
    and "seg (m_bytes q) (m_head q) (merge_prev us h r1 @ vs1) 0" by simp_all
  from P' show "frame ({h ..< h + 16} \<union>
      (if us = [] then {} else {lastaddr us ..< lastaddr us + 16})) p q"
    by (intro frame_trans [OF f]) simp
qed


text \<open>Above the last free block the node is not in the list: it can only be joined to that block.\<close>

lemma coalescence_last:
  assumes chain: "seg (m_bytes p) (m_head p) us 0"
    and node: "get_blockSize (m_bytes p) h = r" "get_next (m_bytes p) h = 0"
    and W: "wblocks p (us @ [(h, r)]) live"
    and lim: "m_start_ptr p + m_totalSize p < 2 ^ 64"
    and q: "q = coalescence (lastaddr us) h p"
  shows "seg (m_bytes q) (m_head q) (if touches us h then merge_prev us h r else us) 0"
    and "frame (if us = [] then {} else {lastaddr us ..< lastaddr us + 16}) p q"
proof -
  have jn: "join_next h p = p" using node by (simp add: join_next_def)
  have "seg (m_bytes q) (m_head q) (if touches us h then merge_prev us h r else us) 0 \<and>
        frame (if us = [] then {} else {lastaddr us ..< lastaddr us + 16}) p q"
  proof (cases us rule: rev_cases)
    case Nil
    then have "q = p" by (simp add: q coalescence_eq jn join_prev_def)
    with Nil chain show ?thesis by (simp add: touches_def)
  next
    case (snoc zs c)
    obtain x u where c: "c = (x, u)" by (cases c)
    have x: "x \<noteq> 0" "get_blockSize (m_bytes p) x = u"
      using chain by (auto simp: seg_append snoc c)
    have ap: "sorted_wrt apart (zs @ [(x, u), (h, r)])" using wblocks_apart [OF W] by (simp add: snoc c)
    have "x + u < 2 ^ 64" "h + r < 2 ^ 64"
      using wblocks_small [OF W lim, of "(h, r)"] wblocks_small [OF W lim, of "(x, u)"]
      by (simp_all add: snoc c)
    then have q': "q = (if x + u = h then list_remove x h (set_blockSize x (u + r) p) else p)"
      unfolding q coalescence_eq jn join_prev_def Let_def snoc c using x node by (auto simp: u64_simps)
    show ?thesis
    proof (cases "x + u = h")
      case True
      let ?m = "st64 (m_bytes p) x (u + r)"
      have "apart (x, u) (h, r)" using ap by (simp add: sorted_wrt_append)
      then have "get_next ?m h = 0" using node by (auto simp: get_next_def apart_def mem_simps)
      then have qb: "m_bytes q = st64 ?m (x + 8) 0" "m_head q = m_head p"
        using q' True x by (simp_all add: list_remove_after set_next_def set_blockSize_def)
      have "seg ?m (m_head p) (zs @ [(x, u + r)]) 0"
        by (rule resize_seg) (use chain True \<open>h + r < 2 ^ 64\<close> ap in
            \<open>auto simp: snoc c sorted_wrt_append\<close>)
      then have "seg (m_bytes q) (m_head q) (zs @ [(x, u + r)]) 0"
        unfolding qb by (rule seg_redirect) (use ap in \<open>auto simp: sorted_wrt_append apart_def\<close>)
      moreover have "frame {x ..< x + 16} p q"
        using qb q' True frame_fields [OF frame_list_remove, of x h "set_blockSize x (u + r) p"]
        by (auto simp: frame_def st64_def set_blockSize_def)
      ultimately show ?thesis using True by (simp add: snoc c touches_def merge_prev_simps)
    next
      case False
      with q' chain show ?thesis by (simp add: snoc c touches_def)
    qed
  qed
  then show "seg (m_bytes q) (m_head q) (if touches us h then merge_prev us h r else us) 0"
    and "frame (if us = [] then {} else {lastaddr us ..< lastaddr us + 16}) p q" by simp_all
qed

lemma merge_next_gap:
  assumes "sorted_wrt wgap ((h, r) # vs)" and "sorted_wrt gap vs" and "merge_next h r vs = (r1, vs1)"
  shows "sorted_wrt gap ((h, r1) # vs1)"
proof (cases vs)
  case Nil
  then show ?thesis using assms(3) by (simp add: merge_next_simps)
next
  case (Cons c ws)
  obtain b t where c: "c = (b, t)" by (cases c)
  have "b + t < fst d" if "d \<in> set ws" for d using assms(2) that by (simp add: Cons c gap_def)
  moreover have "h + r \<le> b" using assms(1) by (simp add: Cons c wgap_def)
  ultimately show ?thesis
    using assms by (fastforce simp: Cons c gap_def merge_next_simps split: if_splits)
qed

lemma merge_prev_gap:
  assumes "sorted_wrt gap us" and "sorted_wrt gap ((h, r) # vs)" and "\<forall>b \<in> set us. wgap b (h, r)"
  shows "sorted_wrt gap (merge_prev us h r @ vs)"
proof (cases us rule: rev_cases)
  case Nil
  then show ?thesis using assms by (simp add: merge_prev_simps)
next
  case (snoc zs c)
  obtain x u where c: "c = (x, u)" by (cases c)
  have z: "fst b + snd b < x" if "b \<in> set zs" for b
    using assms(1) that by (simp add: snoc c sorted_wrt_append gap_def)
  have "x + u \<le> h" using assms(3) by (simp add: snoc c wgap_def)
  moreover have "h + r < fst d" if "d \<in> set vs" for d using assms(2) that by (simp add: gap_def)
  ultimately show ?thesis
    using assms z by (fastforce simp: snoc c gap_def sorted_wrt_append merge_prev_simps)
qed

lemma release_sum:
  assumes "vs \<noteq> [] \<or> touches us h"
  shows "sum_list (map snd (release us h r vs)) =
    sum_list (map snd us) + r + sum_list (map snd vs)"
proof -
  obtain r1 vs1 where m: "merge_next h r vs = (r1, vs1)" by (cases "merge_next h r vs")
  then have 1: "r1 + sum_list (map snd vs1) = r + sum_list (map snd vs)"
    by (cases vs) (auto simp: merge_next_simps split: if_splits)
  have 2: "sum_list (map snd (merge_prev us h r1)) = sum_list (map snd us) + r1"
    by (cases us rule: rev_cases) (auto simp: merge_prev_def touches_def)
  from assms m 1 2 show ?thesis by (auto simp: release_def)
qed


text \<open>Taking one block out of the live ones.\<close>

lemma remove_live:
  assumes inv: "pool_inv p fs live" and b: "b \<in> set live"
  shows "\<And>c. c \<in> set (remove1 b live) \<Longrightarrow> c \<in> set live"
    and "\<And>c. c \<in> set (remove1 b live) \<Longrightarrow> disj_blocks b c"
    and "sorted_wrt disj_blocks (remove1 b live)"
    and "sum_list (map snd live) = snd b + sum_list (map snd (remove1 b live))"
proof -
  obtain ls1 ls2 where l: "live = ls1 @ b # ls2" "b \<notin> set ls1"
    using split_list_first [OF b] by blast
  then have r: "remove1 b live = ls1 @ ls2" by (simp add: remove1_append)
  show "\<And>c. c \<in> set (remove1 b live) \<Longrightarrow> c \<in> set live" by (meson notin_set_remove1)
  show "\<And>c. c \<in> set (remove1 b live) \<Longrightarrow> disj_blocks b c"
    using pool_invD(7) [OF inv] r by (auto simp: l sorted_wrt_append intro: disj_blocks_sym)
  show "sorted_wrt disj_blocks (remove1 b live)"
    using pool_invD(7) [OF inv] r by (auto simp: l sorted_wrt_append)
  show "sum_list (map snd live) = snd b + sum_list (map snd (remove1 b live))"
    using r by (simp add: l)
qed

lemma free_position:
  assumes inv: "pool_inv p (us @ vs) live" and live: "(h, r) \<in> set live"
    and pos: "\<forall>b \<in> set us. fst b \<le> h + 16" "\<forall>b \<in> set vs. h + 16 < fst b"
  shows "wblocks p (us @ (h, r) # vs) (remove1 (h, r) live)"
    and "\<forall>b \<in> set us. wgap b (h, r)" and "sorted_wrt wgap ((h, r) # vs)"
proof -
  note D = pool_invD [OF inv] and R = remove_live [OF inv live]
  have r: "32 \<le> r" using D(9) [OF live] by (simp add: header_ok_def)
  show us: "\<forall>b \<in> set us. wgap b (h, r)"
  proof
    fix b assume b: "b \<in> set us"
    then have "disj_blocks b (h, r)" using D(8) live by simp
    with pos(1) b r show "wgap b (h, r)" by (auto simp: disj_blocks_def wgap_def)
  qed
  have vs: "\<forall>b \<in> set vs. wgap (h, r) b"
  proof
    fix b assume b: "b \<in> set vs"
    then have "disj_blocks b (h, r)" "0 < snd b" using D(4,8) live by (auto simp: block_ok_def)
    with pos(2) b show "wgap (h, r) b" by (auto simp: disj_blocks_def wgap_def)
  qed
  have w: "sorted_wrt wgap (us @ vs)"
    by (rule sorted_wrt_mono_rel [OF _ D(6)]) (simp add: gap_def wgap_def)
  then show "sorted_wrt wgap ((h, r) # vs)" using vs by (simp add: sorted_wrt_append)
  from w us vs have "sorted_wrt wgap (us @ (h, r) # vs)" by (auto simp: sorted_wrt_append)
  moreover have "\<forall>b \<in> set (us @ (h, r) # vs). block_ok p b"
    using D(4) D(5) [OF live] by auto
  moreover have "\<forall>c \<in> set (remove1 (h, r) live). 0 < snd c \<and>
      (\<forall>b \<in> set (us @ (h, r) # vs). disj_blocks b c)"
    using D(5,8) R(1,2) by (auto simp: block_ok_def)
  ultimately show "wblocks p (us @ (h, r) # vs) (remove1 (h, r) live)"
    by (simp add: wblocks_def)
qed

lemma release_gap:
  assumes inv: "pool_inv p (us @ vs) live" and live: "(h, r) \<in> set live"
    and pos: "\<forall>b \<in> set us. fst b \<le> h + 16" "\<forall>b \<in> set vs. h + 16 < fst b"
  shows "sorted_wrt gap (release us h r vs)"
proof -
  note P = free_position [OF assms] and srt = pool_invD(6) [OF inv]
  obtain r1 vs1 where m: "merge_next h r vs = (r1, vs1)" by (cases "merge_next h r vs")
  have "sorted_wrt gap us" "sorted_wrt gap vs" using srt by (simp_all add: sorted_wrt_append)
  then have "sorted_wrt gap (merge_prev us h r1 @ vs1)"
    using merge_prev_gap [OF _ merge_next_gap [OF P(3) _ m]] P(2) by (simp add: wgap_def)
  then show ?thesis using m \<open>sorted_wrt gap us\<close> by (simp add: release_def)
qed

text \<open>The node written into the released block, before it is linked.\<close>

definition free_node :: "mem_pool \<Rightarrow> nat \<Rightarrow> nat \<Rightarrow> mem_pool" where
  "free_node p h r = set_next h 0 (set_blockSize h r p)"

lemma free_node_frame: "frame {h ..< h + 16} p (free_node p h r)"
  unfolding free_node_def
  by (rule frame_mono [OF frame_trans [OF frame_set_blockSize frame_set_next]]) auto

lemma free_node_fields:
  "r < 2 ^ 64 \<Longrightarrow> get_blockSize (m_bytes (free_node p h r)) h = r"
  "get_next (m_bytes (free_node p h r)) h = 0"
  "m_head (free_node p h r) = m_head p"
  by (simp_all add: free_node_def set_next_def set_blockSize_def get_blockSize_def get_next_def
      mem_simps)

lemma free_node_seg:
  assumes inv: "pool_inv p fs live" and live: "(h, r) \<in> set live"
  shows "seg (m_bytes (free_node p h r)) (m_head p) fs 0"
proof -
  note D = pool_invD [OF inv]
  have "seg (m_bytes (free_node p h r)) (m_head p) fs 0 = seg (m_bytes p) (m_head p) fs 0"
  proof (rule seg_cong)
    fix x s y assume x: "(x, s) \<in> set fs" and "x \<le> y" "y < x + 16"
    moreover have "16 \<le> s" "16 \<le> r"
      using block_ok_ge16 [OF D(4) [OF x]] block_ok_ge16 [OF D(5) [OF live]] by simp_all
    ultimately show "m_bytes (free_node p h r) y = m_bytes p y"
      using D(8) [OF x live] by (intro frameD [OF free_node_frame]) (auto simp: disj_blocks_def)
  qed
  with D(3) show ?thesis by simp
qed


lemma wblocks_frame: "frame A p q \<Longrightarrow> wblocks q fs live = wblocks p fs live"
  by (simp add: wblocks_def block_ok_def frame_def)

lemma wblocks_prefix: "wblocks p (us @ ws) live \<Longrightarrow> wblocks p us live"
  by (simp add: wblocks_def sorted_wrt_append)

lemma wblocks_used [simp]: "wblocks (p\<lparr>m_used := x\<rparr>) fs live = wblocks p fs live"
  by (simp add: wblocks_def block_ok_def)

text \<open>Linking the node and joining it with its neighbours.\<close>

definition free_state :: "mem_pool \<Rightarrow> block list \<Rightarrow> nat \<Rightarrow> nat \<Rightarrow> block list \<Rightarrow> mem_pool" where
  "free_state p us h r vs =
     (let p1 = free_node p h r;
          p2 = (if vs \<noteq> [] then list_insert (lastaddr us) h p1 else p1)
      in coalescence (lastaddr us) h (p2\<lparr>m_used := m_used p - r\<rparr>))"

lemma free_insert_seg:
  assumes inv: "pool_inv p (us @ vs) live" and live: "(h, r) \<in> set live"
    and pos: "\<forall>b \<in> set us. fst b \<le> h + 16" "\<forall>b \<in> set vs. h + 16 < fst b"
  shows "seg (m_bytes (list_insert (lastaddr us) h (free_node p h r)))
      (m_head (list_insert (lastaddr us) h (free_node p h r))) (us @ (h, r) # vs) 0"
    and "frame ({h ..< h + 16} \<union> next_field (lastaddr us)) p
      (list_insert (lastaddr us) h (free_node p h r))"
proof -
  note D = pool_invD [OF inv] and W = free_position(1) [OF assms]
  have ap: "sorted_wrt apart (us @ (h, r) # vs)" by (rule wblocks_apart [OF W])
  have h: "h \<noteq> 0" "h + r < 2 ^ 64" using D(1,2) D(5) [OF live] by (auto simp: block_ok_def)
  show "seg (m_bytes (list_insert (lastaddr us) h (free_node p h r)))
      (m_head (list_insert (lastaddr us) h (free_node p h r))) (us @ (h, r) # vs) 0"
  proof (rule list_insert_seg [OF _ _ _ _ _ _ _ refl])
    show "seg (m_bytes (free_node p h r)) (m_head (free_node p h r)) (us @ vs) 0"
      using free_node_seg [OF inv live] by (simp add: free_node_fields)
    show "h \<noteq> 0" "h < 2 ^ 64" "get_blockSize (m_bytes (free_node p h r)) h = r"
      using h by (simp_all add: free_node_fields)
    show "x < 2 ^ 64" if "(x, t) \<in> set (us @ vs)" for x t
      using wblocks_small [OF W D(2), of "(x, t)"] that by auto
    show "apart c (h, r)" if "c \<in> set (us @ vs)" for c
      using ap that by (auto simp: sorted_wrt_append intro: apart_sym)
    show "sorted_wrt apart (us @ vs)" using ap by (simp add: sorted_wrt_append)
  qed
  have "frame (next_field (lastaddr us) \<union> next_field h) (free_node p h r)
      (list_insert (lastaddr us) h (free_node p h r))"
    by (rule frame_list_insert [where s = "snd (last us)" and t = r])
      (use ap h in \<open>cases us rule: rev_cases; auto simp: sorted_wrt_append\<close>)+
  from frame_trans [OF free_node_frame this]
  show "frame ({h ..< h + 16} \<union> next_field (lastaddr us)) p
      (list_insert (lastaddr us) h (free_node p h r))"
    by (rule frame_mono) (auto simp: next_field_def split: if_splits)
qed

lemma free_state_seg:
  assumes inv: "pool_inv p (us @ vs) live" and live: "(h, r) \<in> set live"
    and pos: "\<forall>b \<in> set us. fst b \<le> h + 16" "\<forall>b \<in> set vs. h + 16 < fst b"
    and q: "q = free_state p us h r vs"
  shows "wblocks q (release us h r vs) (remove1 (h, r) live) \<and>
    seg (m_bytes q) (m_head q) (release us h r vs) 0 \<and>
    frame ({h ..< h + 16} \<union> (if us = [] then {} else {lastaddr us ..< lastaddr us + 16}))
      (p\<lparr>m_used := m_used p - r\<rparr>) q"
proof -
  let ?live = "remove1 (h, r) live" and ?u = "\<lambda>p'. p'\<lparr>m_used := m_used p - r\<rparr>"
  let ?A = "{h ..< h + 16} \<union> (if us = [] then {} else {lastaddr us ..< lastaddr us + 16})"
  note D = pool_invD [OF inv] and W = free_position(1) [OF assms(1-4)]
  have used: "seg (m_bytes (?u p')) (m_head (?u p')) = seg (m_bytes p') (m_head p')"
    "frame A p p' \<Longrightarrow> frame A (?u p) (?u p')" for A p'
    by (simp_all add: frame_def)
  show ?thesis
  proof (cases "vs = []")
    case False
    let ?p2 = "list_insert (lastaddr us) h (free_node p h r)"
    have q': "q = coalescence (lastaddr us) h (?u ?p2)" using False by (simp add: q free_state_def)
    note I = free_insert_seg [OF assms(1-4)]
    have f: "frame ?A (?u p) (?u ?p2)"
      by (rule used(2), rule frame_mono [OF I(2)]) (auto simp: next_field_def)
    have W2: "wblocks (?u ?p2) (us @ (h, r) # vs) ?live"
      using W wblocks_frame [OF I(2)] by simp
    have c2: "seg (m_bytes (?u ?p2)) (m_head (?u ?p2)) (us @ (h, r) # vs) 0"
      using I(1) by simp
    have l2: "m_start_ptr (?u ?p2) + m_totalSize (?u ?p2) < 2 ^ 64"
      using D(2) frame_fields [OF I(2)] by simp
    obtain r1 vs1 where m: "merge_next h r vs = (r1, vs1)" by (cases "merge_next h r vs")
    note C = coalescence_seg [OF W2 c2 l2 m q']
    have "frame ?A (?u p) q" using frame_trans [OF f C(3)] by simp
    with C(1,2) False m show ?thesis by (simp add: release_def)
  next
    case True
    let ?p1 = "free_node p h r"
    have q': "q = coalescence (lastaddr us) h (?u ?p1)" using True by (simp add: q free_state_def)
    have h: "h + r < 2 ^ 64" using wblocks_small [OF W D(2), of "(h, r)"] by simp
    have W1: "wblocks (?u ?p1) (us @ [(h, r)]) ?live"
      using W True wblocks_frame [OF free_node_frame, of p h r] by simp
    have c1: "seg (m_bytes (?u ?p1)) (m_head (?u ?p1)) us 0"
      using free_node_seg [OF inv live] True by (simp add: free_node_fields)
    have n1: "get_blockSize (m_bytes (?u ?p1)) h = r" "get_next (m_bytes (?u ?p1)) h = 0"
      using h by (simp_all add: free_node_fields)
    have l1: "m_start_ptr (?u ?p1) + m_totalSize (?u ?p1) < 2 ^ 64"
      using D(2) frame_fields [OF free_node_frame, of p h r] by simp
    note C = coalescence_last [OF c1 n1 W1 l1 q']
    have f: "frame ?A (?u p) q"
      using frame_trans [OF used(2) [OF free_node_frame] C(2)] by simp
    have "wblocks q (release us h r vs) ?live"
    proof (cases "touches us h")
      case False
      with wblocks_prefix [OF W] True show ?thesis
        by (simp add: release_def wblocks_frame [OF f])
    next
      case T: True
      then obtain zs x u where us: "us = zs @ [(x, u)]" "x + u = h"
        by (cases us rule: rev_cases) (auto simp: touches_def)
      have "wblocks p (zs @ (x, u) # (h, r) # []) ?live" using W True us by simp
      from wblocks_join [OF this us(2)] show ?thesis
        using T us True
        by (simp add: release_def wblocks_frame [OF f] merge_next_simps merge_prev_simps)
    qed
    with C(1) f True show ?thesis by (simp add: release_def merge_next_simps split: if_splits)
  qed
qed


lemma free_state_live:
  assumes inv: "pool_inv p (us @ vs) live" and live: "(h, r) \<in> set live"
    and pos: "\<forall>b \<in> set us. fst b \<le> h + 16" "\<forall>b \<in> set vs. h + 16 < fst b"
    and c: "c \<in> set (remove1 (h, r) live)" "y \<in> cells c"
  shows "m_bytes (free_state p us h r vs) y = m_bytes p y"
proof -
  note D = pool_invD [OF inv] and R = remove_live [OF inv live]
  have f: "frame ({h ..< h + 16} \<union> (if us = [] then {} else {lastaddr us ..< lastaddr us + 16}))
      (p\<lparr>m_used := m_used p - r\<rparr>) (free_state p us h r vs)"
    using free_state_seg [OF assms(1-4) refl] by blast
  have 1: "y \<notin> {h ..< h + 16}"
    using R(2) [OF c(1)] c(2) block_ok_ge16 [OF D(5) [OF live]]
    by (auto simp: disj_blocks_def cells_def)
  have 2: "y \<notin> {lastaddr us ..< lastaddr us + 16}" if "us \<noteq> []"
  proof -
    have l: "last us \<in> set (us @ vs)" using that by simp
    show ?thesis using D(8) [OF l R(1) [OF c(1)]] block_ok_ge16 [OF D(4) [OF l]] c(2) that
      by (auto simp: disj_blocks_def cells_def lastaddr_def)
  qed
  from frameD [OF f] 1 2 show ?thesis by (simp split: if_splits)
qed

lemma free_state_inv:
  assumes inv: "pool_inv p (us @ vs) live" and live: "(h, r) \<in> set live"
    and pos: "\<forall>b \<in> set us. fst b \<le> h + 16" "\<forall>b \<in> set vs. h + 16 < fst b"
  shows "pool_inv (free_state p us h r vs) (release us h r vs) (remove1 (h, r) live)"
proof -
  let ?q = "free_state p us h r vs" and ?live = "remove1 (h, r) live"
  note D = pool_invD [OF inv] and R = remove_live [OF inv live]
  from free_state_seg [OF assms refl] have W: "wblocks ?q (release us h r vs) ?live"
    and s: "seg (m_bytes ?q) (m_head ?q) (release us h r vs) 0" and
    f: "frame ({h ..< h + 16} \<union> (if us = [] then {} else {lastaddr us ..< lastaddr us + 16}))
      (p\<lparr>m_used := m_used p - r\<rparr>) ?q"
    by blast+
  note F = frame_fields [OF f]
  have hd: "header_ok (m_bytes ?q) c" if "c \<in> set ?live" for c
  proof -
    have "16 \<le> snd c" using block_ok_ge16 [OF D(5) [OF R(1) [OF that]]] .
    then have "header_ok (m_bytes ?q) c = header_ok (m_bytes p) c"
      by (intro header_ok_cong free_state_live [OF assms that]) (auto simp: cells_def)
    then show ?thesis using D(9) R(1) [OF that] by blast
  qed
  have "m_used ?q = sum_list (map snd ?live)" using R(4) D(10) F by simp
  moreover have "\<forall>b \<in> set (release us h r vs). block_ok ?q b"
      "\<forall>b \<in> set (release us h r vs). \<forall>c \<in> set ?live. disj_blocks b c"
    using W unfolding wblocks_def by blast+
  moreover have "\<forall>b \<in> set ?live. block_ok ?q b"
    using D(5) R(1) F by (simp add: block_ok_def)
  ultimately show ?thesis
    using D(1,2) F s release_gap [OF assms] R(3) hd unfolding pool_inv_def by auto
qed

lemma pool_free_eq:
  assumes inv: "pool_inv p fs live" and live: "(h, r) \<in> set live"
  obtains us vs where "fs = us @ vs" "\<forall>b \<in> set us. fst b \<le> h + 16"
    "\<forall>b \<in> set vs. h + 16 < fst b" "pool_free p (h + 16) = Some (free_state p us h r vs)"
proof -
  note D = pool_invD [OF inv]
  have h: "h + r < 2 ^ 64" "32 \<le> r" "get_blockSize (m_bytes p) h = r" "get_padding (m_bytes p) h = 0"
    using D(2) D(5) [OF live] D(9) [OF live]
    by (auto simp: block_ok_def header_ok_def get_padding_def)
  from free_loop_spec [OF free_node_seg [OF inv live] D(6), of "h + 16" 0] obtain us vs where
    fs: "fs = us @ vs" "\<forall>b \<in> set us. fst b \<le> h + 16" "\<forall>b \<in> set vs. h + 16 < fst b" and
    l: "free_loop (m_bytes (free_node p h r)) (h + 16) 0 (m_head p) =
      Some (lastaddr us, if vs = [] then 0 else fst (hd vs))"
    by (auto simp: lastaddr_def)
  let ?p2 = "if vs \<noteq> [] then list_insert (lastaddr us) h (free_node p h r) else free_node p h r"
  have "m_used ?p2 = m_used p"
    using frame_fields [OF free_insert_seg(2) [OF inv [unfolded fs] live fs(2,3)]]
      frame_fields [OF free_node_frame, of p h r] by simp
  moreover have "get_blockSize (m_bytes ?p2) h = r"
    using free_insert_seg(1) [OF inv [unfolded fs] live fs(2,3)] h
    by (auto simp: seg_append free_node_fields)
  moreover have "r \<le> m_used p" using remove_live(4) [OF inv live] D(10) by simp
  moreover have "vs \<noteq> [] \<Longrightarrow> fst (hd vs) \<noteq> 0" using fs(3) by (cases vs) auto
  moreover have "sub64 (h + 16) 16 = h" "add64 r 0 = r" using h by (simp_all add: u64_simps)
  moreover have "m_used p < 2 ^ 64"
    using pool_total_bound [OF inv] D(2,10) by simp
  ultimately have "pool_free p (h + 16) = Some (free_state p us h r vs)"
    using l h unfolding pool_free_def
    by (auto simp: Let_def free_state_def u64_simps free_node_fields simp flip: free_node_def)
  with fs that show thesis by blast
qed

end
