(* ===== verification/Block_Store.thy ===== *)
theory Block_Store
  imports Prelude
begin

text \<open>
  The contract of a memory allocator, as the code that calls one relies on it: blocks handed out do
  not overlap, no operation changes the bytes of a block that stays live, and writing inside a live
  block is allowed.  \<open>good p live\<close> says that \<open>p\<close> is a valid state in which \<open>live\<close> lists the
  addresses handed out together with the number of bytes usable behind each.  The reallocation and
  the zero-filling allocation are proved here from the contract alone.
\<close>

definition usable :: "nat \<times> nat \<Rightarrow> nat set" where
  "usable b = {fst b ..< fst b + snd b}"

locale block_store =
  fixes good :: "'p \<Rightarrow> (nat \<times> nat) list \<Rightarrow> bool"
    and bytes :: "'p \<Rightarrow> memory"
    and set_bytes :: "memory \<Rightarrow> 'p \<Rightarrow> 'p"
    and alloc :: "'p \<Rightarrow> nat \<Rightarrow> ('e + nat \<times> 'p) option"
    and release_block :: "'p \<Rightarrow> nat \<Rightarrow> 'p option"
    and limit :: "nat \<Rightarrow> bool"
  assumes alloc_fresh: "\<lbrakk>good p live; limit n; alloc p n = Some (Inr (a, q))\<rbrakk> \<Longrightarrow>
      \<exists>m \<ge> n. good q ((a, m) # live) \<and> (\<forall>c \<in> set live. \<forall>y \<in> usable c. bytes q y = bytes p y)"
    and release_ok: "\<lbrakk>good p live; (a, m) \<in> set live\<rbrakk> \<Longrightarrow>
      \<exists>q. release_block p a = Some q \<and> good q (remove1 (a, m) live) \<and>
        (\<forall>c \<in> set (remove1 (a, m) live). \<forall>y \<in> usable c. bytes q y = bytes p y)"
    and write_ok: "\<lbrakk>good p live; b \<in> set live; \<And>y. y \<notin> usable b \<Longrightarrow> m' y = bytes p y\<rbrakk> \<Longrightarrow>
      good (set_bytes m' p) live"
    and bytes_set [simp]: "bytes (set_bytes m' p) = m'"
    and live_disjoint: "\<lbrakk>good p live; live = xs @ b # ys; c \<in> set (xs @ ys)\<rbrakk> \<Longrightarrow>
      usable b \<inter> usable c = {}"
    and live_pos: "\<lbrakk>good p live; b \<in> set live\<rbrakk> \<Longrightarrow> 0 < snd b"
begin

text \<open>Filling a fresh block with zeros.\<close>

definition alloc_zero :: "'p \<Rightarrow> nat \<Rightarrow> ('e + nat \<times> 'p) option" where
  "alloc_zero p n =
     map_option (map_sum id (\<lambda>(buf, q). (buf, set_bytes (memset0 (bytes q) buf n) q))) (alloc p n)"

lemma alloc_zero_ok:
  assumes g: "good p live" and n: "limit n" and r: "alloc_zero p n = Some (Inr (a, q))"
  shows "\<exists>m \<ge> n. good q ((a, m) # live) \<and> (\<forall>y \<in> {a ..< a + n}. bytes q y = 0) \<and>
    (\<forall>c \<in> set live. \<forall>y \<in> usable c. bytes q y = bytes p y)"
proof -
  from r obtain q0 where a: "alloc p n = Some (Inr (a, q0))"
    and q: "q = set_bytes (memset0 (bytes q0) a n) q0"
    unfolding alloc_zero_def by (cases "alloc p n"; cases "the (alloc p n)") auto
  from alloc_fresh [OF g n a] obtain m where m: "n \<le> m" "good q0 ((a, m) # live)"
    "\<forall>c \<in> set live. \<forall>y \<in> usable c. bytes q0 y = bytes p y" by blast
  have "good q ((a, m) # live)" unfolding q
    by (rule write_ok [OF m(2), of "(a, m)"]) (use m(1) in \<open>auto simp: usable_def memset0_outside\<close>)
  moreover have "bytes q y = bytes p y" if c: "c \<in> set live" "y \<in> usable c" for c y
  proof -
    have "usable (a, m) \<inter> usable c = {}"
      by (rule live_disjoint [OF m(2), of "[]"]) (use c in auto)
    with c m show ?thesis by (auto simp: q usable_def memset0_def)
  qed
  moreover have "\<forall>y \<in> {a ..< a + n}. bytes q y = 0" by (auto simp: q memset0_def)
  ultimately show ?thesis using m(1) by blast
qed

text \<open>Moving a block: a new one, a copy of the first \<open>k\<close> bytes, and the release of the old one.\<close>

definition move_block :: "'p \<Rightarrow> nat \<Rightarrow> nat \<Rightarrow> nat \<Rightarrow> ('e + nat \<times> 'p) option" where
  "move_block p buf k n =
     (case alloc p n of
        None \<Rightarrow> None
      | Some (Inl e) \<Rightarrow> Some (Inl e)
      | Some (Inr (new_buf, p1)) \<Rightarrow>
          (case release_block (set_bytes (memcpy (bytes p1) new_buf buf k) p1) buf of
             None \<Rightarrow> None
           | Some p2 \<Rightarrow> Some (Inr (new_buf, p2))))"

lemma move_block_ok:
  assumes g: "good p live" and n: "limit n" and b: "(buf, s) \<in> set live"
    and k: "k \<le> s" "k \<le> n" and a: "alloc p n = Some (Inr (a, p1))"
  shows "\<exists>m q. n \<le> m \<and> move_block p buf k n = Some (Inr (a, q)) \<and>
    good q ((a, m) # remove1 (buf, s) live) \<and>
    (\<forall>i < k. bytes q (a + i) = bytes p (buf + i)) \<and>
    (\<forall>c \<in> set (remove1 (buf, s) live). \<forall>y \<in> usable c. bytes q y = bytes p y)"
proof -
  from alloc_fresh [OF g n a] obtain m where m: "n \<le> m" "good p1 ((a, m) # live)"
    and keep: "\<And>c y. c \<in> set live \<Longrightarrow> y \<in> usable c \<Longrightarrow> bytes p1 y = bytes p y" by blast
  let ?p2 = "set_bytes (memcpy (bytes p1) a buf k) p1"
  have g2: "good ?p2 ((a, m) # live)"
    by (rule write_ok [OF m(2), of "(a, m)"])
      (use m(1) k in \<open>auto simp: usable_def memcpy_outside\<close>)
  have dis: "usable (a, m) \<inter> usable c = {}" if "c \<in> set live" for c
    by (rule live_disjoint [OF m(2), of "[]"]) (use that in auto)
  have ne: "(a, m) \<noteq> (buf, s)"
    using dis [OF b] live_pos [OF m(2), of "(a, m)"] by (auto simp: usable_def)
  then have r1: "remove1 (buf, s) ((a, m) # live) = (a, m) # remove1 (buf, s) live" by auto
  have b': "(buf, s) \<in> set ((a, m) # live)" using b by simp
  from release_ok [OF g2 b'] obtain q where
    q: "release_block ?p2 buf = Some q" "good q ((a, m) # remove1 (buf, s) live)" and
    keep2: "\<And>c y. c \<in> set ((a, m) # remove1 (buf, s) live) \<Longrightarrow> y \<in> usable c \<Longrightarrow>
      bytes q y = memcpy (bytes p1) a buf k y"
    unfolding r1 bytes_set by blast
  have "bytes q (a + i) = bytes p (buf + i)" if "i < k" for i
    using keep2 [of "(a, m)" "a + i"] keep [OF b, of "buf + i"] that k m(1)
    by (simp add: usable_def memcpy_inside)
  moreover have "bytes q y = bytes p y" if c: "c \<in> set (remove1 (buf, s) live)" "y \<in> usable c" for c y
  proof -
    have l: "c \<in> set live" using c(1) by (meson notin_set_remove1)
    then have "y \<notin> {a ..< a + k}" using dis [OF l] c(2) k m(1) by (auto simp: usable_def)
    then show ?thesis using keep2 [of c y] keep [OF l c(2)] c by (auto simp: memcpy_def)
  qed
  moreover have "move_block p buf k n = Some (Inr (a, q))" using q(1) by (simp add: move_block_def a)
  ultimately show ?thesis using m(1) q(2) by blast
qed

end

end
