(* ===== verification/Pinned_Pool_Store.thy ===== *)
theory Pinned_Pool_Store
  imports Pinned_Pool_Correct Block_Store
begin

text \<open>
  The pool of \<^verbatim>\<open>CudaHostPinnedMemPool\<close> meets the contract \<open>block_store\<close> of an allocator, and the
  properties of its operations: allocation, release, the round trip of the two, reallocation,
  initialisation, and the exact condition under which a release gives the block back to the list.
  \<open>pool_inv p fs live\<close> (theory Pinned_Pool_Correct) says that the list in memory is \<open>fs\<close>, sorted and
  fully merged, that \<open>live\<close> are the blocks handed out (header included), that all of them are
  16-byte aligned, inside the region and pairwise disjoint, and that \<open>m_used\<close> is their total size.
\<close>

section \<open>The pool as an allocator\<close>

definition user_block :: "block \<Rightarrow> nat \<times> nat" where
  "user_block b = (fst b + 16, snd b - 16)"

definition pool_good :: "mem_pool \<Rightarrow> (nat \<times> nat) list \<Rightarrow> bool" where
  "pool_good p live \<longleftrightarrow> (\<exists>fs bs. pool_inv p fs bs \<and> live = map user_block bs)"

lemma user_block_cells: "32 \<le> snd b \<Longrightarrow> usable (user_block b) \<subseteq> cells b"
  by (auto simp: usable_def user_block_def cells_def)

lemma user_block_remove:
  assumes "pool_inv p fs bs" and "b \<in> set bs"
  shows "remove1 (user_block b) (map user_block bs) = map user_block (remove1 b bs)"
proof -
  have ge: "32 \<le> snd c" if "c \<in> set bs" for c
    using pool_invD(9) [OF assms(1) that] by (simp add: header_ok_def)
  have "inj_on user_block (set bs)"
    by (rule inj_onI) (use ge in \<open>force simp: user_block_def prod_eq_iff\<close>)
  then show ?thesis using assms(2)
  proof (induction bs)
    case (Cons c bs)
    then show ?case by (cases "b = c") (auto simp: inj_on_def)
  qed simp
qed

lemma pool_inv_write:
  assumes inv: "pool_inv p fs live" and b: "b \<in> set live"
    and m': "\<And>y. y \<notin> usable (user_block b) \<Longrightarrow> m' y = m_bytes p y"
  shows "pool_inv (p\<lparr>m_bytes := m'\<rparr>) fs live"
proof -
  note D = pool_invD [OF inv]
  have b32: "32 \<le> snd b" using D(9) [OF b] by (simp add: header_ok_def)
  have "seg m' (m_head p) fs 0 = seg (m_bytes p) (m_head p) fs 0"
  proof (rule seg_cong)
    fix x s y assume x: "(x, s) \<in> set fs" "x \<le> y" "y < x + 16"
    have "16 \<le> s" using block_ok_ge16 [OF D(4) [OF x(1)]] by simp
    with D(8) [OF x(1) b] x b32 show "m' y = m_bytes p y"
      by (intro m') (auto simp: disj_blocks_def usable_def user_block_def)
  qed
  moreover have "header_ok m' c = header_ok (m_bytes p) c" if c: "c \<in> set live" for c
  proof (rule header_ok_cong)
    fix y assume y: "fst c \<le> y" "y < fst c + 16"
    have "16 \<le> snd c" using block_ok_ge16 [OF D(5) [OF c]] .
    moreover have "b = c \<or> disj_blocks b c"
      using remove_live(2) [OF inv b, of c] c by (metis in_set_remove1)
    ultimately show "m' y = m_bytes p y"
      using y b32 by (intro m') (auto simp: disj_blocks_def usable_def user_block_def)
  qed
  ultimately show ?thesis using inv by (simp add: pool_inv_def block_ok_def)
qed

lemma pool_alloc_inv:
  assumes inv: "pool_inv p fs live" and sz: "sz + 48 < 2 ^ 64" and al: "al \<le> 16"
    and r: "pool_alloc p sz al = Some (Inr (ptr, q))"
  shows "\<exists>a fs'. ptr = a + 16 \<and> pool_inv q fs' ((a, round_size sz + 16) # live) \<and>
    (\<forall>c \<in> set live. \<forall>y \<in> cells c. m_bytes q y = m_bytes p y)"
proof (cases rule: pool_alloc_cases [OF inv sz al])
  case 1
  with r show ?thesis by simp
next
  case fit: (2 us a s vs)
  note B = round_size_bounds [OF sz]
  let ?r = "round_size sz + 16"
  have r': "16 dvd ?r" "32 \<le> ?r" "16 \<le> ?r" using B by auto
  have q: "ptr = a + 16" "q = alloc_state p (lastaddr us) a s ?r" using r fit(4) by auto
  have inv': "pool_inv p (us @ (a, s) # vs) live" using inv fit(1) by simp
  show ?thesis
    using alloc_state_inv [OF inv' r'(1,2) fit(3) q(2)]
      live_bytes_unchanged [OF inv' r'(1,3) fit(3)] q by blast
qed

interpretation pool: block_store pool_good m_bytes "\<lambda>m p. p\<lparr>m_bytes := m\<rparr>"
  "\<lambda>p n. pool_alloc p n 0" pool_free "\<lambda>n. n + 48 < 2 ^ 64"
proof
  fix p live n a q
  assume g: "pool_good p live" and n: "n + 48 < 2 ^ 64" and r: "pool_alloc p n 0 = Some (Inr (a, q))"
  from g obtain fs bs where inv: "pool_inv p fs bs" and l: "live = map user_block bs"
    by (auto simp: pool_good_def)
  from pool_alloc_inv [OF inv n _ r] obtain h fs' where a: "a = h + 16"
    and inv': "pool_inv q fs' ((h, round_size n + 16) # bs)"
    and keep: "\<forall>c \<in> set bs. \<forall>y \<in> cells c. m_bytes q y = m_bytes p y" by auto
  have "pool_good q ((a, round_size n) # live)"
    using inv' by (auto simp: pool_good_def a l user_block_def intro!: exI)
  moreover have "\<forall>c \<in> set live. \<forall>y \<in> usable c. m_bytes q y = m_bytes p y"
    using keep user_block_cells pool_invD(9) [OF inv] by (fastforce simp: l header_ok_def)
  ultimately show "\<exists>m \<ge> n. pool_good q ((a, m) # live) \<and>
      (\<forall>c \<in> set live. \<forall>y \<in> usable c. m_bytes q y = m_bytes p y)"
    using round_size_bounds(2) [OF n] by (intro exI [of _ "round_size n"]) simp
next
  fix p live a m
  assume g: "pool_good p live" and b: "(a, m) \<in> set live"
  from g obtain fs bs where inv: "pool_inv p fs bs" and l: "live = map user_block bs"
    by (auto simp: pool_good_def)
  from b obtain h r where hr: "(h, r) \<in> set bs" "(a, m) = user_block (h, r)" by (auto simp: l)
  from pool_free_eq [OF inv hr(1)] obtain us vs where
    fs: "fs = us @ vs" "\<forall>b \<in> set us. fst b \<le> h + 16" "\<forall>b \<in> set vs. h + 16 < fst b" and
    q: "pool_free p (h + 16) = Some (free_state p us h r vs)" by blast
  have inv': "pool_inv p (us @ vs) bs" using inv fs by simp
  have rem: "remove1 (a, m) live = map user_block (remove1 (h, r) bs)"
    using user_block_remove [OF inv hr(1)] by (simp add: l hr(2))
  have "m_bytes (free_state p us h r vs) y = m_bytes p y"
    if "c \<in> set (remove1 (h, r) bs)" "y \<in> usable (user_block c)" for c y
    using free_state_live [OF inv' hr(1) fs(2,3) that(1)] user_block_cells [of c] that(2)
      pool_invD(9) [OF inv remove_live(1) [OF inv hr(1) that(1)]]
    unfolding header_ok_def by blast
  moreover have "a = h + 16" using hr(2) by (simp add: user_block_def)
  ultimately show "\<exists>q. pool_free p a = Some q \<and> pool_good q (remove1 (a, m) live) \<and>
      (\<forall>c \<in> set (remove1 (a, m) live). \<forall>y \<in> usable c. m_bytes q y = m_bytes p y)"
    using free_state_inv [OF inv' hr(1) fs(2,3)] q unfolding rem pool_good_def by auto
next
  fix p live b and m' :: memory
  assume g: "pool_good p live" and b: "b \<in> set live"
    and m': "\<And>y. y \<notin> usable b \<Longrightarrow> m' y = m_bytes p y"
  from g obtain fs bs where inv: "pool_inv p fs bs" and l: "live = map user_block bs"
    by (auto simp: pool_good_def)
  from b l obtain c where c: "c \<in> set bs" "b = user_block c" by auto
  show "pool_good (p\<lparr>m_bytes := m'\<rparr>) live"
    using pool_inv_write [OF inv c(1), of m'] m' by (auto simp: c(2) pool_good_def l)
next
  fix p live b xs ys c
  assume g: "pool_good p live" and s: "live = xs @ b # ys" and c: "c \<in> set (xs @ ys)"
  then obtain fs bs where inv: "pool_inv p fs bs" and l: "map user_block bs = xs @ b # ys"
    by (auto simp: pool_good_def)
  from l obtain xs' b' ys' where bs: "bs = xs' @ b' # ys'" "map user_block xs' = xs"
    "user_block b' = b" "map user_block ys' = ys" by (auto simp: map_eq_append_conv map_eq_Cons_conv)
  then have "c \<in> user_block ` set (xs' @ ys')" using c by (simp add: image_Un flip: bs(2,4))
  then obtain c' where c': "c' \<in> set (xs' @ ys')" "c = user_block c'" by blast
  have "disj_blocks b' c'"
    using pool_invD(7) [OF inv] c'(1) by (auto simp: bs(1) sorted_wrt_append intro: disj_blocks_sym)
  then show "usable b \<inter> usable c = {}"
    unfolding bs(3) [symmetric] c'(2) by (auto simp: usable_def user_block_def disj_blocks_def)
next
  fix p live b
  assume g: "pool_good p live" and b: "b \<in> set live"
  from g obtain fs bs where inv: "pool_inv p fs bs" and l: "live = map user_block bs"
    by (auto simp: pool_good_def)
  from b l obtain c where c: "c \<in> set bs" "b = user_block c" by auto
  show "0 < snd b" using pool_invD(9) [OF inv c(1)] by (simp add: c(2) header_ok_def user_block_def)
qed simp

section \<open>Reset and initialisation\<close>

lemma pool_reset_inv:
  assumes "m_start_ptr p \<noteq> 0" "16 dvd m_start_ptr p" "16 dvd m_totalSize p" "0 < m_totalSize p"
    and lim: "m_start_ptr p + m_totalSize p < 2 ^ 64"
  shows "pool_inv (pool_reset p) [(m_start_ptr p, m_totalSize p)] []"
proof -
  let ?a = "m_start_ptr p" and ?n = "m_totalSize p"
  let ?p0 = "(set_next ?a 0 (set_blockSize ?a ?n (p\<lparr>m_used := 0, m_peak := 0\<rparr>)))\<lparr>m_head := 0\<rparr>"
  have n: "16 \<le> ?n" using assms by (auto dest: dvd_imp_le)
  have r: "pool_reset p = list_insert 0 ?a ?p0" by (simp add: pool_reset_def Let_def)
  have "get_blockSize (m_bytes (pool_reset p)) ?a = ?n" "get_next (m_bytes (pool_reset p)) ?a = 0"
      "m_head (pool_reset p) = ?a"
    using lim by (simp_all add: r list_insert_front set_next_def set_blockSize_def
        get_blockSize_def get_next_def mem_simps)
  then have "seg (m_bytes (pool_reset p)) (m_head (pool_reset p)) [(?a, ?n)] 0"
    using assms(1) by simp
  moreover have "frame {?a ..< ?a + 16} (p\<lparr>m_used := 0, m_peak := 0, m_head := 0\<rparr>) (pool_reset p)"
    by (auto simp: r list_insert_front frame_def set_next_def set_blockSize_def st64_def assms)
  note frame_fields [OF this]
  ultimately show ?thesis using assms n by (simp add: pool_inv_def block_ok_def)
qed

lemma pool_init_fresh:
  assumes "m_start_ptr p = 0" and "cudaMallocHost n = Some a"
    and "a \<noteq> 0" "16 dvd a" "16 dvd n" "0 < n" "a + n < 2 ^ 64"
  shows "\<exists>q. pool_init cudaMallocHost p n = Some (Inr q) \<and> pool_inv q [(a, n)] []"
  using assms pool_reset_inv [of "p\<lparr>m_totalSize := n, m_used := 0, m_start_ptr := a\<rparr>"]
  by (simp add: pool_init_def Let_def)

section \<open>Round trip\<close>

lemma pos_split:
  assumes "us @ vs = xs @ ys"
    and "\<forall>b \<in> set us. f b \<le> k" "\<forall>b \<in> set vs. k < f b"
    and "\<forall>b \<in> set xs. f b \<le> k" "\<forall>b \<in> set ys. k < (f b :: nat)"
  shows "us = xs" "vs = ys"
proof -
  have "filter (\<lambda>b. f b \<le> k) (us @ vs) = us" using assms(2,3) by (auto simp: filter_id_conv filter_empty_conv)
  moreover have "filter (\<lambda>b. f b \<le> k) (us @ vs) = xs"
    unfolding assms(1) using assms(4,5) by (auto simp: filter_id_conv filter_empty_conv)
  ultimately show "us = xs" by simp
  with assms(1) show "vs = ys" by simp
qed

lemma alloc_free_restores:
  assumes inv: "pool_inv p (us @ (a, s) # vs) live"
    and r: "16 dvd r" "32 \<le> r" "r \<le> s" and nz: "r < s \<or> vs \<noteq> []"
    and q: "q = alloc_state p (lastaddr us) a s r"
  shows "\<exists>q'. pool_free q (a + 16) = Some q' \<and> pool_inv q' (us @ (a, s) # vs) live"
proof -
  note I = alloc_state_inv [OF inv r q] and D = pool_invD [OF inv]
  from pool_free_eq [OF I, of a r] obtain us' vs' where
    e: "us @ carve a s r @ vs = us' @ vs'" "\<forall>b \<in> set us'. fst b \<le> a + 16"
       "\<forall>b \<in> set vs'. a + 16 < fst b" and
    f: "pool_free q (a + 16) = Some (free_state q us' a r vs')" by auto
  have low: "\<forall>b \<in> set us. fst b \<le> a + 16" and up: "\<forall>b \<in> set vs. a + s < fst b"
    using D(6) by (fastforce simp: sorted_wrt_append gap_def)+
  then have "\<forall>b \<in> set (carve a s r @ vs). a + 16 < fst b"
    using r by (fastforce simp: carve_def split: if_splits)
  note S = pos_split [OF e(1) [symmetric] e(2,3) low this]
  have t: "\<not> touches us a" using D(6)
    by (cases us rule: rev_cases) (auto simp: touches_def sorted_wrt_append gap_def)
  have "release us a r (carve a s r @ vs) = us @ (a, s) # vs"
  proof (cases "r < s")
    case True
    then show ?thesis using t by (simp add: release_def carve_def merge_next_simps merge_prev_def)
  next
    case False
    then obtain b t' ws where "r = s" "vs = (b, t') # ws" using r nz by (cases vs) auto
    then show ?thesis using t up
      by (simp add: release_def carve_def merge_next_simps merge_prev_def)
  qed
  then show ?thesis using free_state_inv [OF I [unfolded e(1)], of a r] e(2,3) f S by simp
qed

end
