(* ===== verification/Pinned_Pool_Props.thy ===== *)
theory Pinned_Pool_Props
  imports Pinned_Pool_Store
begin

text \<open>
  The properties of \<^verbatim>\<open>CudaHostPinnedMemPool\<close> and of the server's \<^verbatim>\<open>Allocator\<close> on top of it, with
  concrete pools on which they apply, and what goes wrong with alignments above 16.
\<close>

section \<open>Properties\<close>

text \<open>
  (C1) \<^verbatim>\<open>alloc\<close> with an alignment of at most 16: it succeeds exactly when some free block
  has room for the rounded size and the header.  The block it hands out was free, is 16-byte
  aligned and at least as large as requested, no byte of a live block changes, the bytes taken are
  exactly those missing from the free list, and the peak is kept up to date.  Otherwise it throws.
\<close>

theorem pool_alloc_correct:
  assumes "pool_inv p fs live" and "sz + 48 < 2 ^ 64" and "al \<le> 16"
  shows "if \<exists>b \<in> set fs. round_size sz + 16 \<le> snd b
    then \<exists>a s q fs'. pool_alloc p sz al = Some (Inr (a + 16, q)) \<and>
      pool_inv q fs' ((a, round_size sz + 16) # live) \<and> (a, s) \<in> set fs \<and>
      sz \<le> round_size sz \<and> 16 dvd a + 16 \<and>
      sum_list (map snd fs') + (round_size sz + 16) = sum_list (map snd fs) \<and>
      m_peak q = max (m_peak p) (m_used q) \<and>
      (\<forall>c \<in> set live. \<forall>y \<in> cells c. m_bytes q y = m_bytes p y)
    else pool_alloc p sz al = Some (Inl NotEnoughMemory)"
proof (cases rule: pool_alloc_cases [OF assms])
  case 1
  then show ?thesis by auto
next
  case fit: (2 us a s vs)
  let ?r = "round_size sz + 16" and ?q = "alloc_state p (lastaddr us) a s (round_size sz + 16)"
  note B = round_size_bounds [OF assms(2)]
  have r: "16 dvd ?r" "32 \<le> ?r" "16 \<le> ?r" using B by auto
  have inv: "pool_inv p (us @ (a, s) # vs) live" using assms(1) fit(1) by simp
  have "16 dvd a" using pool_invD(4) [OF inv, of "(a, s)"] by (simp add: block_ok_def)
  moreover have "m_peak ?q = max (m_peak p) (m_used ?q)" by (simp add: alloc_state_def)
  moreover have "sum_list (map snd (us @ carve a s ?r @ vs)) + ?r = sum_list (map snd fs)"
    using fit(1,3) by (simp add: carve_def)
  ultimately show ?thesis
    using alloc_state_inv [OF inv r(1,2) fit(3) refl] fit B(2)
      live_bytes_unchanged [OF inv r(1,3) fit(3)] by (auto intro!: exI)
qed

text \<open>
  (C2) \<^verbatim>\<open>free\<close> of a block that \<^verbatim>\<open>alloc\<close> handed out: the search always ends, the result is again
  a valid pool (its list sorted and without two blocks that touch) in which exactly that block is
  no longer live, and no byte of any other live block changes.
\<close>

theorem pool_free_correct:
  assumes "pool_inv p fs live" and "(h, r) \<in> set live"
  shows "\<exists>q fs'. pool_free p (h + 16) = Some q \<and> pool_inv q fs' (remove1 (h, r) live) \<and>
    (\<forall>c \<in> set (remove1 (h, r) live). \<forall>y \<in> cells c. m_bytes q y = m_bytes p y)"
proof -
  from pool_free_eq [OF assms] obtain us vs where
    e: "fs = us @ vs" "\<forall>b \<in> set us. fst b \<le> h + 16" "\<forall>b \<in> set vs. h + 16 < fst b"
       "pool_free p (h + 16) = Some (free_state p us h r vs)" .
  have inv: "pool_inv p (us @ vs) live" using assms(1) e(1) by simp
  show ?thesis
    using free_state_inv [OF inv assms(2) e(2,3)] free_state_live [OF inv assms(2) e(2,3)] e(4)
    by blast
qed

text \<open>
  (C3) What \<^verbatim>\<open>free\<close> gives back.  When a free block lies above the released one, or one ends exactly
  where it starts, its bytes are added to the free list.  In every other case, that is when it is
  above the last free block without touching it, the list stays as it was although
  \<^verbatim>\<open>m_used\<close> goes down: the block is never handed out again.
\<close>

theorem pool_free_gives_back:
  assumes "pool_inv p fs live" and "(h, r) \<in> set live"
  shows "\<exists>q fs'. pool_free p (h + 16) = Some q \<and> pool_inv q fs' (remove1 (h, r) live) \<and>
    m_used q = m_used p - r \<and>
    (if (\<exists>b \<in> set fs. h < fst b) \<or> (\<exists>b \<in> set fs. fst b + snd b = h)
     then sum_list (map snd fs') = sum_list (map snd fs) + r
     else fs' = fs)"
proof -
  from pool_free_eq [OF assms] obtain us vs where
    e: "fs = us @ vs" "\<forall>b \<in> set us. fst b \<le> h + 16" "\<forall>b \<in> set vs. h + 16 < fst b"
       "pool_free p (h + 16) = Some (free_state p us h r vs)" .
  have inv: "pool_inv p (us @ vs) live" using assms(1) e(1) by simp
  note D = pool_invD [OF inv]
  have ge: "\<forall>b \<in> set (us @ vs). 0 < snd b" using D(4) by (auto simp: block_ok_def)
  have us: "\<forall>b \<in> set us. fst b + snd b \<le> h"
    using free_position(2) [OF inv assms(2) e(2,3)] by (simp add: wgap_def)
  have "\<not> h < fst b" if "b \<in> set us" for b using us that by fastforce
  then have up: "(\<exists>b \<in> set fs. h < fst b) = (vs \<noteq> [])" using e(1,3) by (cases vs) fastforce+
  have "(\<exists>b \<in> set us. fst b + snd b = h) = touches us h"
  proof (cases us rule: rev_cases)
    case (snoc zs c)
    have "fst b + snd b \<noteq> h" if "b \<in> set zs" for b
    proof -
      have "fst b + snd b < fst c" using D(6) that by (auto simp: snoc sorted_wrt_append gap_def)
      then show ?thesis using us by (auto simp: snoc)
    qed
    then show ?thesis by (auto simp: snoc touches_def)
  qed (simp add: touches_def)
  moreover have "\<not> (\<exists>b \<in> set vs. fst b + snd b = h)" using e(3) by fastforce
  ultimately have tch: "(\<exists>b \<in> set fs. fst b + snd b = h) = touches us h" by (auto simp: e(1))
  have I: "pool_inv (free_state p us h r vs) (release us h r vs) (remove1 (h, r) live)"
    by (rule free_state_inv [OF inv assms(2) e(2,3)])
  have "m_used (free_state p us h r vs) = m_used p - r"
    using pool_invD(10) [OF I] D(10) remove_live(4) [OF inv assms(2)] by simp
  moreover have "if vs \<noteq> [] \<or> touches us h
      then sum_list (map snd (release us h r vs)) = sum_list (map snd fs) + r
      else release us h r vs = fs"
    using release_sum [of vs us h r] by (auto simp: e(1) release_def)
  ultimately show ?thesis unfolding up tch using I e(4) by blast
qed

text \<open>
  (C4) Round trip: releasing a block right after its allocation restores the very same
  free list and live blocks, unless the allocation used up the last block of the list completely.
\<close>

theorem pool_alloc_free_roundtrip:
  assumes "pool_inv p fs live" and "sz + 48 < 2 ^ 64" and "al \<le> 16"
    and "pool_alloc p sz al = Some (Inr (ptr, q))"
    and "fs \<noteq> [] \<Longrightarrow> snd (last fs) \<noteq> round_size sz + 16"
  shows "\<exists>q'. pool_free q ptr = Some q' \<and> pool_inv q' fs live"
proof (cases rule: pool_alloc_cases [OF assms(1-3)])
  case 1
  then show ?thesis using assms(4) by simp
next
  case fit: (2 us a s vs)
  note B = round_size_bounds [OF assms(2)]
  have "pool_inv p (us @ (a, s) # vs) live" using assms(1) fit(1) by simp
  moreover have "round_size sz + 16 < s \<or> vs \<noteq> []"
    using assms(5) fit(1,3) by (cases vs) auto
  ultimately show ?thesis
    using alloc_free_restores [of p us a s vs live "round_size sz + 16" q] B(1,3) fit assms(4)
    by auto
qed

text \<open>
  (C5) \<^verbatim>\<open>realloc\<close> to a larger size, when the allocation inside it succeeds: the old contents are at
  the start of the new block, the old block is no longer live, the new one is, and no byte of any
  other block changes.
\<close>

theorem pool_realloc_correct:
  assumes "pool_good p live" and "new_size + 48 < 2 ^ 64" and "(buf, s) \<in> set live"
    and "old_size \<le> s" and "old_size < new_size"
    and "pool_alloc p new_size 0 = Some (Inr (new_buf, p1))"
  shows "\<exists>m q. new_size \<le> m \<and> pool_realloc p buf old_size new_size 0 = Some (Inr (new_buf, q)) \<and>
    pool_good q ((new_buf, m) # remove1 (buf, s) live) \<and>
    (\<forall>i < old_size. m_bytes q (new_buf + i) = m_bytes p (buf + i)) \<and>
    (\<forall>c \<in> set (remove1 (buf, s) live). \<forall>y \<in> usable c. m_bytes q y = m_bytes p y)"
proof -
  have "pool_realloc p buf old_size new_size 0 = pool.move_block p buf old_size new_size"
    using assms(5) by (simp add: pool_realloc_def pool.move_block_def)
  with pool.move_block_ok [OF assms(1-4) less_imp_le [OF assms(5)] assms(6)] show ?thesis by simp
qed


text \<open>
  (C6) The loss of a released block, end to end: a pool whose only free block is used up by one
  allocation refuses every later request, even after that block has been released.
\<close>

theorem pool_exhausted_stays_exhausted:
  assumes "pool_inv p [(a, s)] live" and "sz + 48 < 2 ^ 64" and "al \<le> 16"
    and "round_size sz + 16 = s"
  shows "\<exists>q q'. pool_alloc p sz al = Some (Inr (a + 16, q)) \<and> pool_free q (a + 16) = Some q' \<and>
    m_used q' = m_used p \<and>
    (\<forall>sz' al'. sz' + 48 < 2 ^ 64 \<longrightarrow> al' \<le> 16 \<longrightarrow> pool_alloc q' sz' al' = Some (Inl NotEnoughMemory))"
proof (cases rule: pool_alloc_cases [OF assms(1-3)])
  case 1
  then show ?thesis using assms(4) by simp
next
  case fit: (2 us a' s' vs)
  then have e: "us = []" "a' = a" "s' = s" "vs = []" by (auto simp: Cons_eq_append_conv)
  note B = round_size_bounds [OF assms(2)]
  let ?q = "alloc_state p 0 a s s"
  have "pool_inv p ([] @ (a, s) # []) live" using assms(1) by simp
  from alloc_state_inv [OF this, of s ?q] B assms(4)
  have I: "pool_inv ?q [] ((a, s) # live)" by (auto simp: carve_def)
  from pool_free_eq [OF I, of a s] have f: "pool_free ?q (a + 16) = Some (free_state ?q [] a s [])"
    by auto
  have I2: "pool_inv (free_state ?q [] a s []) [] live"
    using free_state_inv [of ?q "[]" "[]" "(a, s) # live" a s] I by (simp add: release_def touches_def)
  have "pool_alloc (free_state ?q [] a s []) sz' al' = Some (Inl NotEnoughMemory)"
    if "sz' + 48 < 2 ^ 64" "al' \<le> 16" for sz' al'
    by (cases rule: pool_alloc_cases [OF I2 that]) auto
  then show ?thesis
    using fit(4) f pool_invD(10) [OF I2] pool_invD(10) [OF assms(1)] by (auto simp: e assms(4))
qed

text \<open>
  (C7) \<^verbatim>\<open>init\<close> of a fresh pool on a 16-byte aligned region that the CUDA runtime
  provides: the whole region is one free block and nothing is in use.
\<close>

theorem pool_init_correct:
  assumes "m_start_ptr p = 0" and "cudaMallocHost n = Some a"
    and "a \<noteq> 0" "16 dvd a" "16 dvd n" "0 < n" "a + n < 2 ^ 64"
  shows "\<exists>q. pool_init cudaMallocHost p n = Some (Inr q) \<and> pool_inv q [(a, n)] [] \<and> m_used q = 0"
  using pool_init_fresh [of p cudaMallocHost n a, OF assms] pool_invD(10) by fastforce

text \<open>
  (C8) The server's \<^verbatim>\<open>Allocator\<close> with zero-filling: growing a block keeps the old contents, the
  bytes added are zero, and no other live block is touched.
\<close>

theorem Allocator_realloc_correct:
  assumes "pool_good p live" and "new_size + 48 < 2 ^ 64" and "(buf, s) \<in> set live"
    and "old_size \<le> s" and "old_size < new_size"
    and "pool_alloc p new_size 0 = Some (Inr (new_buf, p1))"
  shows "\<exists>m q. new_size \<le> m \<and>
    Allocator_realloc True p buf old_size new_size 0 = Some (Inr (new_buf, q)) \<and>
    pool_good q ((new_buf, m) # remove1 (buf, s) live) \<and>
    (\<forall>i < new_size. m_bytes q (new_buf + i) = (if i < old_size then m_bytes p (buf + i) else 0)) \<and>
    (\<forall>c \<in> set (remove1 (buf, s) live). \<forall>y \<in> usable c. m_bytes q y = m_bytes p y)"
proof -
  have mv: "pool_realloc p buf old_size new_size 0 = pool.move_block p buf old_size new_size"
    using assms(5) by (simp add: pool_realloc_def pool.move_block_def)
  from pool.move_block_ok [OF assms(1-4) less_imp_le [OF assms(5)] assms(6)] obtain m q0 where
    q0: "new_size \<le> m" "pool.move_block p buf old_size new_size = Some (Inr (new_buf, q0))"
      "pool_good q0 ((new_buf, m) # remove1 (buf, s) live)"
      "\<forall>i < old_size. m_bytes q0 (new_buf + i) = m_bytes p (buf + i)"
      "\<forall>c \<in> set (remove1 (buf, s) live). \<forall>y \<in> usable c. m_bytes q0 y = m_bytes p y" by blast
  let ?m = "memset0 (m_bytes q0) (new_buf + old_size) (new_size - old_size)"
  let ?q = "q0\<lparr>m_bytes := ?m\<rparr>"
  have r: "Allocator_realloc True p buf old_size new_size 0 = Some (Inr (new_buf, ?q))"
    using mv q0(2) assms(5) by (simp add: Allocator_realloc_def)
  have g: "pool_good ?q ((new_buf, m) # remove1 (buf, s) live)"
    by (rule pool.write_ok [OF q0(3), of "(new_buf, m)"])
      (use q0(1) assms(5) in \<open>auto simp: usable_def memset0_def\<close>)
  have c: "m_bytes ?q (new_buf + i) = (if i < old_size then m_bytes p (buf + i) else 0)"
    if "i < new_size" for i
    using that q0(4) by (simp add: memset0_def)
  have o: "m_bytes ?q y = m_bytes p y" if "c \<in> set (remove1 (buf, s) live)" "y \<in> usable c" for c y
  proof -
    have "usable (new_buf, m) \<inter> usable c = {}"
      by (rule pool.live_disjoint [OF q0(3), of "[]"]) (use that in auto)
    then show ?thesis using q0(1,5) that by (auto simp: memset0_def usable_def)
  qed
  show ?thesis using q0(1) r g c o by blast
qed


section \<open>Concrete pools\<close>

text \<open>A pool of 4096 bytes, before and after one allocation of 100 bytes.\<close>

definition pool0 :: mem_pool where
  "pool0 = pool_reset \<lparr>m_totalSize = 4096, m_used = 0, m_peak = 0, m_start_ptr = 65536, m_head = 0,
     m_bytes = \<lambda>_. 0\<rparr>"

definition pool1 :: mem_pool where
  "pool1 = alloc_state pool0 0 65536 4096 128"

lemma pool0_inv: "pool_inv pool0 [(65536, 4096)] []"
  unfolding pool0_def
  using pool_reset_inv [of "\<lparr>m_totalSize = 4096, m_used = 0, m_peak = 0, m_start_ptr = 65536,
     m_head = 0, m_bytes = \<lambda>_. 0\<rparr>"] by simp

lemma round_size_100: "round_size 100 = 112" "round_size 200 = 208" "round_size 4070 = 4080"
  by (simp_all add: round_size_def add64_def mul64_def)

lemma pool0_alloc: "pool_alloc pool0 100 0 = Some (Inr (65552, pool1))"
  by (cases rule: pool_alloc_cases [OF pool0_inv, of 100 0])
    (auto simp: round_size_100 pool1_def Cons_eq_append_conv)

lemma pool1_inv: "pool_inv pool1 [(65664, 3968)] [(65536, 128)]"
  using alloc_state_inv [of pool0 "[]" 65536 4096 "[]" "[]" 128 pool1] pool0_inv
  by (simp add: pool1_def carve_def)

lemma pool1_good: "pool_good pool1 [(65552, 112)]"
  using pool1_inv by (auto simp: pool_good_def user_block_def intro!: exI)

lemma pool1_alloc:
  "pool_alloc pool1 200 0 = Some (Inr (65680, alloc_state pool1 0 65664 3968 224))"
  by (cases rule: pool_alloc_cases [OF pool1_inv, of 200 0])
    (auto simp: round_size_100 Cons_eq_append_conv)

theorem pool_alloc_correct_witness:
  "\<exists>q fs'. pool_alloc pool0 100 8 = Some (Inr (65552, q)) \<and> pool_inv q fs' [(65536, 128)]"
  using pool_alloc_correct [OF pool0_inv, of 100 8] by (auto simp: round_size_100)

theorem pool_free_correct_witness:
  "\<exists>q fs'. pool_free pool1 65552 = Some q \<and> pool_inv q fs' []"
  using pool_free_correct [OF pool1_inv, of 65536 128] by auto

theorem pool_free_gives_back_witness:
  "\<exists>q fs'. pool_free pool1 65552 = Some q \<and> sum_list (map snd fs') = 4096 \<and> pool_inv q fs' []"
  using pool_free_gives_back [OF pool1_inv, of 65536 128] by auto

theorem pool_alloc_free_roundtrip_witness:
  "\<exists>q'. pool_free pool1 65552 = Some q' \<and> pool_inv q' [(65536, 4096)] []"
  using pool_alloc_free_roundtrip [OF pool0_inv _ _ pool0_alloc] by (simp add: round_size_100)

theorem pool_realloc_correct_witness:
  "\<exists>m q. 200 \<le> m \<and> pool_realloc pool1 65552 100 200 0 = Some (Inr (65680, q)) \<and>
     pool_good q [(65680, m)] \<and> (\<forall>i < 100. m_bytes q (65680 + i) = m_bytes pool1 (65552 + i))"
  using pool_realloc_correct [OF pool1_good, of 200 65552 112 100, OF _ _ _ _ pool1_alloc] by auto

theorem pool_exhausted_stays_exhausted_witness:
  "\<exists>q q'. pool_alloc pool0 4070 0 = Some (Inr (65552, q)) \<and> pool_free q 65552 = Some q' \<and>
     pool_alloc q' 1 0 = Some (Inl NotEnoughMemory)"
  using pool_exhausted_stays_exhausted [OF pool0_inv, of 4070 0] by (auto simp: round_size_100)

theorem pool_init_correct_witness:
  "\<exists>q. pool_init (\<lambda>_. Some 65536)
      \<lparr>m_totalSize = 0, m_used = 0, m_peak = 0, m_start_ptr = 0, m_head = 0, m_bytes = \<lambda>_. 0\<rparr> 4096 =
      Some (Inr q) \<and> pool_inv q [(65536, 4096)] []"
  using pool_init_correct [of "\<lparr>m_totalSize = 0, m_used = 0, m_peak = 0, m_start_ptr = 0, m_head = 0,
      m_bytes = \<lambda>_. 0\<rparr>" "\<lambda>_. Some 65536" 4096 65536] by auto

theorem Allocator_realloc_correct_witness:
  "\<exists>q. Allocator_realloc True pool1 65552 100 200 0 = Some (Inr (65680, q)) \<and>
     m_bytes q 65800 = 0"
proof -
  from Allocator_realloc_correct [OF pool1_good, of 200 65552 112 100, OF _ _ _ _ pool1_alloc]
  obtain q where q: "Allocator_realloc True pool1 65552 100 200 0 = Some (Inr (65680, q))"
    "\<forall>i < 200. m_bytes q (65680 + i) = (if i < 100 then m_bytes pool1 (65552 + i) else 0)" by auto
  from q(2) [rule_format, of 120] q(1) show ?thesis by simp
qed

section \<open>Alignments above 16\<close>

lemma find_loop_hit:
  "it \<noteq> 0 \<Longrightarrow>
   add64 sz (CalculatePaddingWithHeader it alignment sizeof_AllocationHeader) \<le> get_blockSize m it \<Longrightarrow>
   find_loop m sz alignment padding itPrev it =
     Some (CalculatePaddingWithHeader it alignment sizeof_AllocationHeader, itPrev, it)"
  by (simp add: find_loop.simps)

lemma free_loop_hit: "ptr < it \<Longrightarrow> free_loop m ptr itPrev it = Some (itPrev, it)"
  by (simp add: free_loop.simps)

lemmas pool_eval = pool_alloc_def find_block_def find_loop_hit free_loop_hit pool_free_def
  coalescence_def list_insert_def list_remove_def round_size_def CalculatePaddingWithHeader_def
  CalculatePadding_def get_next_def get_blockSize_def get_padding_def set_next_def set_blockSize_def
  set_padding_def add64_def sub64_def mul64_def Let_def mem_simps

lemma pool0_eval: "pool0 = \<lparr>m_totalSize = 4096, m_used = 0, m_peak = 0, m_start_ptr = 65536,
    m_head = 65536, m_bytes = st64 (st64 (st64 (\<lambda>_. 0) 65536 4096) 65544 0) 65544 0\<rparr>"
  by (simp add: pool0_def pool_reset_def pool_eval)


lemma pad64: "CalculatePaddingWithHeader 65536 64 16 = 64" "CalculatePaddingWithHeader 65712 16 16 = 16"
  by (simp_all add: CalculatePaddingWithHeader_def CalculatePadding_def add64_def sub64_def mul64_def)

lemma find0: "find_block pool0 112 64 = Some (64, 0, 65536)"
  by (simp add: find_block_def pool0_eval find_loop_hit pad64 add64_def get_blockSize_def mem_simps)

lemma alloc_split:
  assumes "find_block p (round_size sz) (max al 16) = Some (padding, prev, a)" "a \<noteq> 0"
    "get_blockSize (m_bytes p) a = s" "round_size sz + padding = r" "r < s" "16 \<le> padding" "a + s < 2 ^ 64"
  shows "pool_alloc p sz al = Some (Inr (a + padding,
    (set_padding (a + padding - 16) (padding - 16) (set_blockSize (a + padding - 16) r
      (list_remove prev a (list_insert a (a + r) (set_blockSize (a + r) (s - r) p)))))
    \<lparr>m_used := add64 (m_used p) r, m_peak := max (m_peak p) (add64 (m_used p) r)\<rparr>))"
proof -
  have "add64 (round_size sz) padding = r" "sub64 s r = s - r" "add64 a r = a + r"
    "sub64 padding 16 = padding - 16" "add64 a (padding - 16) = a + padding - 16"
    "add64 (a + padding - 16) 16 = a + padding"
    using assms by (simp_all add: u64_simps)
  note e = this
  have used: "m_used (set_padding x y q) = m_used q" "m_used (set_blockSize x y q) = m_used q"
    "m_used (list_remove x y q) = m_used q" "m_used (list_insert x y q) = m_used q"
    "m_peak (set_padding x y q) = m_peak q" "m_peak (set_blockSize x y q) = m_peak q"
    "m_peak (list_remove x y q) = m_peak q" "m_peak (list_insert x y q) = m_peak q" for x y q
    by (simp_all add: set_padding_def set_blockSize_def list_remove_def list_insert_def set_next_def)
  have pos: "0 < s - r" using assms(5) by simp
  show ?thesis
    by (simp only: pool_alloc_def Let_def e pos assms(1-3) option.case prod.case if_True if_False
       simp_thms sizeof_AllocationHeader_def used)
qed


definition bytes0 :: memory where
  "bytes0 = st64 (st64 (st64 (\<lambda>_. 0) 65536 4096) 65544 0) 65544 0"

definition pool2 :: mem_pool where
  "pool2 = pool0\<lparr>m_used := 176, m_peak := 176, m_head := 65712, m_bytes :=
     st8 (st64 (st64 (st64 (st64 bytes0 65712 3920) 65544 65712) 65720 0) 65584 176) 65592 48\<rparr>"

lemmas field_defs = set_padding_def set_blockSize_def set_next_def get_next_def get_blockSize_def
  list_remove_def list_insert_def

lemma pool0_alloc64: "pool_alloc pool0 100 64 = Some (Inr (65600, pool2))"
proof -
  have 1: "find_block pool0 (round_size 100) (max 64 16) = Some (64, 0, 65536)"
    using find0 by (simp add: round_size_100)
  have 2: "get_blockSize (m_bytes pool0) 65536 = 4096"
    by (simp add: pool0_eval get_blockSize_def mem_simps)
  show ?thesis
    by (subst alloc_split [OF 1 _ 2, of 176])
      (simp_all add: round_size_100 field_defs pool2_def pool0_eval bytes0_def mem_simps add64_def)
qed

lemma pool2_next: "get_blockSize (m_bytes pool2) 65712 = 3920" "get_next (m_bytes pool2) 65712 = 0"
  "m_head pool2 = 65712"
  by (simp_all add: pool2_def get_blockSize_def get_next_def mem_simps)

definition pool3 :: mem_pool where
  "pool3 = pool2\<lparr>m_used := 304, m_peak := 304, m_head := 65840, m_bytes :=
     st8 (st64 (st64 (st64 (st64 (m_bytes pool2) 65840 3792) 65720 65840) 65848 0) 65712 128) 65720 0\<rparr>"

lemma pool2_alloc: "pool_alloc pool2 100 0 = Some (Inr (65728, pool3))"
proof -
  have 1: "find_block pool2 (round_size 100) (max 0 16) = Some (16, 0, 65712)"
    using pool2_next by (simp add: find_block_def find_loop_hit pad64 add64_def round_size_100)
  show ?thesis
    by (subst alloc_split [OF 1 _ pool2_next(1), of 128])
      (simp_all add: round_size_100 field_defs pool3_def pool2_def mem_simps add64_def)
qed

lemma pool3_header: "get_blockSize (m_bytes pool3) 65584 = 176" "get_padding (m_bytes pool3) 65584 = 48"
  "m_head pool3 = 65840"
  by (simp_all add: pool3_def pool2_def get_blockSize_def get_padding_def Let_def mem_simps)

lemma free_first:
  assumes "get_blockSize (m_bytes p) h = b" "get_padding (m_bytes p) h = k" "add64 b k = n"
    "h + 16 < m_head p" "add64 h n \<noteq> m_head p" "m_head p < 2 ^ 64" "n < 2 ^ 64"
  shows "\<exists>q. pool_free p (h + 16) = Some q \<and> m_head q = h \<and> get_blockSize (m_bytes q) h = n"
proof -
  let ?p1 = "set_next h 0 (set_blockSize h n p)"
  let ?p2 = "(list_insert 0 h ?p1)\<lparr>m_used := sub64 (m_used (list_insert 0 h ?p1)) n\<rparr>"
  have hd: "m_head ?p1 = m_head p" by (simp add: set_next_def set_blockSize_def)
  have sb: "sub64 (h + 16) 16 = h" using assms(4,6) by (simp add: u64_simps)
  have bs: "get_blockSize (m_bytes (list_insert 0 h ?p1)) h = n"
      and nx: "get_next (m_bytes ?p2) h = m_head p" "get_blockSize (m_bytes ?p2) h = n"
    using assms(6,7) by (simp_all add: list_insert_front field_defs mem_simps)
  have fl: "free_loop (m_bytes ?p1) (h + 16) 0 (m_head p) = Some (0, m_head p)"
    by (rule free_loop_hit [OF assms(4)])
  have nz: "m_head p \<noteq> 0" using assms(4) by simp
  have "coalescence 0 h ?p2 = ?p2" using assms(5) by (simp only: coalescence_def nx Let_def) simp
  then have "pool_free p (h + 16) = Some ?p2"
    by (simp only: pool_free_def Let_def sizeof_AllocationHeader_def sb assms(1-3) hd fl bs
        option.case prod.case nz not_False_eq_True if_True)
  then show ?thesis using nx by (simp add: list_insert_front)
qed


end
