(* ===== verification/Load.thy ===== *)
theory Load
  imports Prelude
begin

text \<open>
  Little-endian loads as machine words, bit by bit, and the relation \<open>agree\<close> between two strings
  in memory with the same bytes.
\<close>

unbundle bit_operations_syntax

type_synonym u64 = "64 word"

definition load64 :: "memory \<Rightarrow> nat \<Rightarrow> u64" where
  "load64 m a = word_of_nat (ld_bytes m a 8)"

definition load32 :: "memory \<Rightarrow> nat \<Rightarrow> 32 word" where
  "load32 m a = word_of_nat (ld_bytes m a 4)"

lemma bit_ld_bytes:
  "bit (ld_bytes m a n) i \<longleftrightarrow> i < 8 * n \<and> bit (m (a + i div 8)) (i mod 8)"
proof (induction n arbitrary: a i)
  case (Suc n)
  have d: "unat (m a) + 256 * ld_bytes m (Suc a) n = unat (m a) OR push_bit 8 (ld_bytes m (Suc a) n)"
  proof -
    have "unat (m a) AND push_bit 8 (ld_bytes m (Suc a) n) = 0"
      by (rule bit_eqI) (auto simp: bit_and_iff bit_push_bit_iff bit_unsigned_iff dest: bit_imp_le_length)
    from disjunctive_add_eq_or [OF this]
    show ?thesis by (simp add: push_bit_eq_mult mult.commute)
  qed
  show ?case
  proof (cases "i < 8")
    case True
    then show ?thesis
      by (simp add: d bit_or_iff bit_push_bit_iff bit_unsigned_iff)
  next
    case False
    have "\<not> bit (m a) i" using False by (auto dest: bit_imp_le_length)
    then show ?thesis using False Suc.IH [of "Suc a" "i - 8"]
      by (auto simp: d bit_or_iff bit_push_bit_iff bit_unsigned_iff le_div_geq le_mod_geq)
  qed
qed simp

lemma bit_load64: "bit (load64 m a) i \<longleftrightarrow> i < 64 \<and> bit (m (a + i div 8)) (i mod 8)"
  by (simp add: load64_def bit_of_nat_iff bit_ld_bytes)

definition agree :: "memory \<Rightarrow> nat \<Rightarrow> memory \<Rightarrow> nat \<Rightarrow> nat \<Rightarrow> bool" where
  "agree m s m' s' len \<longleftrightarrow> (\<forall>i < len. m (s + i) = m' (s' + i))"

lemma ld_bytes_shift:
  "(\<And>i. i < n \<Longrightarrow> m (a + i) = m' (b + i)) \<Longrightarrow> ld_bytes m a n = ld_bytes m' b n"
proof (induction n arbitrary: a b)
  case (Suc n)
  have "m a = m' b" using Suc.prems [of 0] by simp
  moreover have "ld_bytes m (Suc a) n = ld_bytes m' (Suc b) n"
    by (rule Suc.IH) (use Suc.prems [of "Suc _"] in simp)
  ultimately show ?case by simp
qed simp

lemma load64_agree:
  assumes "agree m s m' s' len"
  shows "i + 8 \<le> len \<Longrightarrow> load64 m (s + i) = load64 m' (s' + i)"
    and "8 \<le> len \<Longrightarrow> load64 m s = load64 m' s'"
    and "8 \<le> k \<Longrightarrow> k \<le> len \<Longrightarrow> load64 m (s + len - k) = load64 m' (s' + len - k)"
proof -
  have *: "load64 m (s + i) = load64 m' (s' + i)" if "i + 8 \<le> len" for i
    unfolding load64_def
    by (rule arg_cong [where f = word_of_nat], rule ld_bytes_shift)
      (use assms that in \<open>auto simp: agree_def add.assoc\<close>)
  show "i + 8 \<le> len \<Longrightarrow> load64 m (s + i) = load64 m' (s' + i)" by (rule *)
  show "8 \<le> len \<Longrightarrow> load64 m s = load64 m' s'" using * [of 0] by simp
  show "8 \<le> k \<Longrightarrow> k \<le> len \<Longrightarrow> load64 m (s + len - k) = load64 m' (s' + len - k)"
    using * [of "len - k"] by simp
qed

lemma load32_agree:
  assumes "agree m s m' s' len"
  shows "4 \<le> len \<Longrightarrow> load32 m s = load32 m' s'"
    and "4 \<le> k \<Longrightarrow> k \<le> len \<Longrightarrow> load32 m (s + len - k) = load32 m' (s' + len - k)"
proof -
  have *: "load32 m (s + i) = load32 m' (s' + i)" if "i + 4 \<le> len" for i
    unfolding load32_def
    by (rule arg_cong [where f = word_of_nat], rule ld_bytes_shift)
      (use assms that in \<open>auto simp: agree_def add.assoc\<close>)
  show "4 \<le> len \<Longrightarrow> load32 m s = load32 m' s'" using * [of 0] by simp
  show "4 \<le> k \<Longrightarrow> k \<le> len \<Longrightarrow> load32 m (s + len - k) = load32 m' (s' + len - k)"
    using * [of "len - k"] by simp
qed

lemma byte_agree:
  assumes "agree m s m' s' len"
  shows "i < len \<Longrightarrow> m (s + i) = m' (s' + i)" and "0 < len \<Longrightarrow> m s = m' s'"
    and "0 < k \<Longrightarrow> k \<le> len \<Longrightarrow> m (s + len - k) = m' (s' + len - k)"
proof -
  show "i < len \<Longrightarrow> m (s + i) = m' (s' + i)" using assms by (simp add: agree_def)
  show "0 < len \<Longrightarrow> m s = m' s'" using assms [unfolded agree_def, rule_format, of 0] by simp
  show "0 < k \<Longrightarrow> k \<le> len \<Longrightarrow> m (s + len - k) = m' (s' + len - k)"
    using assms [unfolded agree_def, rule_format, of "len - k"] by simp
qed

lemma agree_sub: "agree m s m' s' len \<Longrightarrow> i + k \<le> len \<Longrightarrow> agree m (s + i) m' (s' + i) k"
  by (simp add: agree_def add.assoc)

lemma agree_suffix:
  "agree m s m' s' len \<Longrightarrow> k \<le> len \<Longrightarrow> agree m (s + len - k) m' (s' + len - k) k"
  using agree_sub [of m s m' s' len "len - k" k] by simp

end
