(* ===== verification/City_Hash.thy ===== *)
theory City_Hash
  imports Load
begin

text \<open>
  CityHash of the server, \<^verbatim>\<open>contrib/libcityhash/src/city.cc\<close> and \<^verbatim>\<open>city.h\<close>: the 64-bit and the
  128-bit hash of the \<open>len\<close> bytes at address \<open>s\<close>, and that they depend on these bytes only.
\<close>

unbundle bit_operations_syntax

type_synonym City_uint128 = "u64 \<times> u64"

definition City_k0 :: u64 where "City_k0 = 0xc3a5c85c97cb3127"
definition City_k1 :: u64 where "City_k1 = 0xb492b66fbe98f273"
definition City_k2 :: u64 where "City_k2 = 0x9ae16a3b2f90404f"
definition City_k3 :: u64 where "City_k3 = 0xc949d7c7509e6557"

definition City_Fetch64 :: "memory \<Rightarrow> nat \<Rightarrow> u64" where
  "City_Fetch64 m p = load64 m p"

definition City_Fetch32 :: "memory \<Rightarrow> nat \<Rightarrow> 32 word" where
  "City_Fetch32 m p = load32 m p"

definition City_Rotate :: "u64 \<Rightarrow> nat \<Rightarrow> u64" where
  "City_Rotate val shift =
     (if shift = 0 then val else drop_bit shift val OR push_bit (64 - shift) val)"

definition City_RotateByAtLeast1 :: "u64 \<Rightarrow> nat \<Rightarrow> u64" where
  "City_RotateByAtLeast1 val shift = drop_bit shift val OR push_bit (64 - shift) val"

definition City_ShiftMix :: "u64 \<Rightarrow> u64" where
  "City_ShiftMix val = val XOR drop_bit 47 val"

definition City_Hash128to64 :: "City_uint128 \<Rightarrow> u64" where
  "City_Hash128to64 x =
     (let kMul = 0x9ddfea08eb382d69;
          a = (fst x XOR snd x) * kMul;
          a = a XOR drop_bit 47 a;
          b = (snd x XOR a) * kMul;
          b = b XOR drop_bit 47 b
      in b * kMul)"

definition City_HashLen16 :: "u64 \<Rightarrow> u64 \<Rightarrow> u64" where
  "City_HashLen16 u v = City_Hash128to64 (u, v)"

definition City_HashLen0to16 :: "memory \<Rightarrow> nat \<Rightarrow> size_t \<Rightarrow> u64" where
  "City_HashLen0to16 m s len =
     (if len > 8 then
        (let a = City_Fetch64 m s;
             b = City_Fetch64 m (s + len - 8)
         in City_HashLen16 a (City_RotateByAtLeast1 (b + word_of_nat len) len) XOR b)
      else if len \<ge> 4 then
        (let a = ucast (City_Fetch32 m s) :: u64;
             b = ucast (City_Fetch32 m (s + len - 4)) :: u64
         in City_HashLen16 (word_of_nat len + push_bit 3 a) b)
      else if len > 0 then
        (let a = m s; b = m (s + len div 2); c = m (s + len - 1);
             y = ucast a + push_bit 8 (ucast b) :: 32 word;
             z = word_of_nat len + push_bit 2 (ucast c) :: 32 word
         in City_ShiftMix (ucast y * City_k2 XOR ucast z * City_k3) * City_k2)
      else City_k2)"

definition City_HashLen17to32 :: "memory \<Rightarrow> nat \<Rightarrow> size_t \<Rightarrow> u64" where
  "City_HashLen17to32 m s len =
     (let a = City_Fetch64 m s * City_k1;
          b = City_Fetch64 m (s + 8);
          c = City_Fetch64 m (s + len - 8) * City_k2;
          d = City_Fetch64 m (s + len - 16) * City_k0
      in City_HashLen16 (City_Rotate (a - b) 43 + City_Rotate c 30 + d)
           (a + City_Rotate (b XOR City_k3) 20 - c + word_of_nat len))"

definition City_WeakHash :: "u64 \<Rightarrow> u64 \<Rightarrow> u64 \<Rightarrow> u64 \<Rightarrow> u64 \<Rightarrow> u64 \<Rightarrow> City_uint128" where
  "City_WeakHash w x y z a b =
     (let a = a + w;
          b = City_Rotate (b + a + z) 21;
          c = a;
          a = a + x;
          a = a + y;
          b = b + City_Rotate a 44
      in (a + z, b + c))"

definition City_WeakHashLen32WithSeeds :: "memory \<Rightarrow> nat \<Rightarrow> u64 \<Rightarrow> u64 \<Rightarrow> City_uint128" where
  "City_WeakHashLen32WithSeeds m s a b =
     City_WeakHash (City_Fetch64 m s) (City_Fetch64 m (s + 8)) (City_Fetch64 m (s + 16))
       (City_Fetch64 m (s + 24)) a b"

definition City_HashLen33to64 :: "memory \<Rightarrow> nat \<Rightarrow> size_t \<Rightarrow> u64" where
  "City_HashLen33to64 m s len =
     (let z = City_Fetch64 m (s + 24);
          a = City_Fetch64 m s + (word_of_nat len + City_Fetch64 m (s + len - 16)) * City_k0;
          b = City_Rotate (a + z) 52;
          c = City_Rotate a 37;
          a = a + City_Fetch64 m (s + 8);
          c = c + City_Rotate a 7;
          a = a + City_Fetch64 m (s + 16);
          vf = a + z;
          vs = b + City_Rotate a 31 + c;
          a = City_Fetch64 m (s + 16) + City_Fetch64 m (s + len - 32);
          z = City_Fetch64 m (s + len - 8);
          b = City_Rotate (a + z) 52;
          c = City_Rotate a 37;
          a = a + City_Fetch64 m (s + len - 24);
          c = c + City_Rotate a 7;
          a = a + City_Fetch64 m (s + len - 16);
          wf = a + z;
          ws = b + City_Rotate a 31 + c;
          r = City_ShiftMix ((vf + ws) * City_k2 + (wf + vs) * City_k0)
      in City_ShiftMix (r * City_k0 + vs) * City_k2)"

text \<open>The state \<^verbatim>\<open>x, y, z, v, w\<close> of the long loop, and one round of it on the 64 bytes at \<^verbatim>\<open>s\<close>.\<close>

type_synonym City_state = "u64 \<times> u64 \<times> u64 \<times> City_uint128 \<times> City_uint128"

definition City_round :: "memory \<Rightarrow> nat \<Rightarrow> City_state \<Rightarrow> City_state" where
  "City_round m s = (\<lambda>(x, y, z, v, w).
     (let x = City_Rotate (x + y + fst v + City_Fetch64 m (s + 16)) 37 * City_k1;
          y = City_Rotate (y + snd v + City_Fetch64 m (s + 48)) 42 * City_k1;
          x = x XOR snd w;
          y = y XOR fst v;
          z = City_Rotate (z XOR fst w) 33;
          v = City_WeakHashLen32WithSeeds m s (snd v * City_k1) (x + fst w);
          w = City_WeakHashLen32WithSeeds m (s + 32) (z + snd w) y
      in (z, y, x, v, w)))"

text \<open>The loop runs on a positive multiple of 64, so \<^verbatim>\<open>len -= 64\<close> never wraps.\<close>

fun City_loop :: "memory \<Rightarrow> nat \<Rightarrow> size_t \<Rightarrow> City_state \<Rightarrow> City_state" where
  "City_loop m s len st =
     (let st = City_round m s st; s = s + 64; len = len - 64
      in if len \<noteq> 0 then City_loop m s len st else st)"

declare City_loop.simps [simp del]

definition City_long_init :: "memory \<Rightarrow> nat \<Rightarrow> size_t \<Rightarrow> City_state" where
  "City_long_init m s len =
     (let x = City_Fetch64 m s;
          y = City_Fetch64 m (s + len - 16) XOR City_k1;
          z = City_Fetch64 m (s + len - 56) XOR City_k0;
          v = City_WeakHashLen32WithSeeds m (s + len - 64) (word_of_nat len) y;
          w = City_WeakHashLen32WithSeeds m (s + len - 32) (word_of_nat len * City_k1) City_k0;
          z = z + City_ShiftMix (snd v) * City_k1;
          x = City_Rotate (z + x) 39 * City_k1;
          y = City_Rotate y 33 * City_k1
      in (x, y, z, v, w))"

definition CityHash64 :: "memory \<Rightarrow> nat \<Rightarrow> size_t \<Rightarrow> u64" where
  "CityHash64 m s len =
     (if len \<le> 32 then
        (if len \<le> 16 then City_HashLen0to16 m s len else City_HashLen17to32 m s len)
      else if len \<le> 64 then City_HashLen33to64 m s len
      else
        (case City_loop m s ((len - 1) div 64 * 64) (City_long_init m s len) of
           (x, y, z, v, w) \<Rightarrow>
             City_HashLen16 (City_HashLen16 (fst v) (fst w) + City_ShiftMix y * City_k1 + z)
               (City_HashLen16 (snd v) (snd w) + x)))"

definition CityHash64WithSeeds :: "memory \<Rightarrow> nat \<Rightarrow> size_t \<Rightarrow> u64 \<Rightarrow> u64 \<Rightarrow> u64" where
  "CityHash64WithSeeds m s len seed0 seed1 = City_HashLen16 (CityHash64 m s len - seed0) seed1"

definition CityHash64WithSeed :: "memory \<Rightarrow> nat \<Rightarrow> size_t \<Rightarrow> u64 \<Rightarrow> u64" where
  "CityHash64WithSeed m s len seed = CityHash64WithSeeds m s len City_k2 seed"

text \<open>\<^verbatim>\<open>CityMurmur\<close>: the loop over 16-byte steps, with the signed counter \<^verbatim>\<open>l\<close> positive on entry.\<close>

fun CityMurmur_loop ::
  "memory \<Rightarrow> nat \<Rightarrow> nat \<Rightarrow> u64 \<times> u64 \<times> u64 \<times> u64 \<Rightarrow> u64 \<times> u64 \<times> u64 \<times> u64" where
  "CityMurmur_loop m s l (a, b, c, d) =
     (let a = a XOR City_ShiftMix (City_Fetch64 m s * City_k1) * City_k1;
          a = a * City_k1;
          b = b XOR a;
          c = c XOR City_ShiftMix (City_Fetch64 m (s + 8) * City_k1) * City_k1;
          c = c * City_k1;
          d = d XOR c
      in if l > 16 then CityMurmur_loop m (s + 16) (l - 16) (a, b, c, d) else (a, b, c, d))"

declare CityMurmur_loop.simps [simp del]

definition CityMurmur_mix :: "memory \<Rightarrow> nat \<Rightarrow> size_t \<Rightarrow> City_uint128 \<Rightarrow> u64 \<times> u64 \<times> u64 \<times> u64" where
  "CityMurmur_mix m s len seed =
     (let a = fst seed; b = snd seed
      in if len \<le> 16 then
           (let a = City_ShiftMix (a * City_k1) * City_k1;
                c = b * City_k1 + City_HashLen0to16 m s len;
                d = City_ShiftMix (a + (if len \<ge> 8 then City_Fetch64 m s else c))
            in (a, b, c, d))
         else
           (let c = City_HashLen16 (City_Fetch64 m (s + len - 8) + City_k1) a;
                d = City_HashLen16 (b + word_of_nat len) (c + City_Fetch64 m (s + len - 16));
                a = a + d
            in CityMurmur_loop m s (len - 16) (a, b, c, d)))"

definition CityMurmur :: "memory \<Rightarrow> nat \<Rightarrow> size_t \<Rightarrow> City_uint128 \<Rightarrow> City_uint128" where
  "CityMurmur m s len seed =
     (case CityMurmur_mix m s len seed of (a, b, c, d) \<Rightarrow>
        (let a = City_HashLen16 a c; b = City_HashLen16 d b
         in (a XOR b, City_HashLen16 b a)))"

text \<open>The unrolled loop of the 128-bit hash does two rounds per iteration.\<close>

fun City128_loop :: "memory \<Rightarrow> nat \<Rightarrow> size_t \<Rightarrow> City_state \<Rightarrow> nat \<times> size_t \<times> City_state" where
  "City128_loop m s len st =
     (let st = City_round m s st; s = s + 64;
          st = City_round m s st; s = s + 64;
          len = len - 128
      in if len \<ge> 128 then City128_loop m s len st else (s, len, st))"

declare City128_loop.simps [simp del]

definition City128_tail_step :: "memory \<Rightarrow> nat \<Rightarrow> City_state \<Rightarrow> City_state" where
  "City128_tail_step m p = (\<lambda>(x, y, z, v, w).
     (let y = City_Rotate (y - x) 42 * City_k0 + snd v;
          w1 = fst w + City_Fetch64 m (p + 16);
          x = City_Rotate x 49 * City_k0 + w1;
          w1 = w1 + fst v;
          v = City_WeakHashLen32WithSeeds m p (fst v) (snd v)
      in (x, y, z, v, (w1, snd w))))"

function City128_tail :: "memory \<Rightarrow> nat \<Rightarrow> size_t \<Rightarrow> nat \<Rightarrow> City_state \<Rightarrow> City_state" where
  "City128_tail m s len tail_done st =
     (if tail_done < len then
        (let tail_done = tail_done + 32
         in City128_tail m s len tail_done (City128_tail_step m (s + len - tail_done) st))
      else st)"
  by pat_completeness auto
termination
  by (relation "measure (\<lambda>(m, s, len, t, st). len - t)") auto

declare City128_tail.simps [simp del]

definition City128_init :: "memory \<Rightarrow> nat \<Rightarrow> size_t \<Rightarrow> City_uint128 \<Rightarrow> City_state" where
  "City128_init m s len seed =
     (let x = fst seed;
          y = snd seed;
          z = word_of_nat len * City_k1;
          v1 = City_Rotate (y XOR City_k1) 49 * City_k1 + City_Fetch64 m s;
          v2 = City_Rotate v1 42 * City_k1 + City_Fetch64 m (s + 8);
          w1 = City_Rotate (y + z) 35 * City_k1 + x;
          w2 = City_Rotate (x + City_Fetch64 m (s + 88)) 53 * City_k1
      in (x, y, z, (v1, v2), (w1, w2)))"

definition CityHash128WithSeed :: "memory \<Rightarrow> nat \<Rightarrow> size_t \<Rightarrow> City_uint128 \<Rightarrow> City_uint128" where
  "CityHash128WithSeed m s len seed =
     (if len < 128 then CityMurmur m s len seed
      else
        (case City128_loop m s len (City128_init m s len seed) of
           (s, len, (x, y, z, v, w)) \<Rightarrow>
             (let y = y + (City_Rotate (fst w) 37 * City_k0 + z);
                  x = x + City_Rotate (fst v + z) 49 * City_k0
              in case City128_tail m s len 0 (x, y, z, v, w) of
                   (x, y, z, v, w) \<Rightarrow>
                     (let x = City_HashLen16 x (fst v);
                          y = City_HashLen16 y (fst w)
                      in (City_HashLen16 (x + snd v) (snd w) + y,
                          City_HashLen16 (x + snd w) (y + snd v))))))"

definition CityHash128 :: "memory \<Rightarrow> nat \<Rightarrow> size_t \<Rightarrow> City_uint128" where
  "CityHash128 m s len =
     (if len \<ge> 16 then
        CityHash128WithSeed m (s + 16) (len - 16)
          (City_Fetch64 m s XOR City_k3, City_Fetch64 m (s + 8))
      else if len \<ge> 8 then
        CityHash128WithSeed m 0 0
          (City_Fetch64 m s XOR (word_of_nat len * City_k0), City_Fetch64 m (s + len - 8) XOR City_k1)
      else CityHash128WithSeed m s len (City_k0, City_k1))"

section \<open>The 64-bit hash reads only the bytes of the string\<close>

lemma City_HashLen0to16_agree:
  assumes a: "agree m s m' s' len" "len \<le> 16"
  shows "City_HashLen0to16 m s len = City_HashLen0to16 m' s' len"
proof -
  consider "len > 8" | "len \<le> 8" "len \<ge> 4" | "len < 4" "len > 0" | "len = 0" by linarith
  then show ?thesis
  proof cases
    case 1
    then have "load64 m s = load64 m' s'" "load64 m (s + len - 8) = load64 m' (s' + len - 8)"
      by (simp_all add: load64_agree [OF a(1)])
    then show ?thesis using 1 by (simp add: City_HashLen0to16_def City_Fetch64_def)
  next
    case 2
    then have "load32 m s = load32 m' s'" "load32 m (s + len - 4) = load32 m' (s' + len - 4)"
      by (simp_all add: load32_agree [OF a(1)])
    then show ?thesis using 2 by (simp add: City_HashLen0to16_def City_Fetch32_def)
  next
    case 3
    then have "m s = m' s'" "m (s + len div 2) = m' (s' + len div 2)"
        "m (s + len - 1) = m' (s' + len - 1)"
      using byte_agree [OF a(1)] by auto
    then show ?thesis using 3 by (simp add: City_HashLen0to16_def)
  qed (simp add: City_HashLen0to16_def)
qed

lemma City_HashLen17to32_agree:
  assumes a: "agree m s m' s' len" "16 < len"
  shows "City_HashLen17to32 m s len = City_HashLen17to32 m' s' len"
proof -
  have "City_Fetch64 m s = City_Fetch64 m' s'" "City_Fetch64 m (s + 8) = City_Fetch64 m' (s' + 8)"
    "City_Fetch64 m (s + len - 8) = City_Fetch64 m' (s' + len - 8)"
    "City_Fetch64 m (s + len - 16) = City_Fetch64 m' (s' + len - 16)"
    using a(2) by (simp_all add: City_Fetch64_def load64_agree [OF a(1)])
  then show ?thesis by (simp only: City_HashLen17to32_def)
qed

lemma City_HashLen33to64_agree:
  assumes a: "agree m s m' s' len" "32 < len"
  shows "City_HashLen33to64 m s len = City_HashLen33to64 m' s' len"
proof -
  have "City_Fetch64 m s = City_Fetch64 m' s'" "City_Fetch64 m (s + 8) = City_Fetch64 m' (s' + 8)"
    "City_Fetch64 m (s + 16) = City_Fetch64 m' (s' + 16)"
    "City_Fetch64 m (s + 24) = City_Fetch64 m' (s' + 24)"
    "City_Fetch64 m (s + len - 16) = City_Fetch64 m' (s' + len - 16)"
    "City_Fetch64 m (s + len - 32) = City_Fetch64 m' (s' + len - 32)"
    "City_Fetch64 m (s + len - 8) = City_Fetch64 m' (s' + len - 8)"
    "City_Fetch64 m (s + len - 24) = City_Fetch64 m' (s' + len - 24)"
    using a(2) by (simp_all add: City_Fetch64_def load64_agree [OF a(1)])
  then show ?thesis by (simp only: City_HashLen33to64_def)
qed

lemma City_WeakHash_agree:
  assumes "agree m s m' s' len" "32 \<le> len"
  shows "City_WeakHashLen32WithSeeds m s a b = City_WeakHashLen32WithSeeds m' s' a b"
  using assms by (simp add: City_WeakHashLen32WithSeeds_def City_Fetch64_def load64_agree)

lemma City_round_agree:
  assumes "agree m s m' s' len" "64 \<le> len"
  shows "City_round m s st = City_round m' s' st"
proof -
  have "agree m (s + 32) m' (s' + 32) 32" by (rule agree_sub [OF assms(1)]) (use assms in simp)
  from City_WeakHash_agree [OF this] City_WeakHash_agree [OF assms(1)] assms show ?thesis
    by (simp add: City_round_def City_Fetch64_def load64_agree split: prod.split)
qed

lemma City_loop_agree:
  "agree m s m' s' (64 * Suc n) \<Longrightarrow> City_loop m s (64 * Suc n) st = City_loop m' s' (64 * Suc n) st"
proof (induction n arbitrary: s s' st)
  case 0
  then show ?case using City_round_agree [of m s m' s' 64 st]
    by (simp add: City_loop.simps [of m] City_loop.simps [of m'])
next
  case (Suc n)
  have "agree m (s + 64) m' (s' + 64) (64 * Suc n)"
    by (rule agree_sub [OF Suc.prems]) simp
  from Suc.IH [OF this] City_round_agree [OF Suc.prems, of st] show ?case
    by (simp add: City_loop.simps [of m s] City_loop.simps [of m' s'])
qed

lemma City_long_init_agree:
  assumes a: "agree m s m' s' len" "64 < len"
  shows "City_long_init m s len = City_long_init m' s' len"
  using City_WeakHash_agree [OF agree_suffix [OF a(1), of 64]]
    City_WeakHash_agree [OF agree_suffix [OF a(1), of 32]] a
  by (simp add: City_long_init_def City_Fetch64_def load64_agree)

lemma CityHash64_agree:
  assumes a: "agree m s m' s' len"
  shows "CityHash64 m s len = CityHash64 m' s' len"
proof (cases "len \<le> 64")
  case True
  then show ?thesis
    using City_HashLen0to16_agree [OF a] City_HashLen17to32_agree [OF a] City_HashLen33to64_agree [OF a]
    by (auto simp: CityHash64_def)
next
  case False
  then have "0 < (len - 1) div 64" by (simp add: div_greater_zero_iff)
  then obtain n where n: "(len - 1) div 64 = Suc n" using gr0_implies_Suc by blast
  then have e: "(len - Suc 0) div 64 * 64 = 64 + 64 * n" "64 * Suc n \<le> len" using False by auto
  have "agree m s m' s' (64 * Suc n)" using agree_sub [OF a, of 0] e(2) by simp
  from City_loop_agree [OF this] City_long_init_agree [OF a] False show ?thesis
    by (simp add: CityHash64_def e(1))
qed

section \<open>So does the 128-bit hash\<close>

lemma CityMurmur_loop_agree:
  assumes "agree m s m' s' len" "l + 16 \<le> len"
  shows "CityMurmur_loop m s l st = CityMurmur_loop m' s' l st"
  using assms
proof (induction m s l st arbitrary: s' len rule: CityMurmur_loop.induct)
  case (1 m s l a b c d)
  show ?case
  proof (cases "l > 16")
    case True
    have ag: "agree m (s + 16) m' (s' + 16) (len - 16)"
      by (rule agree_sub [OF 1(2)]) (use 1(3) in simp)
    show ?thesis
      using 1(1) [OF refl refl refl refl refl refl True ag] 1(2,3) True
      by (simp add: CityMurmur_loop.simps [of m s] CityMurmur_loop.simps [of m' s'] Let_def
          City_Fetch64_def load64_agree)
  next
    case False
    then show ?thesis using 1(2,3)
      by (simp add: CityMurmur_loop.simps [of m s] CityMurmur_loop.simps [of m' s'] Let_def
          City_Fetch64_def load64_agree)
  qed
qed


lemma CityMurmur_agree:
  assumes a: "agree m s m' s' len"
  shows "CityMurmur m s len seed = CityMurmur m' s' len seed"
proof -
  have "CityMurmur_mix m s len seed = CityMurmur_mix m' s' len seed"
  proof (cases "len \<le> 16")
    case True
    then show ?thesis using City_HashLen0to16_agree [OF a] load64_agree(2) [OF a]
      by (cases "8 \<le> len") (simp_all add: CityMurmur_mix_def City_Fetch64_def Let_def)
  next
    case False
    then have "CityMurmur_loop m s (len - 16) st = CityMurmur_loop m' s' (len - 16) st" for st
      by (intro CityMurmur_loop_agree [OF a]) simp
    with False show ?thesis using load64_agree [OF a]
      by (simp add: CityMurmur_mix_def City_Fetch64_def)
  qed
  then show ?thesis by (simp add: CityMurmur_def)
qed

lemma City128_loop_agree:
  assumes "agree m s m' s' len" "128 \<le> len"
  shows "\<exists>k st'. 0 < k \<and> 128 * k \<le> len \<and> len - 128 * k < 128 \<and>
    City128_loop m s len st = (s + 128 * k, len - 128 * k, st') \<and>
    City128_loop m' s' len st = (s' + 128 * k, len - 128 * k, st')"
  using assms
proof (induction m s len st arbitrary: s' rule: City128_loop.induct)
  case (1 m s len st)
  have "agree m (s + 64) m' (s' + 64) 64" by (rule agree_sub [OF 1(2)]) (use 1(3) in simp)
  then have r: "City_round m' (s' + 64) (City_round m' s' st) = City_round m (s + 64) (City_round m s st)"
    using City_round_agree [OF 1(2)] City_round_agree [of m "s + 64" m' "s' + 64" 64] 1(3) by simp
  show ?case
  proof (cases "128 \<le> len - 128")
    case False
    then show ?thesis using r 1(3)
      by (intro exI [of _ 1] exI [of _ "City_round m (s + 64) (City_round m s st)"])
        (simp add: City128_loop.simps [of m s] City128_loop.simps [of m' s'] Let_def)
  next
    case True
    have ag: "agree m (s + 128) m' (s' + 128) (len - 128)"
      by (rule agree_sub [OF 1(2)]) (use 1(3) in simp)
    from 1(1) [OF refl refl refl refl refl True, of "s' + 128"] ag True obtain k st' where
      k: "0 < k" "128 * k \<le> len - 128" "len - 128 - 128 * k < 128"
      "City128_loop m (s + 128) (len - 128) (City_round m (s + 64) (City_round m s st)) =
        (s + 128 + 128 * k, len - 128 - 128 * k, st')"
      "City128_loop m' (s' + 128) (len - 128) (City_round m (s + 64) (City_round m s st)) =
        (s' + 128 + 128 * k, len - 128 - 128 * k, st')"
      by (auto simp: add.assoc)
    moreover have "128 * Suc k \<le> len" using k(2) True by simp
    ultimately show ?thesis using True r
      by (intro exI [of _ "Suc k"] exI [of _ st'])
        (simp add: City128_loop.simps [of m s] City128_loop.simps [of m' s'] Let_def add.assoc)
  qed
qed

lemma City128_tail_agree:
  assumes "agree m (s + len - 128) m' (s' + len - 128) 128" "len < 128" "128 \<le> s" "128 \<le> s'"
    and "t mod 32 = 0" "t \<le> 128"
  shows "City128_tail m s len t st = City128_tail m' s' len t st"
  using assms
proof (induction m s len t st arbitrary: s' rule: City128_tail.induct)
  case (1 m s len t st)
  show ?case
  proof (cases "t < len")
    case True
    then have t: "t + 32 \<le> 128" "(t + 32) mod 32 = 0" using 1(3,6) by presburger+
    have "s + len - (t + 32) = (s + len - 128) + (128 - (t + 32))"
      "s' + len - (t + 32) = (s' + len - 128) + (128 - (t + 32))" using 1(4,5) t by simp_all
    then have ag: "agree m (s + len - (t + 32)) m' (s' + len - (t + 32)) 32"
      using agree_sub [OF 1(2), of "128 - (t + 32)" 32] t by simp
    then have "City128_tail_step m (s + len - (t + 32)) st = City128_tail_step m' (s' + len - (t + 32)) st"
      using load64_agree(1) [OF ag, of 16] City_WeakHash_agree [OF ag]
      by (simp add: City128_tail_step_def City_Fetch64_def split: prod.split)
    with 1(1) [OF True refl 1(2-5) t(2,1)] True show ?thesis
      by (simp add: City128_tail.simps [of m s len t] City128_tail.simps [of m' s' len t] Let_def)
  qed (simp add: City128_tail.simps [of m s] City128_tail.simps [of m' s'])
qed

lemma CityHash128WithSeed_agree:
  assumes a: "agree m s m' s' len"
  shows "CityHash128WithSeed m s len seed = CityHash128WithSeed m' s' len seed"
proof (cases "len < 128")
  case True
  then show ?thesis using CityMurmur_agree [OF a] by (simp add: CityHash128WithSeed_def)
next
  case False
  have i: "City128_init m s len seed = City128_init m' s' len seed"
    using False load64_agree [OF a] by (simp add: City128_init_def City_Fetch64_def)
  from City128_loop_agree [OF a, of "City128_init m s len seed"] False
  obtain k st' where k: "0 < k" "128 * k \<le> len" "len - 128 * k < 128"
    "City128_loop m s len (City128_init m s len seed) = (s + 128 * k, len - 128 * k, st')"
    "City128_loop m' s' len (City128_init m' s' len seed) = (s' + 128 * k, len - 128 * k, st')"
    by (auto simp: i)
  have "agree m (s + len - 128) m' (s' + len - 128) 128"
    using agree_suffix [OF a, of 128] False by simp
  then have "City128_tail m (s + 128 * k) (len - 128 * k) 0 st =
      City128_tail m' (s' + 128 * k) (len - 128 * k) 0 st" for st
    using k by (intro City128_tail_agree) auto
  with k(4,5) False show ?thesis by (simp add: CityHash128WithSeed_def)
qed

lemma CityHash128_agree:
  assumes a: "agree m s m' s' len"
  shows "CityHash128 m s len = CityHash128 m' s' len"
proof -
  have e: "agree m 0 m' 0 0" by (simp add: agree_def)
  show ?thesis
    using CityHash128WithSeed_agree [OF a] CityHash128WithSeed_agree [OF e] load64_agree [OF a]
      CityHash128WithSeed_agree [OF agree_sub [OF a, of 16 "len - 16"]]
    by (auto simp: CityHash128_def City_Fetch64_def)
qed

end
