(* ===== verification/Murmur_Hash.thy ===== *)
theory Murmur_Hash
  imports Load
begin

text \<open>
  The word-wise reader of unaligned strings (\<^verbatim>\<open>cudaReadUnaligned.cuh\<close>) and MurmurHash
  (\<^verbatim>\<open>cudaMurmurHash64.cuh\<close>) of the device code.  The reader returns the next eight bytes of the
  string whatever its alignment, so the hash is the published function of the bytes of the string.
\<close>

unbundle bit_operations_syntax

section \<open>Reading a string word by word\<close>

text \<open>
  \<^verbatim>\<open>cudaReadStringUnaligned64\<close> keeps the last aligned word it loaded in \<^verbatim>\<open>tmp_buf\<close>.  A shift by 64
  bits, which happens when the string is aligned, yields 0 on the device (the shift amount is
  clamped), as \<open>push_bit 64\<close> does.  The result is the word read, the new \<^verbatim>\<open>tmp_buf\<close> and the new
  \<^verbatim>\<open>ptr_curr\<close>.
\<close>

definition align8 :: "nat \<Rightarrow> nat" where
  "align8 p = p - p mod 8"

definition cudaReadStringUnaligned64 ::
  "memory \<Rightarrow> bool \<Rightarrow> u64 \<Rightarrow> nat \<Rightarrow> nat \<Rightarrow> u64 \<times> u64 \<times> nat" where
  "cudaReadStringUnaligned64 m is_first_read tmp_buf ptr_curr ptr_end =
     (let tmp_buf = (if is_first_read then load64 m (align8 ptr_curr) else tmp_buf);
          res = drop_bit (8 * (ptr_curr mod 8)) tmp_buf;
          crosses = align8 ptr_curr \<noteq> align8 (ptr_end - 1);
          tmp_buf = (if crosses then load64 m (align8 ptr_curr + 8) else tmp_buf);
          res = (if crosses then res OR push_bit (8 * (8 - ptr_curr mod 8)) tmp_buf else res);
          res = (if ptr_end - ptr_curr < 8 then res AND mask (8 * (ptr_end - ptr_curr)) else res)
      in (res, tmp_buf, if ptr_curr + 8 < ptr_end then ptr_curr + 8 else ptr_end))"

text \<open>The word made of \<open>n\<close> bytes, little-endian.\<close>

definition load_bytes :: "memory \<Rightarrow> nat \<Rightarrow> nat \<Rightarrow> u64" where
  "load_bytes m a n = word_of_nat (ld_bytes m a n)"

lemma bit_load_bytes:
  "bit (load_bytes m a n) i \<longleftrightarrow> i < 64 \<and> i < 8 * n \<and> bit (m (a + i div 8)) (i mod 8)"
  by (simp add: load_bytes_def bit_of_nat_iff bit_ld_bytes)

lemma align8_same: "align8 p = align8 q \<Longrightarrow> q < align8 p + 8"
  by (simp add: align8_def)

lemma read_correct:
  assumes p: "p < e" and t: "first \<or> tmp = load64 m (align8 p)"
  shows "cudaReadStringUnaligned64 m first tmp p e =
    (load_bytes m p (min 8 (e - p)),
     load64 m (if align8 p \<noteq> align8 (e - 1) then align8 p + 8 else align8 p), min (p + 8) e)"
proof -
  let ?k = "p mod 8" and ?a = "align8 p"
  let ?w = "drop_bit (8 * ?k) (load64 m ?a)"
  let ?c = "?w OR push_bit (8 * (8 - ?k)) (load64 m (?a + 8))"
  have k: "?k < 8" "p = ?a + ?k" by (simp_all add: align8_def)
  have tmp: "(if first then load64 m ?a else tmp) = load64 m ?a" using t by auto
  have w: "bit ?w i \<longleftrightarrow> i + 8 * ?k < 64 \<and> bit (m (p + i div 8)) (i mod 8)" for i
  proof -
    have 1: "(8 * ?k + i) div 8 = ?k + i div 8" "(8 * ?k + i) mod 8 = i mod 8" by simp_all
    have 2: "?a + (?k + i div 8) = p + i div 8" using k(2) by simp
    show ?thesis unfolding bit_drop_bit_eq comp_def bit_load64 1 2 by (simp add: add.commute)
  qed
  have c: "bit ?c i \<longleftrightarrow> i < 64 \<and> bit (m (p + i div 8)) (i mod 8)" for i
  proof (cases "i + 8 * ?k < 64")
    case True
    then have "\<not> 8 * (8 - ?k) \<le> i" using k(1) by (simp add: algebra_simps)
    with True show ?thesis by (simp add: bit_or_iff bit_push_bit_iff w)
  next
    case False
    then have "8 * (8 - ?k) \<le> i" using k(1) by (simp add: algebra_simps)
    then obtain j where j: "i = 8 * (8 - ?k) + j" using le_Suc_ex by blast
    have 1: "i div 8 = 8 - ?k + j div 8" "i mod 8 = j mod 8" by (simp_all add: j)
    have 2: "?a + 8 + j div 8 = p + (8 - ?k + j div 8)" using k by simp
    have "bit ?c i \<longleftrightarrow> i < 64 \<and> j < 64 \<and> bit (m (p + (8 - ?k + j div 8))) (j mod 8)"
      using False by (simp add: bit_or_iff bit_push_bit_iff w bit_load64 2 j)
    then show ?thesis unfolding 1 using j by auto
  qed
  have "res = load_bytes m p (min 8 (e - p))"
    if r: "res = (let r = (if ?a \<noteq> align8 (e - 1) then ?c else ?w)
      in if e - p < 8 then r AND mask (8 * (e - p)) else r)" for res
  proof (rule bit_word_eqI)
    fix i assume i: "i < LENGTH(64)"
    show "bit res i = bit (load_bytes m p (min 8 (e - p))) i"
    proof (cases "?a = align8 (e - 1)")
      case True
      from align8_same [OF this] have "e - p \<le> 8 - ?k" using k p by simp
      then have "8 * (e - p) \<le> 64 - 8 * ?k" using k(1) by (simp add: algebra_simps)
      moreover have "res = (if e - p < 8 then ?w AND mask (8 * (e - p)) else ?w)"
        using True by (simp only: r Let_def simp_thms if_True if_False)
      ultimately show ?thesis using i k(1)
        by (auto simp: bit_and_iff bit_mask_iff w bit_load_bytes min_def)
    next
      case False
      then show ?thesis using i
        by (auto simp: r Let_def bit_and_iff bit_mask_iff c bit_load_bytes min_def)
    qed
  qed
  then show ?thesis
    by (auto simp: cudaReadStringUnaligned64_def Let_def tmp min_def)
qed


section \<open>MurmurHash\<close>

definition murmur_m :: u64 where
  "murmur_m = 0xc6a4a7935bd1e995"

function murmur_loop :: "memory \<Rightarrow> nat \<Rightarrow> nat \<Rightarrow> bool \<Rightarrow> u64 \<Rightarrow> u64 \<Rightarrow> u64" where
  "murmur_loop m data e is_first_read tmp_buf h =
     (if data \<noteq> e then
        (let is_complete_uint64 = (e - data \<ge> 8);
             r = cudaReadStringUnaligned64 m is_first_read tmp_buf data e;
             k = fst r;
             k = (if is_complete_uint64 then
                    (let k = k * murmur_m; k = k XOR drop_bit 47 k in k * murmur_m)
                  else k);
             h = (h XOR k) * murmur_m
         in murmur_loop m (snd (snd r)) e False (fst (snd r)) h)
      else h)"
  by pat_completeness auto
termination
  by (relation "measure (\<lambda>(m, data, e, f, tmp, h). if data = e then 0 else Suc (e - data))")
    (auto simp: cudaReadStringUnaligned64_def Let_def)

declare murmur_loop.simps [simp del]

definition cudaMurmurHash64 :: "memory \<Rightarrow> nat \<Rightarrow> size_t \<Rightarrow> 32 word \<Rightarrow> u64" where
  "cudaMurmurHash64 m s len seed =
     (let h = ucast seed XOR (word_of_nat len * murmur_m);
          h = murmur_loop m s (s + len) True 0 h;
          h = h XOR drop_bit 47 h;
          h = h * murmur_m
      in h XOR drop_bit 47 h)"

text \<open>The published hash, on the bytes of the string: eight at a time, then the rest.\<close>

definition le_word :: "8 word list \<Rightarrow> u64" where
  "le_word bs = word_of_nat (foldr (\<lambda>b n. unat b + 256 * n) bs 0)"

definition murmur_mix :: "u64 \<Rightarrow> u64" where
  "murmur_mix k = (let k = k * murmur_m in (k XOR drop_bit 47 k) * murmur_m)"

function murmur_body :: "u64 \<Rightarrow> 8 word list \<Rightarrow> u64" where
  "murmur_body h bs =
     (if length bs \<ge> 8 then murmur_body ((h XOR murmur_mix (le_word (take 8 bs))) * murmur_m) (drop 8 bs)
      else if bs = [] then h
      else (h XOR le_word bs) * murmur_m)"
  by pat_completeness auto
termination
  by (relation "measure (\<lambda>(h, bs). length bs)") auto

declare murmur_body.simps [simp del]

definition MurmurHash64A :: "8 word list \<Rightarrow> 32 word \<Rightarrow> u64" where
  "MurmurHash64A bs seed =
     (let h = murmur_body (ucast seed XOR (word_of_nat (length bs) * murmur_m)) bs;
          h = (h XOR drop_bit 47 h) * murmur_m
      in h XOR drop_bit 47 h)"

definition bytes_at :: "memory \<Rightarrow> nat \<Rightarrow> nat \<Rightarrow> 8 word list" where
  "bytes_at m s len = map m [s..<s + len]"

lemma length_bytes_at [simp]: "length (bytes_at m s len) = len"
  by (simp add: bytes_at_def)

lemma load_bytes_eq: "load_bytes m s n = le_word (bytes_at m s n)"
proof -
  have "ld_bytes m s n = foldr (\<lambda>b n. unat b + 256 * n) (bytes_at m s n) 0"
  proof (induction n arbitrary: s)
    case (Suc n)
    have "[s..<s + Suc n] = s # [Suc s..<Suc s + n]" by (simp add: upt_conv_Cons del: upt_Suc)
    with Suc show ?case by (simp add: bytes_at_def del: upt_Suc)
  qed (simp add: bytes_at_def)
  then show ?thesis by (simp add: load_bytes_def le_word_def)
qed

lemma take_bytes_at: "n \<le> len \<Longrightarrow> take n (bytes_at m s len) = bytes_at m s n"
  by (simp add: bytes_at_def take_map)

lemma drop_bytes_at: "n \<le> len \<Longrightarrow> drop n (bytes_at m s len) = bytes_at m (s + n) (len - n)"
  by (simp add: bytes_at_def drop_map)

lemma murmur_loop_body:
  assumes "s \<le> e" and "first \<or> s = e \<or> tmp = load64 m (align8 s)"
  shows "murmur_loop m s e first tmp h = murmur_body h (bytes_at m s (e - s))"
  using assms
proof (induction m s e first tmp h rule: murmur_loop.induct)
  case (1 m s e first tmp h)
  show ?case
  proof (cases "s = e")
    case True
    then show ?thesis by (simp add: murmur_loop.simps murmur_body.simps [of h "[]"] bytes_at_def)
  next
    case False
    then have lt: "s < e" using 1(2) by simp
    have r: "cudaReadStringUnaligned64 m first tmp s e =
      (load_bytes m s (min 8 (e - s)),
       load64 m (if align8 s \<noteq> align8 (e - 1) then align8 s + 8 else align8 s), min (s + 8) e)"
      by (rule read_correct [OF lt]) (use 1(3) False in auto)
    have t: "min (s + 8) e = e \<or>
      load64 m (if align8 s \<noteq> align8 (e - 1) then align8 s + 8 else align8 s) =
      load64 m (align8 (min (s + 8) e))"
    proof (cases "s + 8 < e")
      case True
      have "align8 s \<noteq> align8 (e - 1)"
        using True align8_same [of s "e - 1"] by (auto simp: align8_def)
      moreover have "align8 (s + 8) = align8 s + 8" by (simp add: align8_def)
      ultimately show ?thesis using True by simp
    qed simp
    note IH = 1(1) [OF False refl refl refl refl refl, unfolded r fst_conv snd_conv]
    show ?thesis
    proof (cases "e - s \<ge> 8")
      case True
      then have mn: "min (s + 8) e = s + 8" "min 8 (e - s) = 8" "s + 8 \<le> e" using lt by auto
      show ?thesis using IH t False True unfolding mn(1,2)
        by (simp add: murmur_loop.simps [of m s] r Let_def murmur_body.simps [of h "bytes_at m s (e - s)"]
          take_bytes_at drop_bytes_at load_bytes_eq murmur_mix_def mn)
    next
      case F: False
      then have mn: "min (s + 8) e = e" "min 8 (e - s) = e - s" using lt by auto
      have "bytes_at m s (e - s) \<noteq> []" using lt by (simp add: bytes_at_def)
      then show ?thesis using F False
        by (simp add: murmur_loop.simps [of m s] murmur_loop.simps [of m e e] r Let_def
            murmur_body.simps [of h "bytes_at m s (e - s)"] load_bytes_eq mn)
    qed
  qed
qed

lemma cudaMurmurHash64_eq: "cudaMurmurHash64 m s len seed = MurmurHash64A (bytes_at m s len) seed"
  by (simp add: cudaMurmurHash64_def MurmurHash64A_def murmur_loop_body)

end
