(* ===== verification/Cuda_Launch.thy ===== *)
theory Cuda_Launch
  imports Main "HOL-Library.Multiset"
begin

text \<open>
  Launching a kernel \<^verbatim>\<open>ker<<<grid, block>>>\<close> whose threads do not communicate: every thread of
  every block runs once, in an order the device is free to choose.  A kernel in which the thread
  with the global index \<open>i < n\<close> computes one cell of an array gives the same array in every order.
\<close>

definition thread_ids :: "nat \<Rightarrow> nat \<Rightarrow> (nat \<times> nat) list" where
  "thread_ids grid block = List.product [0..<grid] [0..<block]"

definition schedule :: "nat \<Rightarrow> nat \<Rightarrow> (nat \<times> nat) list \<Rightarrow> bool" where
  "schedule grid block order \<longleftrightarrow> mset order = mset (thread_ids grid block)"

definition launch :: "(nat \<Rightarrow> nat \<Rightarrow> 's \<Rightarrow> 's) \<Rightarrow> (nat \<times> nat) list \<Rightarrow> 's \<Rightarrow> 's" where
  "launch ker order s = fold (\<lambda>(b, t). ker b t) order s"

text \<open>The index \<^verbatim>\<open>blockIdx.x * blockDim.x + threadIdx.x\<close> of a thread, a 32-bit number.\<close>

definition grid_thread :: "nat \<Rightarrow> nat \<Rightarrow> nat" where
  "grid_thread blockIdx threadIdx = (blockIdx * 256 + threadIdx) mod 2 ^ 32"

lemma set_schedule: "schedule grid block order \<Longrightarrow> set order = {0..<grid} \<times> {0..<block}"
  by (metis schedule_def thread_ids_def set_mset_mset set_product set_upt)

lemma index_cover:
  fixes block :: nat
  assumes "n \<le> grid * block" and "i < n"
  shows "\<exists>b < grid. \<exists>t < block. i = b * block + t"
proof -
  have "0 < block" using assms by (cases block) auto
  moreover have "i div block < grid" using assms by (simp add: less_mult_imp_div_less)
  ultimately show ?thesis
    by (intro exI [of _ "i div block"] conjI exI [of _ "i mod block"]) auto
qed

locale cell_kernel =
  fixes ker :: "nat \<Rightarrow> nat \<Rightarrow> (nat \<Rightarrow> 'v) \<Rightarrow> nat \<Rightarrow> 'v"
    and n :: nat and block :: nat and f :: "nat \<Rightarrow> 'v" and limit :: nat
  assumes ker_cell: "\<lbrakk>b * block + t < limit; t < block\<rbrakk> \<Longrightarrow>
      ker b t s = (if b * block + t < n then s(b * block + t := f (b * block + t)) else s)"
begin

lemma fold_cells:
  assumes "\<forall>(b, t) \<in> set order. b * block + t < limit \<and> t < block"
  shows "launch ker order s i =
    (if i < n \<and> (\<exists>(b, t) \<in> set order. i = b * block + t) then f i else s i)"
  using assms
proof (induction order arbitrary: s)
  case Nil
  then show ?case by (simp add: launch_def)
next
  case (Cons p order)
  obtain b t where p: "p = (b, t)" by (cases p)
  have "launch ker (p # order) s = launch ker order (ker b t s)" by (simp add: launch_def p)
  moreover have "ker b t s = (if b * block + t < n then s(b * block + t := f (b * block + t)) else s)"
    using Cons.prems by (intro ker_cell) (auto simp: p)
  ultimately show ?case using Cons.IH [of "ker b t s"] Cons.prems by (auto simp: p)
qed

lemma launch_cells:
  assumes "schedule grid block order" and "grid * block \<le> limit" and "n \<le> grid * block"
  shows "launch ker order s = (\<lambda>i. if i < n then f i else s i)"
proof
  fix i
  have o: "set order = {0..<grid} \<times> {0..<block}" by (rule set_schedule [OF assms(1)])
  have "b * block + t < limit" if "b < grid" "t < block" for b t
  proof -
    have "b * block + t < (b + 1) * block" using that by simp
    also have "\<dots> \<le> grid * block" using that by (intro mult_right_mono) auto
    finally show ?thesis using assms(2) by simp
  qed
  then have "launch ker order s i = (if i < n \<and> (\<exists>(b, t) \<in> set order. i = b * block + t) then f i else s i)"
    by (intro fold_cells) (auto simp: o)
  then show "launch ker order s i = (if i < n then f i else s i)"
    using index_cover [OF assms(3), of i] by (force simp: o)
qed

end

text \<open>A kernel that writes the cell \<open>pos i\<close> in the thread \<open>i\<close>.\<close>

locale scatter_kernel =
  fixes ker :: "nat \<Rightarrow> nat \<Rightarrow> (nat \<Rightarrow> 'v) \<Rightarrow> nat \<Rightarrow> 'v"
    and n :: nat and block :: nat and pos :: "nat \<Rightarrow> nat" and f :: "nat \<Rightarrow> 'v" and limit :: nat
  assumes ker_scatter: "\<lbrakk>b * block + t < limit; t < block\<rbrakk> \<Longrightarrow>
      ker b t s = (if b * block + t < n then s(pos (b * block + t) := f (b * block + t)) else s)"
    and pos_inj: "\<lbrakk>i < n; j < n; pos i = pos j\<rbrakk> \<Longrightarrow> i = j"
begin

lemma fold_scatter:
  assumes "\<forall>(b, t) \<in> set order. b * block + t < limit \<and> t < block"
  shows "(\<forall>i < n. launch ker order s (pos i) =
      (if \<exists>(b, t) \<in> set order. i = b * block + t then f i else s (pos i))) \<and>
    (\<forall>x. (\<forall>i < n. x \<noteq> pos i) \<longrightarrow> launch ker order s x = s x)"
  using assms
proof (induction order arbitrary: s)
  case Nil
  then show ?case by (simp add: launch_def)
next
  case (Cons p order)
  obtain b t where p: "p = (b, t)" by (cases p)
  have l: "launch ker (p # order) s = launch ker order (ker b t s)" by (simp add: launch_def p)
  have k: "ker b t s = (if b * block + t < n then s(pos (b * block + t) := f (b * block + t)) else s)"
    using Cons.prems by (intro ker_scatter) (auto simp: p)
  show ?case
    using Cons.IH [of "ker b t s"] Cons.prems pos_inj unfolding l k by (auto simp: p)
qed

lemma launch_scatter:
  assumes "schedule grid block order" and "grid * block \<le> limit" and "n \<le> grid * block"
  shows "i < n \<Longrightarrow> launch ker order s (pos i) = f i"
    and "(\<And>i. i < n \<Longrightarrow> x \<noteq> pos i) \<Longrightarrow> launch ker order s x = s x"
proof -
  have o: "set order = {0..<grid} \<times> {0..<block}" by (rule set_schedule [OF assms(1)])
  have "b * block + t < limit" if "b < grid" "t < block" for b t
  proof -
    have "b * block + t < (b + 1) * block" using that by simp
    also have "\<dots> \<le> grid * block" using that by (intro mult_right_mono) auto
    finally show ?thesis using assms(2) by simp
  qed
  then have all: "\<forall>(b, t) \<in> set order. b * block + t < limit \<and> t < block" by (auto simp: o)
  note fs = fold_scatter [OF all, of s]
  show "i < n \<Longrightarrow> launch ker order s (pos i) = f i"
    using fs index_cover [OF assms(3), of i] by (force simp: o)
  show "(\<And>i. i < n \<Longrightarrow> x \<noteq> pos i) \<Longrightarrow> launch ker order s x = s x" using fs by blast
qed

end

lemma launch_proj:
  assumes "\<And>b t s. f (ker b t s) = ker' b t (f s)"
  shows "f (launch ker order s) = launch ker' order (f s)"
  unfolding launch_def by (induction order arbitrary: s) (auto simp: assms)

lemma grid_256: "n < 2 ^ 32 \<Longrightarrow> n \<le> (n div 256 + 1) * 256" "n < 2 ^ 32 \<Longrightarrow> (n div 256 + 1) * 256 \<le> 2 ^ 32"
  for n :: nat
proof -
  show "n \<le> (n div 256 + 1) * 256" by simp
  assume "n < 2 ^ 32"
  then have "n div 256 < 2 ^ 24" by simp
  then show "(n div 256 + 1) * 256 \<le> 2 ^ 32" by simp
qed

end
