(* ===== verification/Cuda_Hash.thy ===== *)
theory Cuda_Hash
  imports City_Hash Murmur_Hash Cuda_Launch
begin

text \<open>
  CityHash of the device code (\<^verbatim>\<open>City_Hash/cudaCityHash.cuh\<close>) and the two kernels that hash the
  strings of a column (\<^verbatim>\<open>cudaCalcCityHash64.cu\<close>, \<^verbatim>\<open>cudaCalcMurmurHash64.cu\<close>).
\<close>

unbundle bit_operations_syntax

section \<open>CityHash on the device\<close>

type_synonym cuda_uint128 = "u64 \<times> u64"

definition cuda_k0 :: u64 where "cuda_k0 = 0xc3a5c85c97cb3127"
definition cuda_k1 :: u64 where "cuda_k1 = 0xb492b66fbe98f273"
definition cuda_k2 :: u64 where "cuda_k2 = 0x9ae16a3b2f90404f"
definition cuda_k3 :: u64 where "cuda_k3 = 0xc949d7c7509e6557"

definition cuda_Fetch64 :: "memory \<Rightarrow> nat \<Rightarrow> u64" where
  "cuda_Fetch64 m p = load64 m p"

definition cuda_Fetch32 :: "memory \<Rightarrow> nat \<Rightarrow> 32 word" where
  "cuda_Fetch32 m p = load32 m p"

definition cuda_Rotate :: "u64 \<Rightarrow> nat \<Rightarrow> u64" where
  "cuda_Rotate val shift =
     (if shift = 0 then val else drop_bit shift val OR push_bit (64 - shift) val)"

definition cuda_RotateByAtLeast1 :: "u64 \<Rightarrow> nat \<Rightarrow> u64" where
  "cuda_RotateByAtLeast1 val shift = drop_bit shift val OR push_bit (64 - shift) val"

definition cuda_ShiftMix :: "u64 \<Rightarrow> u64" where
  "cuda_ShiftMix val = val XOR drop_bit 47 val"

definition cuda_Hash128to64 :: "cuda_uint128 \<Rightarrow> u64" where
  "cuda_Hash128to64 x =
     (let kMul = 0x9ddfea08eb382d69;
          a = (fst x XOR snd x) * kMul;
          a = a XOR drop_bit 47 a;
          b = (snd x XOR a) * kMul;
          b = b XOR drop_bit 47 b
      in b * kMul)"

definition cuda_HashLen16 :: "u64 \<Rightarrow> u64 \<Rightarrow> u64" where
  "cuda_HashLen16 u v = cuda_Hash128to64 (u, v)"

definition cuda_HashLen0to16 :: "memory \<Rightarrow> nat \<Rightarrow> size_t \<Rightarrow> u64" where
  "cuda_HashLen0to16 m s len =
     (if len > 8 then
        (let a = cuda_Fetch64 m s;
             b = cuda_Fetch64 m (s + len - 8)
         in cuda_HashLen16 a (cuda_RotateByAtLeast1 (b + word_of_nat len) len) XOR b)
      else if len \<ge> 4 then
        (let a = ucast (cuda_Fetch32 m s) :: u64;
             b = ucast (cuda_Fetch32 m (s + len - 4)) :: u64
         in cuda_HashLen16 (word_of_nat len + push_bit 3 a) b)
      else if len > 0 then
        (let a = m s; b = m (s + len div 2); c = m (s + len - 1);
             y = ucast a + push_bit 8 (ucast b) :: 32 word;
             z = word_of_nat len + push_bit 2 (ucast c) :: 32 word
         in cuda_ShiftMix (ucast y * cuda_k2 XOR ucast z * cuda_k3) * cuda_k2)
      else cuda_k2)"

definition cuda_HashLen17to32 :: "memory \<Rightarrow> nat \<Rightarrow> size_t \<Rightarrow> u64" where
  "cuda_HashLen17to32 m s len =
     (let a = cuda_Fetch64 m s * cuda_k1;
          b = cuda_Fetch64 m (s + 8);
          c = cuda_Fetch64 m (s + len - 8) * cuda_k2;
          d = cuda_Fetch64 m (s + len - 16) * cuda_k0
      in cuda_HashLen16 (cuda_Rotate (a - b) 43 + cuda_Rotate c 30 + d)
           (a + cuda_Rotate (b XOR cuda_k3) 20 - c + word_of_nat len))"

definition cuda_WeakHash :: "u64 \<Rightarrow> u64 \<Rightarrow> u64 \<Rightarrow> u64 \<Rightarrow> u64 \<Rightarrow> u64 \<Rightarrow> cuda_uint128" where
  "cuda_WeakHash w x y z a b =
     (let a = a + w;
          b = cuda_Rotate (b + a + z) 21;
          c = a;
          a = a + x;
          a = a + y;
          b = b + cuda_Rotate a 44
      in (a + z, b + c))"

definition cuda_WeakHashLen32WithSeeds :: "memory \<Rightarrow> nat \<Rightarrow> u64 \<Rightarrow> u64 \<Rightarrow> cuda_uint128" where
  "cuda_WeakHashLen32WithSeeds m s a b =
     cuda_WeakHash (cuda_Fetch64 m s) (cuda_Fetch64 m (s + 8)) (cuda_Fetch64 m (s + 16))
       (cuda_Fetch64 m (s + 24)) a b"

definition cuda_HashLen33to64 :: "memory \<Rightarrow> nat \<Rightarrow> size_t \<Rightarrow> u64" where
  "cuda_HashLen33to64 m s len =
     (let z = cuda_Fetch64 m (s + 24);
          a = cuda_Fetch64 m s + (word_of_nat len + cuda_Fetch64 m (s + len - 16)) * cuda_k0;
          b = cuda_Rotate (a + z) 52;
          c = cuda_Rotate a 37;
          a = a + cuda_Fetch64 m (s + 8);
          c = c + cuda_Rotate a 7;
          a = a + cuda_Fetch64 m (s + 16);
          vf = a + z;
          vs = b + cuda_Rotate a 31 + c;
          a = cuda_Fetch64 m (s + 16) + cuda_Fetch64 m (s + len - 32);
          z = cuda_Fetch64 m (s + len - 8);
          b = cuda_Rotate (a + z) 52;
          c = cuda_Rotate a 37;
          a = a + cuda_Fetch64 m (s + len - 24);
          c = c + cuda_Rotate a 7;
          a = a + cuda_Fetch64 m (s + len - 16);
          wf = a + z;
          ws = b + cuda_Rotate a 31 + c;
          r = cuda_ShiftMix ((vf + ws) * cuda_k2 + (wf + vs) * cuda_k0)
      in cuda_ShiftMix (r * cuda_k0 + vs) * cuda_k2)"

text \<open>The state \<^verbatim>\<open>x, y, z, v, w\<close> of the long loop, and one round of it on the 64 bytes at \<^verbatim>\<open>s\<close>.\<close>

type_synonym cuda_state = "u64 \<times> u64 \<times> u64 \<times> cuda_uint128 \<times> cuda_uint128"

definition cuda_round :: "memory \<Rightarrow> nat \<Rightarrow> cuda_state \<Rightarrow> cuda_state" where
  "cuda_round m s = (\<lambda>(x, y, z, v, w).
     (let x = cuda_Rotate (x + y + fst v + cuda_Fetch64 m (s + 16)) 37 * cuda_k1;
          y = cuda_Rotate (y + snd v + cuda_Fetch64 m (s + 48)) 42 * cuda_k1;
          x = x XOR snd w;
          y = y XOR fst v;
          z = cuda_Rotate (z XOR fst w) 33;
          v = cuda_WeakHashLen32WithSeeds m s (snd v * cuda_k1) (x + fst w);
          w = cuda_WeakHashLen32WithSeeds m (s + 32) (z + snd w) y
      in (z, y, x, v, w)))"

text \<open>The loop runs on a positive multiple of 64, so \<^verbatim>\<open>len -= 64\<close> never wraps.\<close>

fun cuda_loop :: "memory \<Rightarrow> nat \<Rightarrow> size_t \<Rightarrow> cuda_state \<Rightarrow> cuda_state" where
  "cuda_loop m s len st =
     (let st = cuda_round m s st; s = s + 64; len = len - 64
      in if len \<noteq> 0 then cuda_loop m s len st else st)"

declare cuda_loop.simps [simp del]

definition cuda_long_init :: "memory \<Rightarrow> nat \<Rightarrow> size_t \<Rightarrow> cuda_state" where
  "cuda_long_init m s len =
     (let x = cuda_Fetch64 m s;
          y = cuda_Fetch64 m (s + len - 16) XOR cuda_k1;
          z = cuda_Fetch64 m (s + len - 56) XOR cuda_k0;
          v = cuda_WeakHashLen32WithSeeds m (s + len - 64) (word_of_nat len) y;
          w = cuda_WeakHashLen32WithSeeds m (s + len - 32) (word_of_nat len * cuda_k1) cuda_k0;
          z = z + cuda_ShiftMix (snd v) * cuda_k1;
          x = cuda_Rotate (z + x) 39 * cuda_k1;
          y = cuda_Rotate y 33 * cuda_k1
      in (x, y, z, v, w))"

definition cudaCityHash64 :: "memory \<Rightarrow> nat \<Rightarrow> size_t \<Rightarrow> u64" where
  "cudaCityHash64 m s len =
     (if len \<le> 32 then
        (if len \<le> 16 then cuda_HashLen0to16 m s len else cuda_HashLen17to32 m s len)
      else if len \<le> 64 then cuda_HashLen33to64 m s len
      else
        (case cuda_loop m s ((len - 1) div 64 * 64) (cuda_long_init m s len) of
           (x, y, z, v, w) \<Rightarrow>
             cuda_HashLen16 (cuda_HashLen16 (fst v) (fst w) + cuda_ShiftMix y * cuda_k1 + z)
               (cuda_HashLen16 (snd v) (snd w) + x)))"

section \<open>The device code computes the hash of the server\<close>

lemmas city_consts = cuda_k0_def cuda_k1_def cuda_k2_def cuda_k3_def
  City_k0_def City_k1_def City_k2_def City_k3_def

lemma cuda_city_basics:
  "cuda_k0 = City_k0" "cuda_k1 = City_k1" "cuda_k2 = City_k2" "cuda_k3 = City_k3"
  "cuda_Fetch64 = City_Fetch64" "cuda_Fetch32 = City_Fetch32" "cuda_Rotate = City_Rotate"
  "cuda_RotateByAtLeast1 = City_RotateByAtLeast1" "cuda_ShiftMix = City_ShiftMix"
  "cuda_HashLen16 = City_HashLen16" "cuda_WeakHash = City_WeakHash"
  by (auto simp: city_consts cuda_Fetch64_def City_Fetch64_def cuda_Fetch32_def City_Fetch32_def
      cuda_Rotate_def City_Rotate_def cuda_RotateByAtLeast1_def City_RotateByAtLeast1_def
      cuda_ShiftMix_def City_ShiftMix_def cuda_HashLen16_def City_HashLen16_def
      cuda_Hash128to64_def City_Hash128to64_def cuda_WeakHash_def City_WeakHash_def intro!: ext)

lemma cuda_city_blocks:
  "cuda_HashLen0to16 = City_HashLen0to16" "cuda_HashLen17to32 = City_HashLen17to32"
  "cuda_HashLen33to64 = City_HashLen33to64"
  "cuda_WeakHashLen32WithSeeds = City_WeakHashLen32WithSeeds"
  by (simp_all only: fun_eq_iff cuda_HashLen0to16_def City_HashLen0to16_def cuda_HashLen17to32_def
      City_HashLen17to32_def cuda_HashLen33to64_def City_HashLen33to64_def
      cuda_WeakHashLen32WithSeeds_def City_WeakHashLen32WithSeeds_def cuda_city_basics simp_thms)

lemma cuda_city_round: "cuda_round = City_round"
  by (simp only: fun_eq_iff cuda_round_def City_round_def cuda_city_basics cuda_city_blocks simp_thms)

lemma cuda_city_loop: "cuda_loop m s len st = City_loop m s len st"
proof (induction m s len st rule: City_loop.induct)
  case (1 m s len st)
  show ?case
    using 1 [OF refl refl refl]
    by (simp add: cuda_loop.simps [of m s] City_loop.simps [of m s] cuda_city_round Let_def)
qed

lemma cuda_city_eq: "cudaCityHash64 = CityHash64"
  by (simp only: fun_eq_iff cudaCityHash64_def CityHash64_def cuda_city_basics cuda_city_blocks
      cuda_city_loop cuda_long_init_def City_long_init_def simp_thms)

section \<open>Hashing a column\<close>

text \<open>
  One thread of \<^verbatim>\<open>kerCalcHash\<close>: \<open>arr\<close> is the address of the bytes of the column, \<open>begs\<close> and \<open>lens\<close>
  its offsets and lengths.  A length that is not to be interpreted as such counts the terminating
  zero byte.  The hash with all bits set is reserved for empty buckets and replaced by 0.
\<close>

definition hash_len :: "bool \<Rightarrow> 32 word \<Rightarrow> 32 word" where
  "hash_len interpret_as_lengths len = (if interpret_as_lengths then len else len - 1)"

definition no_empty :: "u64 \<Rightarrow> u64" where
  "no_empty h = (if h = 0xFFFFFFFFFFFFFFFF then 0 else h)"

definition kerCalcHash_City ::
  "nat \<Rightarrow> memory \<Rightarrow> nat \<Rightarrow> (nat \<Rightarrow> 32 word) \<Rightarrow> bool \<Rightarrow> (nat \<Rightarrow> 32 word) \<Rightarrow> nat \<Rightarrow> nat \<Rightarrow>
   (nat \<Rightarrow> u64) \<Rightarrow> nat \<Rightarrow> u64" where
  "kerCalcHash_City str_num m arr begs interpret_as_lengths lens blockIdx threadIdx res_hash =
     (let i = (blockIdx * 256 + threadIdx) mod 2 ^ 32
      in if \<not> i < str_num then res_hash
         else
           (let len = hash_len interpret_as_lengths (lens i);
                h = cudaCityHash64 m (arr + unat (begs i)) (unat len)
            in res_hash(i := no_empty h)))"

definition kerCalcHash_Murmur ::
  "nat \<Rightarrow> memory \<Rightarrow> nat \<Rightarrow> (nat \<Rightarrow> 32 word) \<Rightarrow> bool \<Rightarrow> (nat \<Rightarrow> 32 word) \<Rightarrow> 32 word \<Rightarrow> nat \<Rightarrow> nat \<Rightarrow>
   (nat \<Rightarrow> u64) \<Rightarrow> nat \<Rightarrow> u64" where
  "kerCalcHash_Murmur str_num m arr begs interpret_as_lengths lens seed blockIdx threadIdx res_hash =
     (let i = (blockIdx * 256 + threadIdx) mod 2 ^ 32
      in if \<not> i < str_num then res_hash
         else
           (let len = hash_len interpret_as_lengths (lens i);
                h = cudaMurmurHash64 m (arr + unat (begs i)) (unat len) seed
            in res_hash(i := no_empty h)))"

text \<open>The launches: \<open>order\<close> is the order in which the device runs the threads.\<close>

definition cudaCalcCityHash64 ::
  "(nat \<times> nat) list \<Rightarrow> nat \<Rightarrow> memory \<Rightarrow> nat \<Rightarrow> bool \<Rightarrow> (nat \<Rightarrow> 32 word) \<Rightarrow> (nat \<Rightarrow> 32 word) \<Rightarrow>
   (nat \<Rightarrow> u64) \<Rightarrow> nat \<Rightarrow> u64" where
  "cudaCalcCityHash64 order str_num m buf interpret_as_lengths lens offsets res_hash =
     launch (kerCalcHash_City str_num m buf offsets interpret_as_lengths lens) order res_hash"

definition cudaCalcMurmurHash64 ::
  "(nat \<times> nat) list \<Rightarrow> nat \<Rightarrow> memory \<Rightarrow> nat \<Rightarrow> bool \<Rightarrow> (nat \<Rightarrow> 32 word) \<Rightarrow> (nat \<Rightarrow> 32 word) \<Rightarrow>
   32 word \<Rightarrow> (nat \<Rightarrow> u64) \<Rightarrow> nat \<Rightarrow> u64" where
  "cudaCalcMurmurHash64 order str_num m buf interpret_as_lengths lens offsets seed res_hash =
     launch (kerCalcHash_Murmur str_num m buf offsets interpret_as_lengths lens seed) order res_hash"

interpretation city_kernel: cell_kernel
  "kerCalcHash_City str_num m arr begs as_len lens" str_num 256
  "\<lambda>i. no_empty (CityHash64 m (arr + unat (begs i)) (unat (hash_len as_len (lens i))))" "2 ^ 32"
  for str_num m arr begs as_len lens
  by unfold_locales (simp add: kerCalcHash_City_def Let_def cuda_city_eq)

interpretation murmur_kernel: cell_kernel
  "kerCalcHash_Murmur str_num m arr begs as_len lens seed" str_num 256
  "\<lambda>i. no_empty (MurmurHash64A (bytes_at m (arr + unat (begs i)) (unat (hash_len as_len (lens i)))) seed)"
  "2 ^ 32"
  for str_num m arr begs as_len lens seed
  by unfold_locales (simp add: kerCalcHash_Murmur_def Let_def cudaMurmurHash64_eq)

section \<open>Properties\<close>

text \<open>
  (C10) The device hashes a column as the server would: whatever the order in which the threads run,
  the hash of every string is that of \<^verbatim>\<open>CityHash64\<close> of the server on the same bytes (with the
  reserved value replaced), and no other cell of the result is written.
\<close>

theorem cudaCalcCityHash64_correct:
  assumes "str_num < 2 ^ 32" and "schedule (str_num div 256 + 1) 256 order"
  shows "cudaCalcCityHash64 order str_num m buf as_len lens offsets res_hash =
    (\<lambda>i. if i < str_num
         then no_empty (CityHash64 m (buf + unat (offsets i)) (unat (hash_len as_len (lens i))))
         else res_hash i)"
  unfolding cudaCalcCityHash64_def
  by (rule city_kernel.launch_cells [OF assms(2)])
    (use grid_256 [OF assms(1)] in simp_all)

text \<open>
  (C11) The Murmur kernel computes, for every string of the column and in every order of the threads,
  the published MurmurHash64A of its bytes: the alignment of the string and the bytes around it,
  which the word-wise reader loads as well, do not matter.
\<close>

theorem cudaCalcMurmurHash64_correct:
  assumes "str_num < 2 ^ 32" and "schedule (str_num div 256 + 1) 256 order"
  shows "cudaCalcMurmurHash64 order str_num m buf as_len lens offsets seed res_hash =
    (\<lambda>i. if i < str_num
         then no_empty (MurmurHash64A
                (bytes_at m (buf + unat (offsets i)) (unat (hash_len as_len (lens i)))) seed)
         else res_hash i)"
  unfolding cudaCalcMurmurHash64_def
  by (rule murmur_kernel.launch_cells [OF assms(2)])
    (use grid_256 [OF assms(1)] in simp_all)

text \<open>
  (C12) Strings with the same bytes have the same 64-bit and 128-bit CityHash, wherever they are in
  memory: no byte outside the string is read, also by the loop over 64-byte chunks and the tail.
\<close>

theorem CityHash_content:
  assumes "\<forall>i < len. m (s + i) = m' (s' + i)"
  shows "CityHash64 m s len = CityHash64 m' s' len \<and> CityHash128 m s len = CityHash128 m' s' len"
  using CityHash64_agree CityHash128_agree assms by (simp add: agree_def)

theorem cudaCalcCityHash64_correct_witness:
  "cudaCalcCityHash64 (thread_ids 1 256) 2 word_of_nat 100 True (\<lambda>_. 5)
       (\<lambda>i. word_of_nat (8 * i)) (\<lambda>_. 7) 1 =
     no_empty (CityHash64 word_of_nat 108 5)"
  using cudaCalcCityHash64_correct [of 2 "thread_ids 1 256" word_of_nat 100 True "\<lambda>_. 5"
      "\<lambda>i. word_of_nat (8 * i)" "\<lambda>_. 7"]
  by (simp add: schedule_def hash_len_def)

theorem cudaCalcMurmurHash64_correct_witness:
  "cudaCalcMurmurHash64 (thread_ids 1 256) 2 word_of_nat 100 False (\<lambda>_. 6) (\<lambda>i. word_of_nat (8 * i)) 1 (\<lambda>_. 7) 1 =
     no_empty (MurmurHash64A (bytes_at word_of_nat 108 5) 1)"
  using cudaCalcMurmurHash64_correct [of 2 "thread_ids 1 256" word_of_nat 100 False "\<lambda>_. 6"
      "\<lambda>i. word_of_nat (8 * i)" 1 "\<lambda>_. 7"]
  by (simp add: schedule_def hash_len_def)

theorem CityHash_content_witness:
  "CityHash64 (\<lambda>x. word_of_nat x) 0 70 = CityHash64 (\<lambda>x. word_of_nat (x - 1000)) 1000 70"
  using CityHash_content [of 70 "\<lambda>x. word_of_nat x" 0 "\<lambda>x. word_of_nat (x - 1000)" 1000] by simp

end
