(* ===== verification/Int_Hash.thy ===== *)
theory Int_Hash
  imports "HOL-Library.Word"
begin

text \<open>
  The integer hashes of \<^verbatim>\<open>Common/HashTable/Hash.h\<close> and their device version
  (\<^verbatim>\<open>Common/Cuda/CudaIntHash32.h\<close>).
\<close>

unbundle bit_operations_syntax

definition intHash64 :: "64 word \<Rightarrow> 64 word" where
  "intHash64 x =
     (let x = x XOR drop_bit 33 x;
          x = x * 0xff51afd7ed558ccd;
          x = x XOR drop_bit 33 x;
          x = x * 0xc4ceb9fe1a85ec53
      in x XOR drop_bit 33 x)"

definition intHash32_key :: "64 word \<Rightarrow> 64 word \<Rightarrow> 64 word" where
  "intHash32_key salt key =
     (let key = key XOR salt;
          key = NOT key + push_bit 18 key;
          key = key XOR (drop_bit 31 key OR push_bit 33 key);
          key = key * 21;
          key = key XOR (drop_bit 11 key OR push_bit 53 key);
          key = key + push_bit 6 key
      in key XOR (drop_bit 22 key OR push_bit 42 key))"

definition intHash32 :: "64 word \<Rightarrow> 64 word \<Rightarrow> 32 word" where
  "intHash32 salt key = ucast (intHash32_key salt key)"

definition cudaIntHash32 :: "64 word \<Rightarrow> 64 word \<Rightarrow> 32 word" where
  "cudaIntHash32 salt key =
     (let key = key XOR salt;
          key = NOT key + push_bit 18 key;
          key = key XOR (drop_bit 31 key OR push_bit 33 key);
          key = key * 21;
          key = key XOR (drop_bit 11 key OR push_bit 53 key);
          key = key + push_bit 6 key;
          key = key XOR (drop_bit 22 key OR push_bit 42 key)
      in ucast key)"

lemma cudaIntHash32_eq: "cudaIntHash32 = intHash32"
  by (simp add: fun_eq_iff cudaIntHash32_def intHash32_def intHash32_key_def Let_def)

lemma xorshift_involution:
  assumes "32 \<le> n"
  shows "(let y = x XOR drop_bit n x in y XOR drop_bit n y) = (x :: 64 word)"
proof (rule bit_word_eqI)
  fix i assume "i < LENGTH(64)"
  show "bit (let y = x XOR drop_bit n x in y XOR drop_bit n y) i = bit x i"
    using assms by (auto simp: Let_def bit_xor_iff bit_drop_bit_eq dest: bit_imp_le_length)
qed

lemma inj_xorshift: "32 \<le> n \<Longrightarrow> inj (\<lambda>x :: 64 word. x XOR drop_bit n x)"
  by (rule injI) (metis (no_types) xorshift_involution)

lemma inj_mult:
  assumes "(a :: 64 word) * b = 1"
  shows "inj (\<lambda>x. x * a)"
proof (rule injI)
  fix x y assume "x * a = y * a"
  then have "x * (a * b) = y * (a * b)" by (simp only: mult.assoc [symmetric])
  then show "x = y" by (simp add: assms)
qed

text \<open>(C13) \<^verbatim>\<open>intHash64\<close> is a permutation of the 64-bit keys: different keys never share all of their hash.\<close>

theorem intHash64_bij: "bij intHash64"
proof -
  have s: "inj (\<lambda>x :: 64 word. x XOR drop_bit 33 x)" by (rule inj_xorshift) simp
  have a: "inj (\<lambda>x :: 64 word. x * 0xff51afd7ed558ccd)"
    by (rule inj_mult [of _ "0x4f74430c22a54005"]) simp
  have b: "inj (\<lambda>x :: 64 word. x * 0xc4ceb9fe1a85ec53)"
    by (rule inj_mult [of _ "0x9cb4b2f8129337db"]) simp
  have e: "intHash64 = (\<lambda>x. x XOR drop_bit 33 x) \<circ> (\<lambda>x. x * 0xc4ceb9fe1a85ec53) \<circ>
      (\<lambda>x. x XOR drop_bit 33 x) \<circ> (\<lambda>x. x * 0xff51afd7ed558ccd) \<circ> (\<lambda>x. x XOR drop_bit 33 x)"
    by (rule ext) (simp only: intHash64_def Let_def comp_apply)
  have i: "inj intHash64" unfolding e by (intro inj_compose s a b)
  moreover have "surj intHash64" by (rule finite_UNIV_inj_surj [OF finite i])
  ultimately show ?thesis by (rule bijI)
qed

end
