(* ===== verification/Cuda_Atomics.thy ===== *)
theory Cuda_Atomics
  imports "HOL-Library.Word"
begin

text \<open>
  The atomic operations on 8-bit and 16-bit objects of \<^verbatim>\<open>Common/Cuda/CudaAtomics.cuh\<close>, built on the
  32-bit operations of the device.  A 32-bit atomic operation is one step on the containing word.
\<close>

unbundle bit_operations_syntax

section \<open>Bytes of a word\<close>

definition byte_of :: "32 word \<Rightarrow> nat \<Rightarrow> 8 word" where
  "byte_of w i = ucast (drop_bit (8 * i) w)"

definition word_of_bytes :: "8 word \<Rightarrow> 8 word \<Rightarrow> 8 word \<Rightarrow> 8 word \<Rightarrow> 32 word" where
  "word_of_bytes b0 b1 b2 b3 =
     ucast b0 OR push_bit 8 (ucast b1) OR push_bit 16 (ucast b2) OR push_bit 24 (ucast b3)"

text \<open>\<^verbatim>\<open>__byte_perm\<close>: each nibble of the selector picks one of the eight bytes of its arguments.\<close>

definition perm_byte :: "32 word \<Rightarrow> 32 word \<Rightarrow> 32 word \<Rightarrow> nat \<Rightarrow> 8 word" where
  "perm_byte x y s i =
     (let n = unat (drop_bit (4 * i) s AND 7) in if n < 4 then byte_of x n else byte_of y (n - 4))"

definition byte_perm :: "32 word \<Rightarrow> 32 word \<Rightarrow> 32 word \<Rightarrow> 32 word" where
  "byte_perm x y s =
     word_of_bytes (perm_byte x y s 0) (perm_byte x y s 1) (perm_byte x y s 2) (perm_byte x y s 3)"

definition max8_selector :: "nat \<Rightarrow> 32 word" where
  "max8_selector a = [0x3214, 0x3240, 0x3410, 0x4210] ! a"

definition max8_byte :: "nat \<Rightarrow> 32 word \<Rightarrow> 8 word" where
  "max8_byte a old = ucast (byte_perm old 0 (word_of_nat a OR 0x4440))"

definition max8_new :: "nat \<Rightarrow> 8 word \<Rightarrow> 32 word \<Rightarrow> 32 word" where
  "max8_new a val old = byte_perm old (ucast (max val (max8_byte a old))) (max8_selector a)"

text \<open>
  \<^verbatim>\<open>atomicMax<UInt8>\<close> for the byte at offset \<open>a\<close> of its word.  \<open>old\<close> is the word read first, \<open>ws\<close> are the
  contents of the word at the moments of the compare-and-swaps, as the other threads left them.
  The result is the word on which the operation took effect, the word it left, and the byte it
  returns; \<open>None\<close> when every compare-and-swap in \<open>ws\<close> failed.
\<close>

fun atomicMax_UInt8 ::
  "nat \<Rightarrow> 8 word \<Rightarrow> 32 word \<Rightarrow> 32 word list \<Rightarrow> (32 word \<times> 32 word \<times> 8 word) option" where
  "atomicMax_UInt8 a val old ws =
     (let assumed = old; new = max8_new a val old
      in if new = old then Some (old, old, max8_byte a old)
         else
           (case ws of
              [] \<Rightarrow> None
            | w # ws' \<Rightarrow>
                if w = assumed then Some (assumed, new, max8_byte a assumed)
                else atomicMax_UInt8 a val w ws'))"

declare atomicMax_UInt8.simps [simp del]

lemma bit_byte_of: "bit (byte_of w i) n \<longleftrightarrow> n < 8 \<and> bit w (8 * i + n)"
  by (simp add: byte_of_def bit_simps)

lemma byte_of_word_of_bytes:
  "byte_of (word_of_bytes b0 b1 b2 b3) 0 = b0" "byte_of (word_of_bytes b0 b1 b2 b3) (Suc 0) = b1"
  "byte_of (word_of_bytes b0 b1 b2 b3) 2 = b2" "byte_of (word_of_bytes b0 b1 b2 b3) 3 = b3"
  by (rule bit_word_eqI, auto simp: bit_byte_of word_of_bytes_def bit_simps dest: bit_imp_le_length)+

lemma word_eq_bytes:
  assumes "\<And>i. i < 4 \<Longrightarrow> byte_of w i = byte_of v i"
  shows "w = (v :: 32 word)"
proof (rule bit_word_eqI)
  fix n assume n: "n < LENGTH(32)"
  have "n div 8 < 4" using n by simp
  from assms [OF this] have "bit (byte_of w (n div 8)) (n mod 8) = bit (byte_of v (n div 8)) (n mod 8)" by simp
  then show "bit w n = bit v n" by (simp add: bit_byte_of)
qed

lemma perm_byte_max8:
  "perm_byte x y 0x3214 0 = byte_of y 0" "perm_byte x y 0x3214 (Suc 0) = byte_of x 1"
  "perm_byte x y 0x3214 2 = byte_of x 2" "perm_byte x y 0x3214 3 = byte_of x 3"
  "perm_byte x y 0x3240 0 = byte_of x 0" "perm_byte x y 0x3240 (Suc 0) = byte_of y 0"
  "perm_byte x y 0x3240 2 = byte_of x 2" "perm_byte x y 0x3240 3 = byte_of x 3"
  "perm_byte x y 0x3410 0 = byte_of x 0" "perm_byte x y 0x3410 (Suc 0) = byte_of x 1"
  "perm_byte x y 0x3410 2 = byte_of y 0" "perm_byte x y 0x3410 3 = byte_of x 3"
  "perm_byte x y 0x4210 0 = byte_of x 0" "perm_byte x y 0x4210 (Suc 0) = byte_of x 1"
  "perm_byte x y 0x4210 2 = byte_of x 2" "perm_byte x y 0x4210 3 = byte_of y 0"
  by (simp_all add: perm_byte_def)

lemma less4: "a < 4 \<longleftrightarrow> a = 0 \<or> a = Suc 0 \<or> a = 2 \<or> a = (3 :: nat)"
  by auto

lemma byte_perm_low: "ucast (byte_perm x y s) = perm_byte x y s 0"
  unfolding byte_perm_def using byte_of_word_of_bytes(1) by (simp add: byte_of_def)

lemma max8_byte_eq: "a < 4 \<Longrightarrow> max8_byte a old = byte_of old a"
  unfolding max8_byte_def byte_perm_low by (auto simp: less4 perm_byte_def)

lemma max8_new_bytes:
  assumes "a < 4" "i < 4"
  shows "byte_of (max8_new a val old) i = (if i = a then max val (byte_of old a) else byte_of old i)"
proof -
  have "byte_of (ucast b) 0 = b" for b :: "8 word" by (rule bit_word_eqI) (simp add: bit_byte_of bit_simps)
  then show ?thesis using assms
    by (auto simp: less4 max8_new_def max8_byte_eq max8_selector_def byte_perm_def byte_of_word_of_bytes
        perm_byte_max8)
qed

lemma atomicMax_UInt8_effect:
  assumes "a < 4" and "atomicMax_UInt8 a val old ws = Some (seen, left, r)"
  shows "seen \<in> set (old # ws) \<and> r = byte_of seen a \<and>
    (\<forall>i < 4. byte_of left i = (if i = a then max val (byte_of seen a) else byte_of seen i))"
  using assms(2)
proof (induction ws arbitrary: old)
  case Nil
  then have "max8_new a val old = old" "seen = old" "left = old" "r = max8_byte a old"
    by (auto simp: atomicMax_UInt8.simps Let_def split: if_splits)
  then show ?case
    using max8_new_bytes [OF assms(1), of _ val old] max8_byte_eq [OF assms(1)] assms(1)
    by (metis list.set_intros(1))
next
  case (Cons w ws)
  show ?case
  proof (cases "max8_new a val old = old \<or> w = old")
    case True
    then have "seen = old" "left = max8_new a val old" "r = max8_byte a old"
      using Cons.prems by (auto simp: atomicMax_UInt8.simps [of a val old] Let_def split: if_splits)
    then show ?thesis using max8_new_bytes [OF assms(1), of _ val old] max8_byte_eq [OF assms(1)] by simp
  next
    case False
    then have "atomicMax_UInt8 a val w ws = Some (seen, left, r)"
      using Cons.prems by (simp add: atomicMax_UInt8.simps [of a val old] Let_def)
    from Cons.IH [OF this] show ?thesis by auto
  qed
qed

lemma atomicMax_UInt8_returns:
  "i < length ws \<Longrightarrow> (old # ws) ! i = ws ! i \<Longrightarrow> \<exists>x. atomicMax_UInt8 a val old ws = Some x"
proof (induction ws arbitrary: old i)
  case (Cons w ws)
  show ?case
  proof (cases "max8_new a val old = old \<or> w = old")
    case True
    then show ?thesis by (auto simp: atomicMax_UInt8.simps [of a val old] Let_def)
  next
    case False
    then obtain j where "i = Suc j" using Cons.prems(2) by (cases i) auto
    with Cons.IH [of j w] Cons.prems False show ?thesis
      by (auto simp: atomicMax_UInt8.simps [of a val old] Let_def)
  qed
qed simp

section \<open>Halves of a word\<close>

definition half_of :: "32 word \<Rightarrow> bool \<Rightarrow> 16 word" where
  "half_of w hi = (if hi then ucast (drop_bit 16 w) else ucast (w AND 0xffff))"

definition long_val :: "bool \<Rightarrow> 16 word \<Rightarrow> 32 word" where
  "long_val hi val = (if hi then push_bit 16 (ucast val) else ucast val)"

text \<open>The new word and the value returned, for the half selected by bit 1 of the address.\<close>

definition atomicAdd_UInt16 :: "bool \<Rightarrow> 16 word \<Rightarrow> 32 word \<Rightarrow> 32 word \<times> 16 word" where
  "atomicAdd_UInt16 hi val w = (w + long_val hi val, half_of w hi)"

definition atomicSub_UInt16 :: "bool \<Rightarrow> 16 word \<Rightarrow> 32 word \<Rightarrow> 32 word \<times> 16 word" where
  "atomicSub_UInt16 hi val w = (w - long_val hi val, half_of w hi)"

lemma unat_half: "unat (half_of w True) = unat w div 2 ^ 16" "unat (half_of w False) = unat w mod 2 ^ 16"
proof -
  have "unat w < 2 ^ 32" using unsigned_less [of w, where ?'a = nat] by simp
  then have "unat w div 2 ^ 16 < 2 ^ 16" by simp
  then show "unat (half_of w True) = unat w div 2 ^ 16"
    unfolding half_of_def if_P [OF TrueI] unsigned_ucast_eq unat_drop_bit_eq
    by (simp add: drop_bit_eq_div take_bit_eq_mod)
  have "(0xffff :: 32 word) = mask 16" by (simp add: mask_eq_exp_minus_1)
  then have e: "w AND 0xffff = take_bit 16 w" by (simp only: take_bit_eq_mask)
  show "unat (half_of w False) = unat w mod 2 ^ 16"
    unfolding half_of_def if_not_P [OF not_False_eq_True [THEN eqTrueE]] e unsigned_ucast_eq unsigned_take_bit_eq
    by (simp add: take_bit_eq_mod)
qed

lemma unat_long_val: "unat (long_val hi v) = (if hi then 2 ^ 16 * unat v else unat v)"
proof -
  have v: "unat v < 2 ^ 16" using unsigned_less [of v, where ?'a = nat] by simp
  have c: "unat (ucast v :: 32 word) = unat v"
    using v by (simp add: unsigned_ucast_eq take_bit_eq_mod)
  have "unat (push_bit 16 (ucast v :: 32 word)) = take_bit 32 (push_bit 16 (unat v))"
    by (simp add: unsigned_push_bit_eq c)
  also have "\<dots> = 2 ^ 16 * unat v" using v by (simp add: take_bit_eq_mod push_bit_eq_mult)
  finally show ?thesis using c by (simp add: long_val_def)
qed

lemma half_split: "unat w = 2 ^ 16 * unat (half_of w True) + unat (half_of w False)"
  by (simp add: unat_half)

lemma half_bound: "unat (half_of w hi) < 2 ^ 16"
  using unsigned_less [of "half_of w hi", where ?'a = nat] by simp

lemma half_eqI:
  assumes "unat w = 2 ^ 16 * a + b" "b < 2 ^ 16"
  shows "unat (half_of w True) = a" "unat (half_of w False) = b"
  using assms by (simp_all add: unat_half)


text \<open>
  (C21) \<^verbatim>\<open>atomicMax<UInt8>\<close> is linearizable: whatever the other threads do to the word between its
  compare-and-swaps, when it returns it has taken effect on one of the contents of the word that it
  observed, replacing the addressed byte by the maximum, leaving the three other bytes alone and
  returning the previous byte.  It does return as soon as one attempt is not disturbed.
\<close>

theorem atomicMax_UInt8_linearizable:
  assumes "a < 4"
  shows "(\<forall>seen left r. atomicMax_UInt8 a val old ws = Some (seen, left, r) \<longrightarrow>
      seen \<in> set (old # ws) \<and> r = byte_of seen a \<and>
      (\<forall>i < 4. byte_of left i = (if i = a then max val (byte_of seen a) else byte_of seen i))) \<and>
    ((\<exists>i < length ws. (old # ws) ! i = ws ! i) \<longrightarrow> (\<exists>x. atomicMax_UInt8 a val old ws = Some x))"
  using atomicMax_UInt8_effect [OF assms] atomicMax_UInt8_returns by blast

theorem atomicMax_UInt8_linearizable_witness:
  "\<exists>x. atomicMax_UInt8 1 9 0x0505 [0x0605, 0x0605] = Some x"
  using atomicMax_UInt8_linearizable [of 1 9 "0x0505" "[0x0605, 0x0605]"] by auto

text \<open>
  (C22) The 16-bit addition and subtraction through the containing word: as long as the half itself
  does not overflow or underflow, exactly that half changes and the old value is returned.
\<close>

theorem atomic_UInt16_correct:
  assumes "unat (half_of w hi) + unat v < 2 ^ 16" and "unat u \<le> unat (half_of w hi)"
  shows "unat (half_of (fst (atomicAdd_UInt16 hi v w)) hi) = unat (half_of w hi) + unat v \<and>
    half_of (fst (atomicAdd_UInt16 hi v w)) (\<not> hi) = half_of w (\<not> hi) \<and>
    unat (half_of (fst (atomicSub_UInt16 hi u w)) hi) = unat (half_of w hi) - unat u \<and>
    half_of (fst (atomicSub_UInt16 hi u w)) (\<not> hi) = half_of w (\<not> hi) \<and>
    snd (atomicAdd_UInt16 hi v w) = half_of w hi \<and> snd (atomicSub_UInt16 hi u w) = half_of w hi"
proof -
  let ?h = "unat (half_of w True)" and ?l = "unat (half_of w False)"
  have b: "?h < 2 ^ 16" "?l < 2 ^ 16" by (rule half_bound)+
  note w = half_split [of w]
  have "unat w + unat (long_val hi v) < 2 ^ 32"
    using assms(1) b unfolding unat_long_val by (subst w) (cases hi; simp)
  then have "unat (w + long_val hi v) = unat w + unat (long_val hi v)"
    using unat_add_lem [of w "long_val hi v"] by simp
  then have add: "unat (fst (atomicAdd_UInt16 hi v w)) =
      (if hi then 2 ^ 16 * (?h + unat v) + ?l else 2 ^ 16 * ?h + (?l + unat v))"
    unfolding atomicAdd_UInt16_def fst_conv unat_long_val by (subst (asm) w) (cases hi; simp)
  have "unat (long_val hi u) \<le> unat w"
    using assms(2) unfolding unat_long_val by (subst w) (cases hi; simp)
  then have "unat (w - long_val hi u) = unat w - unat (long_val hi u)"
    by (simp add: unat_sub word_le_nat_alt)
  then have sub: "unat (fst (atomicSub_UInt16 hi u w)) =
      (if hi then 2 ^ 16 * (?h - unat u) + ?l else 2 ^ 16 * ?h + (?l - unat u))"
    using assms(2) unfolding atomicSub_UInt16_def fst_conv unat_long_val
    by (subst (asm) w) (cases hi; simp)
  have r: "snd (atomicAdd_UInt16 hi v w) = half_of w hi" "snd (atomicSub_UInt16 hi u w) = half_of w hi"
    by (simp_all add: atomicAdd_UInt16_def atomicSub_UInt16_def)
  show ?thesis
  proof (cases hi)
    case True
    have "unat (fst (atomicAdd_UInt16 hi v w)) = 2 ^ 16 * (?h + unat v) + ?l"
      "unat (fst (atomicSub_UInt16 hi u w)) = 2 ^ 16 * (?h - unat u) + ?l"
      using add sub True by simp_all
    from half_eqI [OF this(1) b(2)] half_eqI [OF this(2) b(2)] r show ?thesis
      unfolding word_unat_eq_iff using True by simp
  next
    case False
    have "unat (fst (atomicAdd_UInt16 hi v w)) = 2 ^ 16 * ?h + (?l + unat v)"
      "unat (fst (atomicSub_UInt16 hi u w)) = 2 ^ 16 * ?h + (?l - unat u)"
      using add sub False by simp_all
    moreover have "?l + unat v < 2 ^ 16" "?l - unat u < 2 ^ 16" using assms(1) False b(2) by simp_all
    ultimately show ?thesis
      using half_eqI [of "fst (atomicAdd_UInt16 hi v w)" ?h "?l + unat v"]
        half_eqI [of "fst (atomicSub_UInt16 hi u w)" ?h "?l - unat u"] r False
      unfolding word_unat_eq_iff by simp
  qed
qed

theorem atomic_UInt16_correct_witness:
  "half_of (fst (atomicAdd_UInt16 False 5 0x70008)) True = 7 \<and>
   unat (half_of (fst (atomicSub_UInt16 False 8 0x70008)) False) = 0"
proof -
  have "unat (half_of (0x70008 :: 32 word) False) = 8" "half_of (0x70008 :: 32 word) True = 7"
    by (simp_all add: unat_half half_of_def word_unat_eq_iff unat_drop_bit_eq drop_bit_eq_div unsigned_ucast_eq)
  then show ?thesis using atomic_UInt16_correct [of "0x70008" False 5 8] by simp
qed

end
