(* ===== verification/Hll_Counter.thy ===== *)
theory Hll_Counter
  imports Int_Hash Complex_Main
begin

text \<open>
  \<^verbatim>\<open>CudaHyperLogLogCounter\<close> with the parameters of the aggregate function (precision 12, 32-bit
  hash, \<^verbatim>\<open>StableIfBig\<close> denominator).  \<open>hll_update\<close> is one update run alone; \<open>hll_step\<close> interleaves
  the atomic operations of any number of threads that update one counter.
\<close>

unbundle bit_operations_syntax

section \<open>The counter\<close>

definition precision :: nat where "precision = 12"
definition bucket_count :: nat where "bucket_count = 2 ^ precision"
definition max_rank :: nat where "max_rank = 32 - precision + 1"

record hll =
  rank_store :: "nat \<Rightarrow> nat"
  rank_count :: "nat \<Rightarrow> 32 word"
  zeros :: "16 word"

text \<open>The constructor, and \<^verbatim>\<open>initNonzeroData\<close> on memory that has been cleared.\<close>

definition hll_new :: hll where
  "hll_new = \<lparr>rank_store = (\<lambda>_. 0), rank_count = (\<lambda>i. if i = 0 then word_of_nat bucket_count else 0),
     zeros = word_of_nat bucket_count\<rparr>"

definition hll_initNonzeroData :: "hll \<Rightarrow> hll" where
  "hll_initNonzeroData s = s\<lparr>rank_count := (rank_count s)(0 := word_of_nat bucket_count),
     zeros := word_of_nat bucket_count\<rparr>"

definition extractBitSequence :: "32 word \<Rightarrow> nat \<Rightarrow> nat \<Rightarrow> 32 word" where
  "extractBitSequence val b e = drop_bit b val AND mask (e - b)"

text \<open>\<^verbatim>\<open>__ffs\<close>: the position of the first bit that is set, counted from 1; 0 for 0.\<close>

definition ffs :: "32 word \<Rightarrow> nat" where
  "ffs val = (case find (bit val) [0..<32] of None \<Rightarrow> 0 | Some i \<Rightarrow> i + 1)"

definition trailing_zeros :: "32 word \<Rightarrow> int" where
  "trailing_zeros val = int (ffs val) - 1"

definition calculateRank :: "32 word \<Rightarrow> nat" where
  "calculateRank val =
     (if val = 0 then max_rank
      else
        (let zeros_plus_one = trailing_zeros val + 1
         in if zeros_plus_one > int max_rank then max_rank else nat zeros_plus_one))"

definition hll_bucket :: "32 word \<Rightarrow> nat" where
  "hll_bucket hash = unat (extractBitSequence hash 0 precision)"

definition hll_rank :: "32 word \<Rightarrow> nat" where
  "hll_rank hash = calculateRank (extractBitSequence hash precision 32)"

definition denominator_update :: "nat \<Rightarrow> nat \<Rightarrow> (nat \<Rightarrow> 32 word) \<Rightarrow> nat \<Rightarrow> 32 word" where
  "denominator_update cur_rank new_rank count =
     (let count = count(cur_rank := count cur_rank - 1)
      in count(new_rank := count new_rank + 1))"

definition hll_update :: "nat \<Rightarrow> nat \<Rightarrow> hll \<Rightarrow> hll" where
  "hll_update bucket rank s =
     (let old_rank = rank_store s bucket;
          s = s\<lparr>rank_store := (rank_store s)(bucket := max old_rank rank)\<rparr>
      in if rank > old_rank then
           (let s = (if old_rank = 0 then s\<lparr>zeros := zeros s - 1\<rparr> else s)
            in s\<lparr>rank_count := denominator_update old_rank rank (rank_count s)\<rparr>)
         else s)"

definition getHash :: "64 word \<Rightarrow> 32 word" where
  "getHash key = cudaIntHash32 0 key"

definition hll_insert :: "64 word \<Rightarrow> hll \<Rightarrow> hll" where
  "hll_insert value s =
     (let hash = getHash value in hll_update (hll_bucket hash) (hll_rank hash) s)"

definition hll_merge :: "hll \<Rightarrow> hll \<Rightarrow> hll" where
  "hll_merge rhs s = fold (\<lambda>bucket. hll_update bucket (rank_store rhs bucket)) [0..<bucket_count] s"

section \<open>Concurrent updates\<close>

text \<open>Where a thread is in \<^verbatim>\<open>update\<close>: every constructor is the atomic operation it does next.\<close>

datatype hll_pc =
    AtomicMax nat nat
  | SubZeros nat nat
  | SubCount nat nat
  | AddCount nat
  | Finished

inductive hll_step :: "hll \<times> (nat \<Rightarrow> hll_pc) \<Rightarrow> hll \<times> (nat \<Rightarrow> hll_pc) \<Rightarrow> bool" where
  step_max: "pc t = AtomicMax b r \<Longrightarrow> old = rank_store s b \<Longrightarrow>
    hll_step (s, pc)
      (s\<lparr>rank_store := (rank_store s)(b := max old r)\<rparr>,
       pc(t := if r > old then (if old = 0 then SubZeros old r else SubCount old r) else Finished))"
| step_zeros: "pc t = SubZeros old r \<Longrightarrow>
    hll_step (s, pc) (s\<lparr>zeros := zeros s - 1\<rparr>, pc(t := SubCount old r))"
| step_sub: "pc t = SubCount old r \<Longrightarrow>
    hll_step (s, pc) (s\<lparr>rank_count := (rank_count s)(old := rank_count s old - 1)\<rparr>, pc(t := AddCount r))"
| step_add: "pc t = AddCount r \<Longrightarrow>
    hll_step (s, pc) (s\<lparr>rank_count := (rank_count s)(r := rank_count s r + 1)\<rparr>, pc(t := Finished))"

inductive_cases hll_stepE: "hll_step (s, pc) st"

text \<open>The counter agrees with its rank store.\<close>

definition buckets_of :: "(nat \<Rightarrow> nat) \<Rightarrow> nat \<Rightarrow> nat" where
  "buckets_of ranks r = card {b. b < bucket_count \<and> ranks b = r}"

definition hll_ok :: "hll \<Rightarrow> bool" where
  "hll_ok s \<longleftrightarrow> (\<forall>b < bucket_count. rank_store s b \<le> max_rank) \<and>
     (\<forall>r. rank_count s r = word_of_nat (buckets_of (rank_store s) r)) \<and>
     zeros s = word_of_nat (buckets_of (rank_store s) 0)"

subsection \<open>Counting buckets in a ring\<close>

lemma buckets_of_sum:
  "(of_nat (buckets_of ranks r) :: 'a :: ring_1) = (\<Sum>b < bucket_count. if ranks b = r then 1 else 0)"
proof -
  have "{b. b < bucket_count \<and> ranks b = r} = {..<bucket_count} \<inter> {b. ranks b = r}" by auto
  then show ?thesis by (simp add: buckets_of_def sum.If_cases)
qed

lemma sum_upd:
  fixes g :: "'p \<Rightarrow> 'a :: ab_group_add"
  assumes "finite T" "t \<in> T"
  shows "(\<Sum>u \<in> T. g ((pc(t := x)) u)) = (\<Sum>u \<in> T. g (pc u)) - g (pc t) + g x"
proof -
  have "(\<Sum>u \<in> T - {t}. g ((pc(t := x)) u)) = (\<Sum>u \<in> T - {t}. g (pc u))"
    by (rule sum.cong) auto
  then show ?thesis using assms by (simp add: sum.remove [OF assms])
qed

lemma buckets_of_upd:
  assumes "b < bucket_count"
  shows "(of_nat (buckets_of (ranks(b := v)) r) :: 'a :: ring_1) =
    of_nat (buckets_of ranks r) - (if ranks b = r then 1 else 0) + (if v = r then 1 else 0)"
  unfolding buckets_of_sum
  using sum_upd [of "{..<bucket_count}" b "\<lambda>x. if x = r then 1 else 0 :: 'a" ranks v] assms by simp

subsection \<open>The invariant of the interleavings\<close>

fun count_debt :: "hll_pc \<Rightarrow> nat \<Rightarrow> 32 word" where
  "count_debt (SubZeros old new) r = (if r = old then 1 else 0) - (if r = new then 1 else 0)"
| "count_debt (SubCount old new) r = (if r = old then 1 else 0) - (if r = new then 1 else 0)"
| "count_debt (AddCount new) r = - (if r = new then 1 else 0)"
| "count_debt _ r = 0"

fun zeros_debt :: "hll_pc \<Rightarrow> 16 word" where
  "zeros_debt (SubZeros old new) = 1"
| "zeros_debt _ = 0"

fun waits :: "hll_pc \<Rightarrow> bool" where
  "waits (AtomicMax b r) = True"
| "waits _ = False"

definition hll_conc_inv :: "nat set \<Rightarrow> (nat \<Rightarrow> nat \<times> nat) \<Rightarrow> (nat \<Rightarrow> nat) \<Rightarrow> hll \<times> (nat \<Rightarrow> hll_pc) \<Rightarrow> bool" where
  "hll_conc_inv T job ranks0 = (\<lambda>(s, pc).
     (\<forall>t. t \<notin> T \<longrightarrow> pc t = Finished) \<and>
     (\<forall>t b r. pc t = AtomicMax b r \<longrightarrow> job t = (b, r)) \<and>
     (\<forall>t old new. pc t = SubZeros old new \<longrightarrow> old = 0) \<and>
     (\<forall>b. rank_store s b = Max (insert (ranks0 b) {snd (job t) | t. t \<in> T \<and> fst (job t) = b \<and> \<not> waits (pc t)})) \<and>
     (\<forall>r. rank_count s r = of_nat (buckets_of (rank_store s) r) + (\<Sum>t \<in> T. count_debt (pc t) r)) \<and>
     zeros s = of_nat (buckets_of (rank_store s) 0) + (\<Sum>t \<in> T. zeros_debt (pc t)))"

lemma Max_insert_filter:
  fixes f :: "nat \<Rightarrow> nat"
  assumes "finite T" "t \<in> T"
  shows "Max (insert a {f u | u. u \<in> T \<and> P u \<and> (u = t \<or> Q u)}) =
    (if P t then max (f t) (Max (insert a {f u | u. u \<in> T \<and> P u \<and> Q u})) else
      Max (insert a {f u | u. u \<in> T \<and> P u \<and> Q u}))"
proof -
  have fin: "finite {f u | u. u \<in> T \<and> P u \<and> Q u}" using assms(1) by simp
  show ?thesis
  proof (cases "P t")
    case True
    then have "{f u | u. u \<in> T \<and> P u \<and> (u = t \<or> Q u)} = insert (f t) {f u | u. u \<in> T \<and> P u \<and> Q u}"
      using assms(2) by auto
    then have "insert a {f u | u. u \<in> T \<and> P u \<and> (u = t \<or> Q u)} =
        insert (f t) (insert a {f u | u. u \<in> T \<and> P u \<and> Q u})" by auto
    then show ?thesis using True fin by simp
  next
    case False
    then have "{f u | u. u \<in> T \<and> P u \<and> (u = t \<or> Q u)} = {f u | u. u \<in> T \<and> P u \<and> Q u}" by auto
    then show ?thesis using False by simp
  qed
qed

lemma hll_conc_invD:
  assumes "hll_conc_inv T job ranks0 (s, pc)"
  shows "\<And>t. t \<notin> T \<Longrightarrow> pc t = Finished" "\<And>t b r. pc t = AtomicMax b r \<Longrightarrow> job t = (b, r)"
    "\<And>t old new. pc t = SubZeros old new \<Longrightarrow> old = 0"
    "\<And>b. rank_store s b = Max (insert (ranks0 b) {snd (job t) | t. t \<in> T \<and> fst (job t) = b \<and> \<not> waits (pc t)})"
    "\<And>r. rank_count s r = of_nat (buckets_of (rank_store s) r) + (\<Sum>t \<in> T. count_debt (pc t) r)"
    "zeros s = of_nat (buckets_of (rank_store s) 0) + (\<Sum>t \<in> T. zeros_debt (pc t))"
  using assms unfolding hll_conc_inv_def prod.case by blast+

lemma waits_upd:
  assumes "\<not> waits x"
  shows "(\<lambda>u. \<not> waits ((pc(t := x)) u)) = (\<lambda>u. u = t \<or> \<not> waits (pc u))"
  using assms by (auto simp: fun_eq_iff)

text \<open>Changing the state of one thread to one that no longer waits.\<close>

lemma hll_conc_invI:
  assumes inv: "hll_conc_inv T job ranks0 (s, pc)" and t: "t \<in> T"
    and x: "\<not> waits x" "\<And>old new. x = SubZeros old new \<Longrightarrow> old = 0"
    and ranks: "\<And>c. rank_store s' c = Max (insert (ranks0 c)
      {snd (job u) | u. u \<in> T \<and> fst (job u) = c \<and> (u = t \<or> \<not> waits (pc u))})"
    and count: "\<And>q. rank_count s' q = of_nat (buckets_of (rank_store s') q) +
      (\<Sum>u \<in> T. count_debt (pc u) q) - count_debt (pc t) q + count_debt x q"
    and zer: "zeros s' = of_nat (buckets_of (rank_store s') 0) +
      (\<Sum>u \<in> T. zeros_debt (pc u)) - zeros_debt (pc t) + zeros_debt x"
    and T: "finite T"
  shows "hll_conc_inv T job ranks0 (s', pc(t := x))"
proof -
  note D = hll_conc_invD [OF inv]
  have w: "\<not> waits ((pc(t := x)) u) \<longleftrightarrow> u = t \<or> \<not> waits (pc u)" for u
    using x(1) by simp
  show ?thesis
    unfolding hll_conc_inv_def prod.case w sum_upd [OF T t, where g = zeros_debt]
      sum_upd [OF T t, where g = "\<lambda>p. count_debt p _"]
  proof (intro conjI allI impI)
    show "(pc(t := x)) u = Finished" if "u \<notin> T" for u using D(1) that t by auto
    show "job u = (b, r)" if "(pc(t := x)) u = AtomicMax b r" for u b r
      using D(2) that x(1) by (auto split: if_splits)
    show "old = 0" if "(pc(t := x)) u = SubZeros old new" for u old new
      using D(3) that x(2) by (auto split: if_splits)
  qed (simp_all add: ranks count zer)
qed

lemma hll_step_inv:
  assumes "hll_step st st'" and inv: "hll_conc_inv T job ranks0 st" and T: "finite T"
    and jobs: "\<And>t. t \<in> T \<Longrightarrow> fst (job t) < bucket_count"
  shows "hll_conc_inv T job ranks0 st'"
  using assms(1,2)
proof cases
  case (step_max pc t b r old s)
  note D = hll_conc_invD [OF inv [unfolded step_max(1)]]
  have t: "t \<in> T" using D(1) step_max(3) by fastforce
  have j: "job t = (b, r)" by (rule D(2) [OF step_max(3)])
  have b: "b < bucket_count" using jobs [OF t] j by simp
  show ?thesis
    unfolding step_max(2)
  proof (rule hll_conc_invI [OF inv [unfolded step_max(1)] t _ _ _ _ _ T])
    fix c
    show "rank_store (s\<lparr>rank_store := (rank_store s)(b := max old r)\<rparr>) c = Max (insert (ranks0 c)
        {snd (job u) | u. u \<in> T \<and> fst (job u) = c \<and> (u = t \<or> \<not> waits (pc u))})"
      using D(4) [of c] j step_max(4)
      by (simp add: Max_insert_filter [OF T t] max.commute)
  next
    fix q
    show "rank_count (s\<lparr>rank_store := (rank_store s)(b := max old r)\<rparr>) q =
       of_nat (buckets_of (rank_store (s\<lparr>rank_store := (rank_store s)(b := max old r)\<rparr>)) q) +
       (\<Sum>u \<in> T. count_debt (pc u) q) - count_debt (pc t) q +
       count_debt (if old < r then if old = 0 then SubZeros old r else SubCount old r else Finished) q"
      using D(5) [of q] step_max(3,4) by (simp add: buckets_of_upd [OF b])
  next
    show "zeros (s\<lparr>rank_store := (rank_store s)(b := max old r)\<rparr>) =
       of_nat (buckets_of (rank_store (s\<lparr>rank_store := (rank_store s)(b := max old r)\<rparr>)) 0) +
       (\<Sum>u \<in> T. zeros_debt (pc u)) - zeros_debt (pc t) +
       zeros_debt (if old < r then if old = 0 then SubZeros old r else SubCount old r else Finished)"
      using D(6) step_max(3,4) by (simp add: buckets_of_upd [OF b])
  qed (auto split: if_splits)
next
  case (step_zeros pc t old r s)
  note D = hll_conc_invD [OF inv [unfolded step_zeros(1)]]
  have t: "t \<in> T" using D(1) step_zeros(3) by fastforce
  show ?thesis unfolding step_zeros(2)
    by (rule hll_conc_invI [OF inv [unfolded step_zeros(1)] t _ _ _ _ _ T])
      (use D step_zeros(3) in \<open>auto intro!: arg_cong [where f = Max]\<close>)
next
  case (step_sub pc t old r s)
  note D = hll_conc_invD [OF inv [unfolded step_sub(1)]]
  have t: "t \<in> T" using D(1) step_sub(3) by fastforce
  show ?thesis unfolding step_sub(2)
    by (rule hll_conc_invI [OF inv [unfolded step_sub(1)] t _ _ _ _ _ T])
      (use D step_sub(3) in \<open>auto intro!: arg_cong [where f = Max]\<close>)
next
  case (step_add pc t r s)
  note D = hll_conc_invD [OF inv [unfolded step_add(1)]]
  have t: "t \<in> T" using D(1) step_add(3) by fastforce
  show ?thesis unfolding step_add(2)
    by (rule hll_conc_invI [OF inv [unfolded step_add(1)] t _ _ _ _ _ T])
      (use D step_add(3) in \<open>auto intro!: arg_cong [where f = Max]\<close>)
qed


definition hll_start :: "nat set \<Rightarrow> (nat \<Rightarrow> nat \<times> nat) \<Rightarrow> nat \<Rightarrow> hll_pc" where
  "hll_start T job = (\<lambda>t. if t \<in> T then AtomicMax (fst (job t)) (snd (job t)) else Finished)"

lemma hll_start_inv:
  assumes "hll_ok s" and "finite T"
  shows "hll_conc_inv T job (rank_store s) (s, hll_start T job)"
proof -
  have "{snd (job t) | t. t \<in> T \<and> fst (job t) = b \<and> \<not> waits (hll_start T job t)} = {}" for b
    by (auto simp: hll_start_def)
  moreover have "count_debt (hll_start T job t) r = 0" "zeros_debt (hll_start T job t) = 0" for t r
    by (simp_all add: hll_start_def)
  ultimately show ?thesis
    using assms(1) by (auto simp: hll_conc_inv_def hll_ok_def hll_start_def)
qed

lemma hll_steps_inv:
  assumes "hll_step\<^sup>*\<^sup>* st st'" and "hll_conc_inv T job ranks0 st" and "finite T"
    and "\<And>t. t \<in> T \<Longrightarrow> fst (job t) < bucket_count"
  shows "hll_conc_inv T job ranks0 st'"
  using assms by (induction rule: rtranclp_induct) (auto intro: hll_step_inv)

lemma hll_ok_eq: "hll_ok s \<Longrightarrow> hll_ok s' \<Longrightarrow> rank_store s = rank_store s' \<Longrightarrow> s = s'"
  by (intro hll.equality ext) (simp_all add: hll_ok_def)

lemma hll_update_ok:
  assumes "hll_ok s" and "bucket < bucket_count" and "rank \<le> max_rank"
  shows "hll_ok (hll_update bucket rank s)"
    and "rank_store (hll_update bucket rank s) = (rank_store s)(bucket := max (rank_store s bucket) rank)"
proof -
  show r: "rank_store (hll_update bucket rank s) =
      (rank_store s)(bucket := max (rank_store s bucket) rank)"
    by (simp add: hll_update_def Let_def)
  have "rank_count (hll_update bucket rank s) q = word_of_nat (buckets_of (rank_store (hll_update bucket rank s)) q)" for q
    unfolding r buckets_of_upd [OF assms(2)] using assms(1)
    by (auto simp: hll_update_def hll_ok_def denominator_update_def Let_def)
  moreover have "zeros (hll_update bucket rank s) = word_of_nat (buckets_of (rank_store (hll_update bucket rank s)) 0)"
    unfolding r buckets_of_upd [OF assms(2)] using assms(1)
    by (auto simp: hll_update_def hll_ok_def Let_def)
  ultimately show "hll_ok (hll_update bucket rank s)"
    using assms by (auto simp: hll_ok_def r)
qed

lemma hll_updates_ok:
  assumes "hll_ok s" and "\<And>b r. (b, r) \<in> set us \<Longrightarrow> b < bucket_count \<and> r \<le> max_rank"
  shows "hll_ok (fold (\<lambda>(b, r). hll_update b r) us s) \<and>
    rank_store (fold (\<lambda>(b, r). hll_update b r) us s) =
      (\<lambda>b. Max (insert (rank_store s b) {r. (b, r) \<in> set us}))"
  using assms
proof (induction us arbitrary: s)
  case (Cons u us)
  obtain b r where u: "u = (b, r)" by (cases u)
  have br: "b < bucket_count" "r \<le> max_rank" using Cons.prems(2) u by auto
  note U = hll_update_ok [OF Cons.prems(1) br]
  have fin: "finite {q. (c, q) \<in> set us}" for c
    by (rule finite_subset [of _ "snd ` set us"]) force+
  have "insert (rank_store s c) {q. (c, q) \<in> set (u # us)} =
      (if c = b then insert r (insert (rank_store s c) {q. (c, q) \<in> set us})
       else insert (rank_store s c) {q. (c, q) \<in> set us})" for c
    by (auto simp: u)
  moreover have "Max (insert (max (rank_store s b) r) {q. (b, q) \<in> set us}) =
      Max (insert r (insert (rank_store s b) {q. (b, q) \<in> set us}))"
    using fin by (cases "{q. (b, q) \<in> set us} = {}") (auto simp: max.commute max.left_commute)
  ultimately have m: "Max (insert (if c = b then max (rank_store s b) r else rank_store s c) {q. (c, q) \<in> set us}) =
      Max (insert (rank_store s c) {q. (c, q) \<in> set (u # us)})" for c
    by simp
  have "\<And>b r. (b, r) \<in> set us \<Longrightarrow> b < bucket_count \<and> r \<le> max_rank"
    by (rule Cons.prems(2)) simp
  from Cons.IH [OF U(1) this] show ?case
    using m by (simp add: u U(2) fun_eq_iff)
qed simp

lemma hll_conc_final:
  assumes ok: "hll_ok s" and T: "finite T"
    and jobs: "\<And>t. t \<in> T \<Longrightarrow> fst (job t) < bucket_count \<and> snd (job t) \<le> max_rank"
    and run: "hll_step\<^sup>*\<^sup>* (s, hll_start T job) (s', pc)" and fin: "\<And>t. pc t = Finished"
  shows "hll_ok s'"
    and "rank_store s' = (\<lambda>b. Max (insert (rank_store s b) {snd (job t) | t. t \<in> T \<and> fst (job t) = b}))"
proof -
  have "hll_conc_inv T job (rank_store s) (s', pc)"
    using hll_steps_inv [OF run hll_start_inv [OF ok T] T] jobs by blast
  note D = hll_conc_invD [OF this]
  show r: "rank_store s' = (\<lambda>b. Max (insert (rank_store s b) {snd (job t) | t. t \<in> T \<and> fst (job t) = b}))"
    using D(4) by (simp add: fin fun_eq_iff)
  have "rank_store s' b \<le> max_rank" if "b < bucket_count" for b
    using ok jobs that T unfolding r by (auto simp: hll_ok_def)
  then show "hll_ok s'" using D(5,6) by (simp add: hll_ok_def fin)
qed

text \<open>Every schedule ends: each thread has at most four atomic operations to do.\<close>

fun pc_left :: "hll_pc \<Rightarrow> nat" where
  "pc_left (AtomicMax b r) = 4"
| "pc_left (SubZeros old r) = 3"
| "pc_left (SubCount old r) = 2"
| "pc_left (AddCount r) = 1"
| "pc_left Finished = 0"

lemma sum_upd_nat:
  assumes "finite T" "t \<in> T" "(g x :: nat) < g (pc t)"
  shows "(\<Sum>u \<in> T. g ((pc(t := x)) u)) < (\<Sum>u \<in> T. g (pc u))"
  by (rule sum_strict_mono_ex1) (use assms in auto)

lemma hll_step_left:
  assumes "hll_step (s, pc) (s', pc')" and "finite T" and "\<And>t. t \<notin> T \<Longrightarrow> pc t = Finished"
  shows "(\<Sum>t \<in> T. pc_left (pc' t)) < (\<Sum>t \<in> T. pc_left (pc t)) \<and> (\<forall>t. t \<notin> T \<longrightarrow> pc' t = Finished)"
  using assms(1)
proof cases
  case (step_max t b r old)
  then have "t \<in> T" using assms(3) by fastforce
  then show ?thesis using step_max assms(2,3) sum_upd_nat [OF assms(2), of t pc_left _ pc] by auto
next
  case (step_zeros t old r)
  then have "t \<in> T" using assms(3) by fastforce
  then show ?thesis using step_zeros assms(2,3) sum_upd_nat [OF assms(2), of t pc_left _ pc] by auto
next
  case (step_sub t old r)
  then have "t \<in> T" using assms(3) by fastforce
  then show ?thesis using step_sub assms(2,3) sum_upd_nat [OF assms(2), of t pc_left _ pc] by auto
next
  case (step_add t r)
  then have "t \<in> T" using assms(3) by fastforce
  then show ?thesis using step_add assms(2,3) sum_upd_nat [OF assms(2), of t pc_left _ pc] by auto
qed

lemma hll_progress:
  assumes "pc t \<noteq> Finished"
  shows "\<exists>st'. hll_step (s, pc) st'"
  using assms by (cases "pc t") (blast intro: hll_step.intros)+

section \<open>Sketches of sets of values\<close>

lemma bucket_count_val: "bucket_count = 4096" "max_rank = 21" "precision = 12"
  by (simp_all add: bucket_count_def precision_def max_rank_def)

lemma hll_bucket_less: "hll_bucket h < bucket_count"
proof -
  have "extractBitSequence h 0 precision = take_bit precision h"
    by (simp add: extractBitSequence_def take_bit_eq_mask)
  then have "unat (extractBitSequence h 0 precision) = take_bit precision (unat h)"
    by (simp add: unsigned_take_bit_eq)
  also have "\<dots> < 2 ^ precision" by (rule take_bit_nat_less_exp)
  finally show ?thesis by (simp add: hll_bucket_def bucket_count_def)
qed

lemma hll_rank_le: "hll_rank h \<le> max_rank"
  by (auto simp: hll_rank_def calculateRank_def Let_def)

lemma hll_new_ok: "hll_ok hll_new"
  by (auto simp: hll_ok_def hll_new_def buckets_of_def)

definition hll_job :: "64 word \<Rightarrow> nat \<times> nat" where
  "hll_job value = (hll_bucket (getHash value), hll_rank (getHash value))"

lemma hll_job_ok: "fst (hll_job v) < bucket_count \<and> snd (hll_job v) \<le> max_rank"
  by (simp add: hll_job_def hll_bucket_less hll_rank_le)

lemma hll_insert_job: "hll_insert v = hll_update (fst (hll_job v)) (snd (hll_job v))"
  by (simp add: fun_eq_iff hll_insert_def hll_job_def Let_def)

text \<open>The counter of a set of values: each bucket has the largest rank that was inserted into it.\<close>

definition hll_ranks :: "64 word set \<Rightarrow> nat \<Rightarrow> nat" where
  "hll_ranks A b = Max (insert 0 {snd (hll_job v) | v. v \<in> A \<and> fst (hll_job v) = b})"

definition hll_represents :: "64 word set \<Rightarrow> hll \<Rightarrow> bool" where
  "hll_represents A s \<longleftrightarrow> hll_ok s \<and> rank_store s = hll_ranks A"

lemma hll_ranks_Un:
  assumes "finite A" "finite B"
  shows "hll_ranks (A \<union> B) b = max (hll_ranks A b) (hll_ranks B b)"
proof -
  let ?S = "\<lambda>A. insert 0 {snd (hll_job v) | v. v \<in> A \<and> fst (hll_job v) = b}"
  have f: "finite (?S A)" "finite (?S B)" using assms by simp_all
  have "?S (A \<union> B) = ?S A \<union> ?S B" by auto
  then show ?thesis unfolding hll_ranks_def by (simp only: Max_Un [OF f(1) insert_not_empty f(2) insert_not_empty])
qed

lemma hll_represents_empty: "hll_represents {} hll_new"
  by (simp add: hll_represents_def hll_new_ok fun_eq_iff hll_ranks_def)
     (simp add: hll_new_def)

lemma hll_represents_insert:
  assumes "hll_represents A s" "finite A"
  shows "hll_represents (insert v A) (hll_insert v s)"
proof -
  have "hll_ranks (insert v A) b = max (hll_ranks A b) (hll_ranks {v} b)" for b
    using hll_ranks_Un [OF assms(2), of "{v}"] by simp
  moreover have "hll_ranks {v} b = (if b = fst (hll_job v) then snd (hll_job v) else 0)" for b
  proof -
    have "{snd (hll_job u) | u. u \<in> {v} \<and> fst (hll_job u) = b} =
        (if b = fst (hll_job v) then {snd (hll_job v)} else {})" by auto
    then show ?thesis by (simp add: hll_ranks_def)
  qed
  ultimately show ?thesis
    using assms(1) hll_update_ok [of s "fst (hll_job v)" "snd (hll_job v)"] hll_job_ok [of v]
    by (auto simp: hll_represents_def hll_insert_job fun_eq_iff)
qed

lemma hll_represents_fold: "hll_represents A s \<Longrightarrow> finite A \<Longrightarrow> hll_represents (set xs \<union> A) (fold hll_insert xs s)"
proof (induction xs arbitrary: s A)
  case (Cons x xs)
  from Cons.IH [OF hll_represents_insert [OF Cons.prems, of x]] Cons.prems(2) show ?case by simp
qed simp

lemma hll_represents_unique: "hll_represents A s \<Longrightarrow> hll_represents A s' \<Longrightarrow> s = s'"
  by (auto simp: hll_represents_def intro: hll_ok_eq)

lemma hll_represents_merge:
  assumes "hll_represents A s" "hll_represents B rhs" "finite A" "finite B"
  shows "hll_represents (A \<union> B) (hll_merge rhs s)"
proof -
  let ?us = "map (\<lambda>b. (b, rank_store rhs b)) [0..<bucket_count]"
  have m: "hll_merge rhs s = fold (\<lambda>(b, r). hll_update b r) ?us s"
    by (simp add: hll_merge_def fold_map comp_def)
  have "hll_ok (hll_merge rhs s) \<and>
      rank_store (hll_merge rhs s) = (\<lambda>b. Max (insert (rank_store s b) {r. (b, r) \<in> set ?us}))"
    unfolding m by (rule hll_updates_ok) (use assms in \<open>auto simp: hll_represents_def hll_ok_def\<close>)
  moreover have "{r. (b, r) \<in> set ?us} = (if b < bucket_count then {rank_store rhs b} else {})" for b
    by auto
  moreover have "hll_ranks B b = 0" if "\<not> b < bucket_count" for b
  proof -
    have "{snd (hll_job v) | v. v \<in> B \<and> fst (hll_job v) = b} = {}" (is "?X = _")
      using that hll_job_ok by auto
    then show ?thesis unfolding hll_ranks_def by (simp only: Max_singleton)
  qed
  ultimately show ?thesis using assms
    by (auto simp: hll_represents_def fun_eq_iff hll_ranks_Un)
qed

end
