(* ===== verification/Hll_Estimate.thy ===== *)
theory Hll_Estimate
  imports Hll_Counter
begin

text \<open>
  The estimate of the number of distinct values that \<^verbatim>\<open>CudaHyperLogLogCounter\<close> computes on the host
  (\<^verbatim>\<open>size\<close>, \<^verbatim>\<open>fixRawEstimate\<close> and the corrections) and the bias estimators
  (\<^verbatim>\<open>CudaHyperLogLogBiasEstimator.h\<close>).
\<close>

section \<open>The denominator and the estimate\<close>

text \<open>
  \<^verbatim>\<open>Denominator::get\<close>: the sum is built from the highest rank down.  With at most 4096 buckets and
  21 halvings every intermediate value has fewer than 64 significant bits, so that \<^verbatim>\<open>long double\<close> holds it
  exactly and real numbers are the right domain.
\<close>

definition denominator_get :: "hll \<Rightarrow> real" where
  "denominator_get s =
     fold (\<lambda>i val. val / 2 + real (unat (rank_count s i))) (rev [0..<max_rank])
       (real (unat (rank_count s max_rank)))"

lemma denominator_fold:
  "fold (\<lambda>i val. val / 2 + f i) (rev [0..<n]) (f n) = (\<Sum>i \<le> n. f i / 2 ^ i)"
  for f :: "nat \<Rightarrow> real"
proof -
  have "fold (\<lambda>i val. val / 2 + f i) (rev [k..<k + n]) a = a / 2 ^ n + (\<Sum>i < n. f (k + i) / 2 ^ i)" for k a
  proof (induction n arbitrary: a k)
    case (Suc n)
    have "rev [k..<k + Suc n] = (k + n) # rev [k..<k + n]" by simp
    with Suc [of k "a / 2 + f (k + n)"] show ?case by (simp add: field_simps)
  qed simp
  from this [of 0 "f n"] show ?thesis by (simp add: lessThan_Suc_atMost [symmetric])
qed

lemma buckets_of_le: "buckets_of ranks r \<le> bucket_count"
  unfolding buckets_of_def using card_mono [of "{..<bucket_count}" "{b. b < bucket_count \<and> ranks b = r}"]
  by auto

lemma hll_ok_count: "hll_ok s \<Longrightarrow> unat (rank_count s r) = buckets_of (rank_store s) r"
  using buckets_of_le [of "rank_store s" r]
  by (simp add: hll_ok_def unat_of_nat bucket_count_val)

lemma denominator_get_sum:
  assumes "hll_ok s"
  shows "denominator_get s = (\<Sum>b < bucket_count. 1 / 2 ^ rank_store s b)"
proof -
  have "denominator_get s = (\<Sum>i \<le> max_rank. real (buckets_of (rank_store s) i) / 2 ^ i)"
    unfolding denominator_get_def
    using denominator_fold [of "\<lambda>i. real (buckets_of (rank_store s) i)" max_rank] assms
    by (simp add: hll_ok_count)
  also have "\<dots> = (\<Sum>i \<le> max_rank. \<Sum>b < bucket_count. if rank_store s b = i then 1 / 2 ^ i else 0)"
    unfolding buckets_of_sum by (simp add: sum_divide_distrib if_distrib [of "\<lambda>x. x / _"] cong: if_cong)
  also have "\<dots> = (\<Sum>b < bucket_count. \<Sum>i \<le> max_rank. if rank_store s b = i then 1 / 2 ^ i else 0)"
    by (rule sum.swap)
  also have "\<dots> = (\<Sum>b < bucket_count. 1 / 2 ^ rank_store s b)"
    by (rule sum.cong) (use assms in \<open>auto simp: hll_ok_def\<close>)
  finally show ?thesis .
qed


text \<open>
  The estimate, in exact arithmetic: the rounding of \<^verbatim>\<open>double\<close> operations is not modelled.  The
  error correction depends on the mode and on the bias estimator.
\<close>

datatype hll_mode = Raw | LinearCounting | BiasCorrected | FullFeatured

record bias_estimator =
  isTrivial :: bool
  getThreshold :: real
  getBias :: "real \<Rightarrow> real"

definition CudaTrivialBiasEstimator :: bias_estimator where
  "CudaTrivialBiasEstimator = \<lparr>isTrivial = True, getThreshold = 0, getBias = (\<lambda>_. 0)\<rparr>"

text \<open>\<^verbatim>\<open>std::lower_bound\<close> on a sorted array, and the interpolation between the two neighbours.\<close>

definition lower_bound :: "real list \<Rightarrow> real \<Rightarrow> nat" where
  "lower_bound xs v = length (takeWhile (\<lambda>x. x < v) xs)"

definition interpolated_bias :: "real list \<Rightarrow> real list \<Rightarrow> real \<Rightarrow> real" where
  "interpolated_bias estimates biases raw_estimate =
     (let it = lower_bound estimates raw_estimate
      in if it = length estimates then biases ! (length estimates - 1)
         else if estimates ! it = raw_estimate then biases ! it
         else if it = 0 then biases ! 0
         else
           (let index = it;
                estimate1 = estimates ! (index - 1);
                estimate2 = estimates ! index;
                bias1 = biases ! (index - 1);
                bias2 = biases ! index;
                slope = (bias2 - bias1) / (estimate2 - estimate1)
            in bias1 + slope * (raw_estimate - estimate1)))"

definition getLog :: "nat \<Rightarrow> real" where
  "getLog x = (if x = 0 then 0 else ln (real x))"

definition applyLinearCorrection :: "nat \<Rightarrow> real \<Rightarrow> real" where
  "applyLinearCorrection z raw_estimate =
     (if z \<noteq> 0 then real bucket_count * (getLog bucket_count - getLog z) else raw_estimate)"

definition applyBiasCorrection :: "bias_estimator \<Rightarrow> real \<Rightarrow> real" where
  "applyBiasCorrection be raw_estimate =
     (if raw_estimate \<le> 5 * real bucket_count then raw_estimate - getBias be raw_estimate
      else raw_estimate)"

definition applyCorrection :: "bias_estimator \<Rightarrow> nat \<Rightarrow> real \<Rightarrow> real" where
  "applyCorrection be z raw_estimate =
     (if isTrivial be then
        (if raw_estimate \<le> 2.5 * real bucket_count then applyLinearCorrection z raw_estimate
         else raw_estimate)
      else
        (let fixed_estimate = applyBiasCorrection be raw_estimate;
             linear_estimate = applyLinearCorrection z fixed_estimate
         in if linear_estimate < getThreshold be then linear_estimate else fixed_estimate))"

definition fixRawEstimate :: "hll_mode \<Rightarrow> bias_estimator \<Rightarrow> nat \<Rightarrow> real \<Rightarrow> real" where
  "fixRawEstimate mode be z raw_estimate =
     (if mode = Raw \<or> mode = BiasCorrected \<and> isTrivial be then raw_estimate
      else if mode = LinearCounting then applyLinearCorrection z raw_estimate
      else if mode = BiasCorrected \<and> \<not> isTrivial be then applyBiasCorrection be raw_estimate
      else if raw_estimate > 4294967296 / 30 then raw_estimate
      else applyCorrection be z raw_estimate)"

definition alpha_m :: real where
  "alpha_m =
     (if bucket_count = 2 then 0.351
      else if bucket_count = 4 then 0.532
      else if bucket_count = 8 then 0.626
      else if bucket_count = 16 then 0.673
      else if bucket_count = 32 then 0.697
      else if bucket_count = 64 then 0.709
      else 0.7213 / (1 + 1.079 / real bucket_count))"

definition hll_raw_estimate :: "hll \<Rightarrow> real" where
  "hll_raw_estimate s = alpha_m * real bucket_count * real bucket_count / denominator_get s"

definition hll_size :: "hll \<Rightarrow> nat" where
  "hll_size s =
     nat \<lfloor>fixRawEstimate FullFeatured CudaTrivialBiasEstimator (unat (zeros s)) (hll_raw_estimate s) + 0.5\<rfloor>"

lemma hll_ok_zeros: "hll_ok s \<Longrightarrow> unat (zeros s) = buckets_of (rank_store s) 0"
  using buckets_of_le [of "rank_store s" 0] by (simp add: hll_ok_def unat_of_nat bucket_count_val)

lemma hll_size_linear_aux:
  assumes "hll_ok s" and "hll_raw_estimate s \<le> 2.5 * real bucket_count"
    and "0 < buckets_of (rank_store s) 0"
  shows "hll_size s =
    nat \<lfloor>real bucket_count * ln (real bucket_count / real (buckets_of (rank_store s) 0)) + 0.5\<rfloor>"
proof -
  have "\<not> hll_raw_estimate s > 4294967296 / 30"
    using assms(2) by (simp add: bucket_count_val)
  then show ?thesis using assms
    by (simp add: hll_size_def fixRawEstimate_def applyCorrection_def CudaTrivialBiasEstimator_def
        applyLinearCorrection_def getLog_def hll_ok_zeros bucket_count_val ln_div)
qed

lemma hll_raw_new: "hll_raw_estimate hll_new \<le> 2.5 * real bucket_count"
proof -
  have "denominator_get hll_new = real bucket_count"
    using denominator_get_sum [OF hll_new_ok] by (simp add: hll_new_def)
  then show ?thesis by (simp add: hll_raw_estimate_def alpha_m_def bucket_count_val field_simps)
qed

end
