(* ===== verification/Small_Set.thy ===== *)
theory Small_Set
  imports "HOL-Library.Word"
begin

text \<open>
  \<^verbatim>\<open>CudaSmallSet<UInt64, 16>\<close>: the operations run alone, and \<^verbatim>\<open>tryInsert\<close> of any number of threads on
  the same buffer as interleaved reads and compare-and-swaps.
\<close>

section \<open>The small set\<close>

definition capacity :: nat where "capacity = 16"

record small_set =
  has_zero_elem :: bool
  buf :: "64 word list"

definition small_new :: small_set where
  "small_new = \<lparr>has_zero_elem = False, buf = replicate capacity 0\<rparr>"

definition small_initNonzeroData :: "small_set \<Rightarrow> small_set" where
  "small_initNonzeroData s = s\<lparr>has_zero_elem := False\<rparr>"

text \<open>
  \<^verbatim>\<open>tryInsert\<close> run alone: the compare-and-swap on a free cell succeeds.  The result is the new
  buffer and the value returned.
\<close>

fun tryInsert_loop :: "64 word \<Rightarrow> 64 word list \<Rightarrow> 64 word list \<times> bool" where
  "tryInsert_loop key [] = ([], False)"
| "tryInsert_loop key (x # xs) =
     (if x = key then (x # xs, True)
      else if x = 0 then (key # xs, True)
      else (case tryInsert_loop key xs of (ys, r) \<Rightarrow> (x # ys, r)))"

definition tryInsert :: "64 word \<Rightarrow> small_set \<Rightarrow> small_set \<times> bool" where
  "tryInsert key s =
     (if key = 0 then (s\<lparr>has_zero_elem := True\<rparr>, True)
      else (case tryInsert_loop key (buf s) of (b, r) \<Rightarrow> (s\<lparr>buf := b\<rparr>, r)))"

fun tryMerge_loop :: "64 word list \<Rightarrow> small_set \<Rightarrow> small_set \<times> bool" where
  "tryMerge_loop [] s = (s, True)"
| "tryMerge_loop (x # xs) s =
     (if x = 0 then (s, True)
      else (case tryInsert x s of (s', r) \<Rightarrow> if r then tryMerge_loop xs s' else (s', False)))"

definition tryMerge :: "small_set \<Rightarrow> small_set \<Rightarrow> small_set \<times> bool" where
  "tryMerge rhs s =
     (case tryMerge_loop (buf rhs) s of (s', r) \<Rightarrow>
        if r then (if has_zero_elem rhs then s'\<lparr>has_zero_elem := True\<rparr> else s', True)
        else (s', False))"

definition small_size :: "small_set \<Rightarrow> nat" where
  "small_size s = length (takeWhile (\<lambda>x. x \<noteq> 0) (buf s)) + (if has_zero_elem s then 1 else 0)"

text \<open>The function returns \<^verbatim>\<open>bool\<close>, so the number of elements it computes becomes 0 or 1.\<close>

definition sizeWithoutZeroElem :: "small_set \<Rightarrow> nat" where
  "sizeWithoutZeroElem s = of_bool (length (takeWhile (\<lambda>x. x \<noteq> 0) (buf s)) \<noteq> 0)"

definition getWithoutZeroElem :: "nat \<Rightarrow> small_set \<Rightarrow> 64 word" where
  "getWithoutZeroElem i s = buf s ! i"

text \<open>The set a small set stands for: distinct keys, then free cells.\<close>

definition small_ok :: "small_set \<Rightarrow> bool" where
  "small_ok s \<longleftrightarrow> (\<exists>ks. distinct ks \<and> 0 \<notin> set ks \<and> length ks \<le> capacity \<and>
     buf s = ks @ replicate (capacity - length ks) 0)"

definition small_keys :: "small_set \<Rightarrow> 64 word set" where
  "small_keys s = (set (buf s) - {0}) \<union> (if has_zero_elem s then {0} else {})"

lemma takeWhile_nonzero: "0 \<notin> set ks \<Longrightarrow> takeWhile (\<lambda>x. x \<noteq> 0) (ks @ replicate n 0) = (ks :: 64 word list)"
  by (induction ks) (simp_all add: takeWhile_replicate)

lemma small_size_card:
  assumes "small_ok s"
  shows "small_size s = card (small_keys s)"
proof -
  from assms obtain ks where ks: "distinct ks" "0 \<notin> set ks" "buf s = ks @ replicate (capacity - length ks) 0"
    by (auto simp: small_ok_def)
  have "set (buf s) - {0} = set ks" using ks(2,3) by auto
  then show ?thesis using ks
    by (simp add: small_size_def small_keys_def takeWhile_nonzero distinct_card card_insert_if)
qed

lemma tryInsert_loop_spec:
  assumes "distinct ks" "0 \<notin> set ks" "key \<noteq> 0"
  shows "tryInsert_loop key (ks @ replicate n 0) =
    (if key \<in> set ks then (ks @ replicate n 0, True)
     else if n = 0 then (ks, False) else (ks @ key # replicate (n - 1) 0, True))"
  using assms
proof (induction ks)
  case Nil
  then show ?case by (cases n) auto
qed auto

lemma tryInsert_spec:
  assumes "small_ok s"
  shows "small_ok (fst (tryInsert key s))"
    and "snd (tryInsert key s) \<longleftrightarrow> key \<in> small_keys s \<or> key = 0 \<or> card (small_keys s - {0}) < capacity"
    and "small_keys (fst (tryInsert key s)) =
      (if snd (tryInsert key s) then insert key (small_keys s) else small_keys s)"
proof -
  from assms obtain ks where ks: "distinct ks" "0 \<notin> set ks" "length ks \<le> capacity"
      "buf s = ks @ replicate (capacity - length ks) 0"
    by (auto simp: small_ok_def)
  have keys: "set (buf s) - {0} = set ks" using ks(2,4) by auto
  then have card: "card (small_keys s - {0}) = length ks"
    using ks(1,2) by (auto simp: small_keys_def distinct_card Diff_insert_absorb Un_Diff)
  note L = tryInsert_loop_spec [OF ks(1,2), of key "capacity - length ks"]
  have "small_ok (fst (tryInsert key s)) \<and>
    (snd (tryInsert key s) \<longleftrightarrow> key \<in> small_keys s \<or> key = 0 \<or> length ks < capacity) \<and>
    small_keys (fst (tryInsert key s)) =
      (if snd (tryInsert key s) then insert key (small_keys s) else small_keys s)"
  proof (cases "key = 0")
    case True
    then show ?thesis using assms by (auto simp: tryInsert_def small_ok_def small_keys_def)
  next
    case False
    consider "key \<in> set ks" | "key \<notin> set ks" "length ks = capacity" | "key \<notin> set ks" "length ks < capacity"
      using ks(3) by linarith
    then show ?thesis
    proof cases
      case 1
      then have "tryInsert key s = (s, True)" using L [OF False] False ks(4) by (simp add: tryInsert_def)
      then show ?thesis using assms 1 False keys by (auto simp: small_keys_def)
    next
      case 2
      then have "tryInsert key s = (s, False)" using L [OF False] False ks(4) by (simp add: tryInsert_def)
      then show ?thesis using assms 2 False keys by (auto simp: small_keys_def)
    next
      case 3
      then have t: "tryInsert key s = (s\<lparr>buf := (ks @ [key]) @ replicate (capacity - length (ks @ [key])) 0\<rparr>, True)"
        using L [OF False] False ks(4) by (simp add: tryInsert_def)
      have "small_ok (s\<lparr>buf := (ks @ [key]) @ replicate (capacity - length (ks @ [key])) 0\<rparr>)"
        unfolding small_ok_def by (rule exI [of _ "ks @ [key]"]) (use ks 3 False in auto)
      moreover have "set ((ks @ [key]) @ replicate (capacity - length (ks @ [key])) 0) - {0} = insert key (set ks)"
        using ks(2) False by auto
      ultimately show ?thesis using t 3 False keys by (auto simp: small_keys_def)
    qed
  qed
  then show "small_ok (fst (tryInsert key s))"
    "snd (tryInsert key s) \<longleftrightarrow> key \<in> small_keys s \<or> key = 0 \<or> card (small_keys s - {0}) < capacity"
    "small_keys (fst (tryInsert key s)) =
      (if snd (tryInsert key s) then insert key (small_keys s) else small_keys s)"
    by (simp_all add: card)
qed

lemma small_keys_capacity:
  assumes "small_ok s"
  shows "card (small_keys s - {0}) \<le> capacity"
proof -
  from assms obtain ks where ks: "distinct ks" "0 \<notin> set ks" "length ks \<le> capacity"
      "buf s = ks @ replicate (capacity - length ks) 0"
    by (auto simp: small_ok_def)
  have "small_keys s - {0} = set ks" using ks(2,4) by (auto simp: small_keys_def)
  then show ?thesis using ks(1,3) by (simp add: distinct_card)
qed

lemma small_new_ok: "small_ok small_new" "small_keys small_new = {}"
proof -
  show "small_ok small_new"
    unfolding small_ok_def by (rule exI [of _ "[]"]) (simp add: small_new_def)
  show "small_keys small_new = {}" by (auto simp: small_keys_def small_new_def)
qed

subsection \<open>Concurrent insertion\<close>

text \<open>
  Threads that run \<^verbatim>\<open>tryInsert\<close> on the same buffer: \<open>ReadCell i\<close> is about to read the cell \<open>i\<close>,
  \<open>CasCell i\<close> has found it free and is about to swap its key in, \<open>Returned r\<close> is done.
\<close>

datatype small_pc = ReadCell nat | CasCell nat | Returned bool

inductive small_step ::
  "(nat \<Rightarrow> 64 word) \<Rightarrow> (nat \<Rightarrow> 64 word) \<times> (nat \<Rightarrow> small_pc) \<Rightarrow> (nat \<Rightarrow> 64 word) \<times> (nat \<Rightarrow> small_pc) \<Rightarrow> bool"
  for key where
  read_end: "pc t = ReadCell i \<Longrightarrow> \<not> i < capacity \<Longrightarrow> small_step key (m, pc) (m, pc(t := Returned False))"
| read_found: "pc t = ReadCell i \<Longrightarrow> i < capacity \<Longrightarrow> m i = key t \<Longrightarrow>
    small_step key (m, pc) (m, pc(t := Returned True))"
| read_free: "pc t = ReadCell i \<Longrightarrow> i < capacity \<Longrightarrow> m i = 0 \<Longrightarrow> m i \<noteq> key t \<Longrightarrow>
    small_step key (m, pc) (m, pc(t := CasCell i))"
| read_other: "pc t = ReadCell i \<Longrightarrow> i < capacity \<Longrightarrow> m i \<noteq> 0 \<Longrightarrow> m i \<noteq> key t \<Longrightarrow>
    small_step key (m, pc) (m, pc(t := ReadCell (i + 1)))"
| cas: "pc t = CasCell i \<Longrightarrow>
    small_step key (m, pc)
      (if m i = 0 then m(i := key t) else m,
       pc(t := if m i = 0 \<or> m i = key t then Returned True else ReadCell (i + 1)))"

fun small_pc_ok :: "64 word \<Rightarrow> (nat \<Rightarrow> 64 word) \<Rightarrow> small_pc \<Rightarrow> bool" where
  "small_pc_ok k m (ReadCell i) = (i \<le> capacity \<and> (\<forall>j < i. m j \<noteq> 0 \<and> m j \<noteq> k))"
| "small_pc_ok k m (CasCell i) = (i < capacity \<and> (\<forall>j < i. m j \<noteq> 0 \<and> m j \<noteq> k))"
| "small_pc_ok k m (Returned r) =
     (if r then \<exists>i < capacity. m i = k else \<forall>j < capacity. m j \<noteq> 0 \<and> m j \<noteq> k)"

text \<open>The buffer: what was there stays, the keys are distinct and fill the cells from the left.\<close>

definition small_mem_ok :: "(nat \<Rightarrow> 64 word) \<Rightarrow> (nat \<Rightarrow> 64 word) \<Rightarrow> bool" where
  "small_mem_ok m0 m \<longleftrightarrow>
     (\<forall>i. m0 i \<noteq> 0 \<longrightarrow> m i = m0 i) \<and> (\<forall>i j. i \<le> j \<longrightarrow> m j \<noteq> 0 \<longrightarrow> m i \<noteq> 0) \<and>
     (\<forall>i j. m i = m j \<longrightarrow> m i \<noteq> 0 \<longrightarrow> i = j) \<and> (\<forall>i. \<not> i < capacity \<longrightarrow> m i = 0)"

definition small_conc_inv :: "nat set \<Rightarrow> (nat \<Rightarrow> 64 word) \<Rightarrow> (nat \<Rightarrow> 64 word) \<Rightarrow>
    (nat \<Rightarrow> 64 word) \<times> (nat \<Rightarrow> small_pc) \<Rightarrow> bool" where
  "small_conc_inv T key m0 = (\<lambda>(m, pc). small_mem_ok m0 m \<and>
     (\<forall>i. m i \<noteq> 0 \<longrightarrow> m i = m0 i \<or> (\<exists>t \<in> T. pc t = Returned True \<and> m i = key t)) \<and>
     (\<forall>t. t \<notin> T \<longrightarrow> (\<exists>r. pc t = Returned r)) \<and>
     (\<forall>t \<in> T. small_pc_ok (key t) m (pc t)))"

lemma small_conc_invD:
  assumes "small_conc_inv T key m0 (m, pc)"
  shows "small_mem_ok m0 m" "\<And>t. t \<notin> T \<Longrightarrow> \<exists>r. pc t = Returned r"
    "\<And>i. m i \<noteq> 0 \<Longrightarrow> m i = m0 i \<or> (\<exists>t \<in> T. pc t = Returned True \<and> m i = key t)"
    "\<And>t. t \<in> T \<Longrightarrow> small_pc_ok (key t) m (pc t)"
  using assms unfolding small_conc_inv_def prod.case by blast+

lemma small_conc_inv_move:
  assumes inv: "small_conc_inv T key m0 (m, pc)" and t: "t \<in> T" "pc t \<noteq> Returned True"
    and x: "small_pc_ok (key t) m x"
  shows "small_conc_inv T key m0 (m, pc(t := x))"
proof -
  note D = small_conc_invD [OF inv]
  have "m i = m0 i \<or> (\<exists>u \<in> T. (pc(t := x)) u = Returned True \<and> m i = key u)" if "m i \<noteq> 0" for i
    using D(3) [OF that] t(2) by (metis fun_upd_other)
  then show ?thesis using D(1,2,4) t(1) x by (auto simp: small_conc_inv_def)
qed

lemma small_conc_inv_write:
  assumes inv: "small_conc_inv T key m0 (m, pc)" and t: "t \<in> T" "pc t = CasCell i"
    and key: "\<And>t. t \<in> T \<Longrightarrow> key t \<noteq> 0" and free: "m i = 0"
  shows "small_conc_inv T key m0 (m(i := key t), pc(t := Returned True))"
proof -
  note D = small_conc_invD [OF inv] and M = small_conc_invD(1) [OF inv, unfolded small_mem_ok_def]
  have k: "key t \<noteq> 0" by (rule key [OF t(1)])
  have i: "i < capacity" "\<And>j. j < i \<Longrightarrow> m j \<noteq> 0 \<and> m j \<noteq> key t" using D(4) [OF t(1)] t(2) by auto
  have up: "m j = 0" if "i \<le> j" for j using M free that by blast
  have other: "j = i \<or> m j \<noteq> key t" for j using i(2) [of j] up [of j] k by (cases "j < i") auto
  have "small_mem_ok m0 (m(i := key t))"
    unfolding small_mem_ok_def
  proof (intro conjI allI impI)
    show "(m(i := key t)) j = m0 j" if "m0 j \<noteq> 0" for j using M that free by auto
    show "(m(i := key t)) j \<noteq> 0" if "j \<le> l" "(m(i := key t)) l \<noteq> 0" for j l
      using i(2) [of j] up k that M by (cases "j < i") (auto split: if_splits)
    show "j = l" if "(m(i := key t)) j = (m(i := key t)) l" "(m(i := key t)) j \<noteq> 0" for j l
      using that other M by (auto split: if_splits)
    show "(m(i := key t)) j = 0" if "\<not> j < capacity" for j using that M i(1) by auto
  qed
  moreover have "small_pc_ok (key u) (m(i := key t)) (pc u)" if u: "u \<in> T" for u
  proof (cases "pc u")
    case (ReadCell j)
    then show ?thesis using D(4) [OF u] free by (auto split: if_splits)
  next
    case (CasCell j)
    then show ?thesis using D(4) [OF u] free by (auto split: if_splits)
  next
    case (Returned r)
    show ?thesis
    proof (cases r)
      case True
      then obtain j where "j < capacity" "m j = key u" using D(4) [OF u] Returned by auto
      moreover from this have "j \<noteq> i" using free key [OF u] by auto
      ultimately show ?thesis using Returned True by auto
    next
      case False
      then show ?thesis using D(4) [OF u] free i(1) Returned by auto
    qed
  qed
  moreover have "(m(i := key t)) j = m0 j \<or>
      (\<exists>u \<in> T. (pc(t := Returned True)) u = Returned True \<and> (m(i := key t)) j = key u)"
    if "(m(i := key t)) j \<noteq> 0" for j
    using D(3) [of j] that t(1) by (cases "j = i") (auto 0 3)
  ultimately show ?thesis using D(2) t(1) i(1) by (auto simp: small_conc_inv_def)
qed


lemma small_step_inv:
  assumes "small_step key st st'" and inv: "small_conc_inv T key m0 st"
    and key: "\<And>t. t \<in> T \<Longrightarrow> key t \<noteq> 0"
  shows "small_conc_inv T key m0 st'"
  using assms(1)
proof cases
  case (read_end pc t i m)
  note D = small_conc_invD [OF inv [unfolded read_end(1)]]
  have t: "t \<in> T" using D(2) read_end(3) by fastforce
  show ?thesis unfolding read_end(2)
    by (rule small_conc_inv_move [OF inv [unfolded read_end(1)] t]) (use read_end D(4) [OF t] in auto)
next
  case (read_found pc t i m)
  note D = small_conc_invD [OF inv [unfolded read_found(1)]]
  have t: "t \<in> T" using D(2) read_found(3) by fastforce
  show ?thesis unfolding read_found(2)
    by (rule small_conc_inv_move [OF inv [unfolded read_found(1)] t]) (use read_found D(4) [OF t] in auto)
next
  case (read_free pc t i m)
  note D = small_conc_invD [OF inv [unfolded read_free(1)]]
  have t: "t \<in> T" using D(2) read_free(3) by fastforce
  show ?thesis unfolding read_free(2)
    by (rule small_conc_inv_move [OF inv [unfolded read_free(1)] t]) (use read_free D(4) [OF t] in auto)
next
  case (read_other pc t i m)
  note D = small_conc_invD [OF inv [unfolded read_other(1)]]
  have t: "t \<in> T" using D(2) read_other(3) by fastforce
  show ?thesis unfolding read_other(2)
    by (rule small_conc_inv_move [OF inv [unfolded read_other(1)] t])
      (use read_other D(4) [OF t] in \<open>auto simp: less_Suc_eq\<close>)
next
  case (cas pc t i m)
  note I = inv [unfolded cas(1)]
  note D = small_conc_invD [OF I]
  have t: "t \<in> T" using D(2) cas(3) by fastforce
  show ?thesis
  proof (cases "m i = 0")
    case True
    then show ?thesis using small_conc_inv_write [OF I t cas(3) key True] cas(2) by simp
  next
    case False
    have "small_conc_inv T key m0 (m, pc(t := if m i = key t then Returned True else ReadCell (i + 1)))"
      by (rule small_conc_inv_move [OF I t]) (use cas(3) D(4) [OF t] False in \<open>auto simp: less_Suc_eq\<close>)
    then show ?thesis using cas(2) False by simp
  qed
qed

lemma small_steps_inv:
  assumes "(small_step key)\<^sup>*\<^sup>* st st'" and "small_conc_inv T key m0 st"
    and "\<And>t. t \<in> T \<Longrightarrow> key t \<noteq> 0"
  shows "small_conc_inv T key m0 st'"
  using assms by (induction rule: rtranclp_induct) (auto intro: small_step_inv)

end
