(* ===== verification/Uniq_Sketch.thy ===== *)
theory Uniq_Sketch
  imports Hll_Estimate Small_Set
begin

text \<open>
  \<^verbatim>\<open>CudaHyperLogLogWithSmallSetOptimization<UInt64, 16, 12>\<close>, the state of the aggregate function
  \<^verbatim>\<open>uniq\<close>, and the properties of the sketches.
\<close>

section \<open>The set with the small set optimisation\<close>

record uniq_set =
  is_large :: bool
  small :: small_set
  large :: hll

definition uniq_new :: uniq_set where
  "uniq_new = \<lparr>is_large = False, small = small_new, large = hll_new\<rparr>"

definition uniq_initNonzeroData :: "uniq_set \<Rightarrow> uniq_set" where
  "uniq_initNonzeroData u = u\<lparr>is_large := False, small := small_initNonzeroData (small u),
     large := hll_initNonzeroData (large u)\<rparr>"

definition uniq_insert :: "64 word \<Rightarrow> uniq_set \<Rightarrow> uniq_set" where
  "uniq_insert value u =
     (let u = u\<lparr>large := hll_insert value (large u)\<rparr>
      in if \<not> is_large u then
           (case tryInsert value (small u) of (s, r) \<Rightarrow>
              (let u = u\<lparr>small := s\<rparr> in if \<not> r then u\<lparr>is_large := True\<rparr> else u))
         else u)"

definition uniq_size :: "uniq_set \<Rightarrow> nat" where
  "uniq_size u = (if \<not> is_large u then small_size (small u) else hll_size (large u))"

definition uniq_merge :: "uniq_set \<Rightarrow> uniq_set \<Rightarrow> uniq_set" where
  "uniq_merge rhs u =
     (if is_large rhs then u\<lparr>is_large := True, large := hll_merge (large rhs) (large u)\<rparr>
      else
        (let u = fold (\<lambda>i. uniq_insert (getWithoutZeroElem i (small rhs)))
               [0..<sizeWithoutZeroElem (small rhs)] u
         in if has_zero_elem (small rhs) then uniq_insert 0 u else u))"

text \<open>The set that the state stands for, as long as it is small, and what it has become then.\<close>

definition uniq_of :: "64 word set \<Rightarrow> uniq_set \<Rightarrow> bool" where
  "uniq_of A u \<longleftrightarrow> finite A \<and> hll_represents A (large u) \<and>
     (if is_large u then capacity < card (A - {0})
      else small_ok (small u) \<and> small_keys (small u) = A)"

lemma uniq_of_new: "uniq_of {} uniq_new"
  by (simp add: uniq_of_def uniq_new_def hll_represents_empty small_new_ok)

lemma uniq_of_insert:
  assumes "uniq_of A u"
  shows "uniq_of (insert v A) (uniq_insert v u)"
proof -
  from assms have fin: "finite A" and L: "hll_represents (insert v A) (hll_insert v (large u))"
    by (simp_all add: uniq_of_def hll_represents_insert)
  have mono: "card (A - {0}) \<le> card (insert v A - {0})" using fin by (intro card_mono) auto
  show ?thesis
  proof (cases "is_large u")
    case True
    then show ?thesis using assms L mono by (auto simp: uniq_of_def uniq_insert_def Let_def)
  next
    case False
    then have s: "small_ok (small u)" "small_keys (small u) = A" using assms by (simp_all add: uniq_of_def)
    obtain s' r where t: "tryInsert v (small u) = (s', r)" by (cases "tryInsert v (small u)")
    note S = tryInsert_spec [OF s(1), of v, unfolded t fst_conv snd_conv s(2)]
    show ?thesis
    proof (cases r)
      case True
      then show ?thesis using False fin L t S by (simp add: uniq_of_def uniq_insert_def Let_def)
    next
      case r: False
      then have v: "v \<notin> A" "v \<noteq> 0" "capacity \<le> card (A - {0})" using S(2) by auto
      then have "insert v A - {0} = insert v (A - {0})" by auto
      then have "capacity < card (insert v A - {0})" using v fin by simp
      then show ?thesis using False fin L t r by (simp add: uniq_of_def uniq_insert_def Let_def)
    qed
  qed
qed

lemma uniq_of_inserts: "uniq_of A u \<Longrightarrow> uniq_of (set xs \<union> A) (fold uniq_insert xs u)"
proof (induction xs arbitrary: A u)
  case (Cons x xs)
  from Cons.IH [OF uniq_of_insert [OF Cons.prems, of x]] show ?case by simp
qed simp

lemma uniq_of_size:
  assumes "uniq_of A u"
  shows "uniq_size u = (if card (A - {0}) \<le> capacity then card A else hll_size (large u))"
proof (cases "is_large u")
  case False
  then have s: "small_ok (small u)" "small_keys (small u) = A" using assms by (simp_all add: uniq_of_def)
  then show ?thesis using False small_size_card [OF s(1)] small_keys_capacity [OF s(1)]
    by (simp add: uniq_size_def)
qed (use assms in \<open>simp add: uniq_of_def uniq_size_def\<close>)

lemma uniq_of_merge_small:
  assumes rhs: "uniq_of B rhs" "\<not> is_large rhs" and u: "uniq_of A u"
  shows "\<exists>C. C \<subseteq> B - {0} \<and> card C \<le> 1 \<and> (B - {0} \<noteq> {} \<longrightarrow> C \<noteq> {}) \<and>
    uniq_of (A \<union> C \<union> (B \<inter> {0})) (uniq_merge rhs u)"
proof -
  from rhs have s: "small_ok (small rhs)" "small_keys (small rhs) = B" by (simp_all add: uniq_of_def)
  from s(1) obtain ks where ks: "0 \<notin> set ks" "buf (small rhs) = ks @ replicate (capacity - length ks) 0"
    by (auto simp: small_ok_def)
  have B: "B - {0} = set ks" "B \<inter> {0} = (if has_zero_elem (small rhs) then {0} else {})"
    unfolding s(2) [symmetric] small_keys_def ks(2) using ks(1) by auto
  let ?C = "set (take 1 ks)"
  have n: "sizeWithoutZeroElem (small rhs) = of_bool (ks \<noteq> [])"
    using ks by (simp add: sizeWithoutZeroElem_def takeWhile_nonzero)
  have f: "fold (\<lambda>i. uniq_insert (getWithoutZeroElem i (small rhs))) [0..<sizeWithoutZeroElem (small rhs)] u =
      fold uniq_insert (take 1 ks) u"
    using ks(2) by (cases ks) (simp_all add: n getWithoutZeroElem_def)
  have m: "uniq_merge rhs u =
      (if has_zero_elem (small rhs) then uniq_insert 0 (fold uniq_insert (take 1 ks) u)
       else fold uniq_insert (take 1 ks) u)"
    using rhs(2) f by (simp add: uniq_merge_def)
  have "uniq_of (?C \<union> A) (fold uniq_insert (take 1 ks) u)" by (rule uniq_of_inserts [OF u])
  with uniq_of_insert [OF this, of 0] have "uniq_of (A \<union> ?C \<union> (B \<inter> {0})) (uniq_merge rhs u)"
    unfolding m B(2) by (auto simp: Un_ac)
  moreover have "?C \<subseteq> B - {0}" "card ?C \<le> 1" "B - {0} \<noteq> {} \<longrightarrow> ?C \<noteq> {}"
    unfolding B(1) by (cases ks; simp)+
  ultimately show ?thesis by blast
qed

section \<open>Properties\<close>




text \<open>
  (C17) Merging two HyperLogLog counters gives the counter of all values of both, so that the estimate of
  a union does not depend on how the values were distributed over the counters.
\<close>

theorem hll_merge_union:
  "hll_merge (fold hll_insert ys hll_new) (fold hll_insert xs hll_new) = fold hll_insert (xs @ ys) hll_new"
proof -
  have R: "hll_represents (set zs) (fold hll_insert zs hll_new)" for zs
    using hll_represents_fold [OF hll_represents_empty, of zs] by simp
  show ?thesis
    using hll_represents_merge [OF R R, of xs ys] R [of "xs @ ys"] by (simp add: hll_represents_unique)
qed

text \<open>
  (C18) Merging a set that is still small into another loses values: \<^verbatim>\<open>sizeWithoutZeroElem\<close> returns
  \<^verbatim>\<open>bool\<close>, so that of all values other than 0 only the first is copied.  A merge into an empty set has at
  most two elements, whatever was inserted into the source.
\<close>

theorem uniq_merge_loses:
  assumes "card (set xs - {0}) \<le> 16"
  shows "uniq_size (uniq_merge (fold uniq_insert xs uniq_new) uniq_new) =
    of_bool (set xs - {0} \<noteq> {}) + of_bool (0 \<in> set xs)"
proof -
  let ?r = "fold uniq_insert xs uniq_new"
  have r: "uniq_of (set xs) ?r" using uniq_of_inserts [OF uniq_of_new, of xs] by simp
  then have "\<not> is_large ?r" using assms by (auto simp: uniq_of_def capacity_def split: if_splits)
  from uniq_of_merge_small [OF r this uniq_of_new] obtain C where
    C: "C \<subseteq> set xs - {0}" "card C \<le> 1" "set xs - {0} \<noteq> {} \<longrightarrow> C \<noteq> {}"
      "uniq_of (C \<union> (set xs \<inter> {0})) (uniq_merge ?r uniq_new)" by auto
  have fin: "finite C" using C(1) by (rule finite_subset) simp
  have c: "card C = of_bool (set xs - {0} \<noteq> {})"
    using C(1-3) fin by (cases "C = {}") (auto simp: card_gt_0_iff le_Suc_eq)
  have d: "C \<union> set xs \<inter> {0} - {0} = C" using C(1) by auto
  have "card (C \<union> set xs \<inter> {0}) = card C + card (set xs \<inter> {0})"
    using C(1) fin by (intro card_Un_disjoint) auto
  then show ?thesis using uniq_of_size [OF C(4)] C(2) c by (simp add: d capacity_def)
qed

text \<open>
  (C19) Concurrent \<^verbatim>\<open>tryInsert\<close> on one small set: in every interleaving the buffer keeps the keys it had,
  has no duplicates and no gaps; a thread that returned true finds its key in it, a thread that
  returned false found the buffer full without its key, and no other keys appear.
\<close>

theorem small_set_concurrent:
  assumes "small_mem_ok m0 m0" and "\<forall>t \<in> T. key t \<noteq> 0"
    and "(small_step key)\<^sup>*\<^sup>* (m0, \<lambda>t. if t \<in> T then ReadCell 0 else Returned False) (m, pc)"
  shows "small_mem_ok m0 m \<and>
    (\<forall>t \<in> T. \<forall>r. pc t = Returned r \<longrightarrow>
       (if r then \<exists>i < capacity. m i = key t else \<forall>i < capacity. m i \<noteq> 0 \<and> m i \<noteq> key t)) \<and>
    (\<forall>i. m i \<noteq> 0 \<longrightarrow> m i = m0 i \<or> (\<exists>t \<in> T. pc t = Returned True \<and> m i = key t))"
proof -
  have "small_conc_inv T key m0 (m0, \<lambda>t. if t \<in> T then ReadCell 0 else Returned False)"
    using assms(1) by (auto simp: small_conc_inv_def)
  from small_steps_inv [OF assms(3) this] assms(2) have "small_conc_inv T key m0 (m, pc)" by blast
  note D = small_conc_invD [OF this]
  show ?thesis using D(1,3) D(4) by fastforce
qed

text \<open>
  (C20) The denominator of the estimate, which is kept as a count per rank, is exactly the sum of
  \<open>2\<close> to the minus rank over all buckets, and the counter that has seen no value estimates 0.
\<close>

theorem hll_denominator_exact:
  "denominator_get (fold hll_insert xs hll_new) = (\<Sum>b < bucket_count. 1 / 2 ^ hll_ranks (set xs) b) \<and>
   hll_size hll_new = 0"
proof -
  have "hll_represents (set xs) (fold hll_insert xs hll_new)"
    using hll_represents_fold [OF hll_represents_empty, of xs] by simp
  moreover have "buckets_of (rank_store hll_new) 0 = bucket_count"
    by (simp add: buckets_of_def hll_new_def)
  ultimately show ?thesis
    using denominator_get_sum hll_size_linear_aux [OF hll_new_ok hll_raw_new]
    by (simp add: hll_represents_def bucket_count_val)
qed

section \<open>Concrete runs\<close>

lemma hll_run1:
  "hll_step\<^sup>*\<^sup>* (hll_new, hll_start (set [3]) (\<lambda>_. (7, 2)))
     (fold (\<lambda>t. hll_update 7 2) [3] hll_new, \<lambda>_. Finished)"
proof -
  define s1 where "s1 = hll_new\<lparr>rank_store := (rank_store hll_new)(7 := 2)\<rparr>"
  define s2 where "s2 = s1\<lparr>zeros := zeros s1 - 1\<rparr>"
  define s3 where "s3 = s2\<lparr>rank_count := (rank_count s2)(0 := rank_count s2 0 - 1)\<rparr>"
  define s4 where "s4 = s3\<lparr>rank_count := (rank_count s3)(2 := rank_count s3 2 + 1)\<rparr>"
  define p where "p x = (\<lambda>t :: nat. if t = 3 then x else Finished)" for x
  have upd: "(p x)(3 := y) = p y" for x y by (auto simp: p_def)
  have p0: "hll_start (set [3]) (\<lambda>_. (7, 2)) = p (AtomicMax 7 2)" by (auto simp: hll_start_def p_def)
  have pc: "p x 3 = x" for x by (simp add: p_def)
  have a: "hll_step (hll_new, p (AtomicMax 7 2)) (s1, p (SubZeros 0 2))"
    using step_max [of "p (AtomicMax 7 2)" 3 7 2 0 hll_new] by (simp add: pc upd s1_def hll_new_def)
  have b: "hll_step (s1, p (SubZeros 0 2)) (s2, p (SubCount 0 2))"
    using step_zeros [of "p (SubZeros 0 2)" 3 0 2 s1] by (simp add: pc upd s2_def)
  have c: "hll_step (s2, p (SubCount 0 2)) (s3, p (AddCount 2))"
    using step_sub [of "p (SubCount 0 2)" 3 0 2 s2] by (simp add: pc upd s3_def)
  have d: "hll_step (s3, p (AddCount 2)) (s4, p Finished)"
    using step_add [of "p (AddCount 2)" 3 2 s3] by (simp add: pc upd s4_def)
  note r = converse_rtranclp_into_rtranclp
  have "hll_step\<^sup>*\<^sup>* (hll_new, p (AtomicMax 7 2)) (s4, p Finished)"
    by (rule r [of hll_step, OF a], rule r [of hll_step, OF b], rule r [of hll_step, OF c],
        rule r_into_rtranclp [of hll_step, OF d])
  moreover have "p Finished = (\<lambda>_. Finished)" by (auto simp: p_def)
  moreover have "s4 = hll_update 7 2 hll_new"
    by (simp add: s4_def s3_def s2_def s1_def hll_update_def hll_new_def denominator_update_def Let_def)
  ultimately show ?thesis unfolding p0 by simp
qed



theorem uniq_merge_loses_witness:
  "uniq_size (uniq_merge (fold uniq_insert [5, 6, 7] uniq_new) uniq_new) = 1"
  using uniq_merge_loses [of "[5, 6, 7]"] by (simp add: card_insert_if)

definition cells9 :: "nat \<Rightarrow> 64 word" where
  "cells9 = (\<lambda>i. if i = 0 then 9 else 0)"

lemma cells9_ok: "small_mem_ok cells9 cells9"
  by (auto simp: small_mem_ok_def cells9_def capacity_def)

lemma cells9_at: "cells9 0 = 9" "cells9 1 = 0"
  by (simp_all add: cells9_def)

lemma small_run:
  "(small_step (\<lambda>_. 4))\<^sup>*\<^sup>* (cells9, \<lambda>t. if t \<in> {2} then ReadCell 0 else Returned False)
     (cells9(1 := 4), \<lambda>t. if t \<in> {2} then Returned True else Returned False)"
proof -
  define p where "p x = (\<lambda>t :: nat. if t \<in> {2} then x else Returned False)" for x
  have upd: "(p x)(2 := y) = p y" for x y by (auto simp: p_def)
  have pc: "p x 2 = x" for x by (simp add: p_def)
  have a: "small_step (\<lambda>_. 4) (cells9, p (ReadCell 0)) (cells9, p (ReadCell 1))"
    using read_other [of "p (ReadCell 0)" 2 0 cells9 "\<lambda>_. 4"]
    by (simp add: pc upd cells9_at capacity_def del: One_nat_def)
  have b: "small_step (\<lambda>_. 4) (cells9, p (ReadCell 1)) (cells9, p (CasCell 1))"
    using read_free [of "p (ReadCell 1)" 2 1 cells9 "\<lambda>_. 4"]
    by (simp add: pc upd cells9_at capacity_def del: One_nat_def)
  have c: "small_step (\<lambda>_. 4) (cells9, p (CasCell 1)) (cells9(1 := 4), p (Returned True))"
    using cas [of "p (CasCell 1)" 2 1 "\<lambda>_. 4" cells9] by (simp add: pc upd cells9_at del: One_nat_def)
  note r = converse_rtranclp_into_rtranclp
  show ?thesis
    using r [of "small_step (\<lambda>_. 4)", OF a] r [of "small_step (\<lambda>_. 4)", OF b] r_into_rtranclp [of "small_step (\<lambda>_. 4)", OF c]
    unfolding p_def by blast
qed

theorem small_set_concurrent_witness: "small_mem_ok cells9 (cells9(1 := 4))"
  using small_set_concurrent [OF cells9_ok _ small_run] by simp

end
