(* ===== verification/Cuda_Column.thy ===== *)
theory Cuda_Column
  imports Murmur_Hash Cuda_Launch
begin

text \<open>
  Columns of strings: on the device (\<^verbatim>\<open>CudaColumnString\<close>), in pinned host memory
  (\<^verbatim>\<open>CudaHostStringsBuffer\<close>), and the parallel copy between host buffers (\<^verbatim>\<open>parallelMemcpy.h\<close>).
  Blocks of a column arrive with offsets that count from the start of the block; the kernel of
  \<^verbatim>\<open>calcLengths\<close> turns them into offsets and lengths in the whole buffer.
\<close>

section \<open>Copying in parallel\<close>

text \<open>The part of the thread \<open>id\<close>: \<^verbatim>\<open>my_start\<close> and \<^verbatim>\<open>my_size\<close>.\<close>

definition my_start :: "size_t \<Rightarrow> size_t \<Rightarrow> nat \<Rightarrow> size_t" where
  "my_start n threads_num i = mul64 i n div threads_num"

definition my_size :: "size_t \<Rightarrow> size_t \<Rightarrow> nat \<Rightarrow> size_t" where
  "my_size n threads_num i = sub64 (mul64 (add64 i 1) n div threads_num) (my_start n threads_num i)"

definition parallelMemcpyThread :: "nat \<Rightarrow> nat \<Rightarrow> size_t \<Rightarrow> size_t \<Rightarrow> memory \<Rightarrow> memory" where
  "parallelMemcpyThread x y start sz m = memcpy m (x + start) (y + start) sz"

text \<open>\<open>order\<close> lists the threads, the calling one included, in the order in which they run.\<close>

definition parallelMemcpy :: "nat list \<Rightarrow> nat \<Rightarrow> nat \<Rightarrow> size_t \<Rightarrow> size_t \<Rightarrow> memory \<Rightarrow> memory" where
  "parallelMemcpy order x y n threads_num m =
     fold (\<lambda>i. parallelMemcpyThread x y (my_start n threads_num i) (my_size n threads_num i)) order m"

lemma my_part:
  assumes "i < t" and "t * n < 2 ^ 64" and "t < 2 ^ 64"
  shows "my_start n t i = i * n div t" and "my_start n t i + my_size n t i = Suc i * n div t"
proof -
  have 1: "i * n < 2 ^ 64" "Suc i * n < 2 ^ 64" and 2: "Suc i < 2 ^ 64"
    using assms mult_le_mono1 [of i t n] mult_le_mono1 [of "Suc i" t n] by (simp_all add: Suc_leI)
  show s: "my_start n t i = i * n div t" using 1 by (simp add: my_start_def mul64_exact)
  have le: "i * n div t \<le> Suc i * n div t" by (intro div_le_mono) simp
  have "Suc i * n div t < 2 ^ 64" using 1(2) by (meson div_le_dividend le_less_trans)
  then have "my_size n t i = Suc i * n div t - i * n div t"
    using 1(2) 2 le s by (simp add: my_size_def mul64_exact add64_exact sub64_exact del: mult_Suc)
  then show "my_start n t i + my_size n t i = Suc i * n div t" using s le by simp
qed

lemma parts_cover:
  fixes t n j :: nat
  assumes "j < n" and "0 < t"
  shows "\<exists>i < t. i * n div t \<le> j \<and> j < Suc i * n div t"
proof -
  have last: "j < t * n div t" using assms by simp
  define k where "k = (LEAST k. j < k * n div t)"
  have k: "j < k * n div t" unfolding k_def by (rule LeastI [of _ t]) (rule last)
  have "k \<le> t" unfolding k_def by (rule Least_le) (rule last)
  moreover obtain i where i: "k = Suc i" using k by (cases k) auto
  moreover have "\<not> j < i * n div t" using i unfolding k_def by (metis lessI not_less_Least)
  ultimately show ?thesis using k by (intro exI [of _ i]) auto
qed

lemma memcpy_fold:
  assumes apart: "\<And>i j. i < n \<Longrightarrow> j < n \<Longrightarrow> x + i \<noteq> y + j"
    and parts: "\<And>i. i \<in> set is \<Longrightarrow> s i + z i \<le> n"
  shows "fold (\<lambda>i. parallelMemcpyThread x y (s i) (z i)) is m a =
    (if \<exists>i \<in> set is. x + s i \<le> a \<and> a < x + s i + z i then m (y + (a - x)) else m a)"
  using parts
proof (induction "is" arbitrary: m)
  case (Cons k "is")
  let ?m = "parallelMemcpyThread x y (s k) (z k) m"
  have m1: "?m b = (if x + s k \<le> b \<and> b < x + s k + z k then m (y + (b - x)) else m b)" for b
    unfolding parallelMemcpyThread_def memcpy_def by (auto simp: algebra_simps)
  have src: "?m (y + j) = m (y + j)" if "j < n" for j
  proof -
    have "\<not> (x + s k \<le> y + j \<and> y + j < x + s k + z k)"
    proof
      assume b: "x + s k \<le> y + j \<and> y + j < x + s k + z k"
      then have "y + j - x < n" "x + (y + j - x) = y + j" using Cons.prems [of k] by auto
      then show False using apart [OF _ that] by metis
    qed
    then show ?thesis unfolding m1 by (rule if_not_P)
  qed
  have in_n: "a - x < n" if "i \<in> set is" "x + s i \<le> a" "a < x + s i + z i" for i
    using Cons.prems [of i] that by auto
  define w where "w = y + (a - x)"
  have ih: "fold (\<lambda>i. parallelMemcpyThread x y (s i) (z i)) is ?m a =
    (if \<exists>i \<in> set is. x + s i \<le> a \<and> a < x + s i + z i then ?m w else ?m a)"
    unfolding w_def by (rule Cons.IH) (use Cons.prems in auto)
  have "?m w = m w" if "\<exists>i \<in> set is. x + s i \<le> a \<and> a < x + s i + z i"
    using src [of "a - x"] in_n that unfolding w_def by blast
  moreover have "?m a = (if x + s k \<le> a \<and> a < x + s k + z k then m w else m a)"
    unfolding w_def by (rule m1)
  ultimately show ?case unfolding w_def [symmetric] fold_simps ih by auto
qed simp

lemma parallelMemcpy_eq:
  assumes "0 < t" and "t * n < 2 ^ 64" and "t < 2 ^ 64" and "set order = {0..<t}"
    and "\<And>i j. i < n \<Longrightarrow> j < n \<Longrightarrow> x + i \<noteq> y + j"
  shows "parallelMemcpy order x y n t m = memcpy m x y n"
proof
  fix a
  have part: "my_start n t i = i * n div t" "my_start n t i + my_size n t i = Suc i * n div t" if "i < t" for i
    using my_part [OF that assms(2,3)] by simp_all
  have le: "my_start n t i + my_size n t i \<le> n" if "i \<in> set order" for i
  proof -
    have "Suc i * n div t \<le> t * n div t" using that assms(4) by (intro div_le_mono mult_le_mono1) auto
    then show ?thesis using part(2) [of i] that assms(1,4) by auto
  qed
  have "(\<exists>i \<in> set order. x + my_start n t i \<le> a \<and> a < x + my_start n t i + my_size n t i) \<longleftrightarrow> x \<le> a \<and> a < x + n"
  proof
    assume "\<exists>i \<in> set order. x + my_start n t i \<le> a \<and> a < x + my_start n t i + my_size n t i"
    then show "x \<le> a \<and> a < x + n" using le by fastforce
  next
    assume a: "x \<le> a \<and> a < x + n"
    then have "a - x < n" by linarith
    from parts_cover [OF this assms(1)] obtain i where "i < t" "i * n div t \<le> a - x" "a - x < Suc i * n div t"
      by blast
    then show "\<exists>i \<in> set order. x + my_start n t i \<le> a \<and> a < x + my_start n t i + my_size n t i"
      using part [of i] assms(4) a by (intro bexI [of _ i]) auto
  qed
  then show "parallelMemcpy order x y n t m a = memcpy m x y n a"
    unfolding parallelMemcpy_def by (subst memcpy_fold [OF assms(5) le]) (simp_all add: memcpy_def)
qed

section \<open>Columns on the device\<close>

record cuda_column =
  col_str_num :: size_t
  col_max_str_num :: size_t
  col_sz :: size_t
  col_max_sz :: size_t
  col_buf :: nat
  col_lens :: "nat \<Rightarrow> nat"
  col_offsets :: "nat \<Rightarrow> nat"
  col_offsets64 :: "nat \<Rightarrow> nat"
  blocks_sizes :: "nat list"
  blocks_buf_sizes :: "nat list"

datatype column_error = ZeroSizeBuffer | NoMemoryForStrings | NoMemoryForLengths | NoMemoryForOffsets | NoMemoryForOffsets64

text \<open>
  The constructor.  \<open>cudaMalloc k\<close> is the outcome of the \<open>k\<close>-th allocation: a buffer, named by its
  address, or an error.  The result names the buffers freed again before the exception.
\<close>

definition CudaColumnString ::
  "(nat \<Rightarrow> nat option) \<Rightarrow> size_t \<Rightarrow> size_t \<Rightarrow> cuda_column \<Rightarrow> (column_error \<times> nat list) + cuda_column" where
  "CudaColumnString cudaMalloc max_str_num max_sz raw =
     (if max_str_num = 0 \<or> max_sz = 0 then Inl (ZeroSizeBuffer, [])
      else case cudaMalloc 0 of None \<Rightarrow> Inl (NoMemoryForStrings, [])
      | Some b \<Rightarrow> (case cudaMalloc 1 of None \<Rightarrow> Inl (NoMemoryForLengths, [b])
      | Some ls \<Rightarrow> (case cudaMalloc 2 of None \<Rightarrow> Inl (NoMemoryForOffsets, [b, ls])
      | Some os \<Rightarrow> (case cudaMalloc 3 of None \<Rightarrow> Inl (NoMemoryForOffsets64, [b, ls, os])
      | Some os64 \<Rightarrow> Inr (raw\<lparr>col_str_num := 0, col_max_str_num := max_str_num, col_sz := 0, col_max_sz := max_sz,
            col_buf := b, blocks_sizes := [], blocks_buf_sizes := []\<rparr>)))))"

definition column_empty :: "cuda_column \<Rightarrow> bool" where
  "column_empty C \<longleftrightarrow> col_str_num C = 0 \<or> col_sz C = 0"

definition hasSpace :: "cuda_column \<Rightarrow> size_t \<Rightarrow> size_t \<Rightarrow> bool" where
  "hasSpace C num sz =
     (if add64 (col_str_num C) num > col_max_str_num C then False
      else if add64 (col_sz C) sz > col_max_sz C then False
      else True)"

text \<open>Copying from host to device memory.\<close>

definition cudaMemcpyHostToDevice :: "memory \<Rightarrow> nat \<Rightarrow> memory \<Rightarrow> nat \<Rightarrow> size_t \<Rightarrow> memory" where
  "cudaMemcpyHostToDevice dev dst host src n =
     (\<lambda>x. if dst \<le> x \<and> x < dst + n then host (src + (x - dst)) else dev x)"

definition column_addData ::
  "size_t \<Rightarrow> size_t \<Rightarrow> memory \<Rightarrow> nat \<Rightarrow> (nat \<Rightarrow> nat) \<Rightarrow> memory \<times> cuda_column \<Rightarrow> memory \<times> cuda_column" where
  "column_addData num sz host str_buf offs = (\<lambda>(m, C).
     (cudaMemcpyHostToDevice m (col_buf C + col_sz C) host str_buf sz,
      C\<lparr>col_offsets64 := (\<lambda>i. if col_str_num C \<le> i \<and> i < col_str_num C + num then offs (i - col_str_num C)
                              else col_offsets64 C i),
        col_str_num := add64 (col_str_num C) num, col_sz := add64 (col_sz C) sz,
        blocks_sizes := blocks_sizes C @ [num mod 2 ^ 32],
        blocks_buf_sizes := blocks_buf_sizes C @ [sz mod 2 ^ 32]\<rparr>))"

definition column_setSize :: "size_t \<Rightarrow> size_t \<Rightarrow> cuda_column \<Rightarrow> cuda_column" where
  "column_setSize num sz C = C\<lparr>col_str_num := num, col_sz := sz\<rparr>"

definition column_reset :: "cuda_column \<Rightarrow> cuda_column" where
  "column_reset C = C\<lparr>col_str_num := 0, col_sz := 0, blocks_sizes := [], blocks_buf_sizes := []\<rparr>"

definition kerCalcLengths ::
  "nat \<Rightarrow> nat \<Rightarrow> nat \<Rightarrow> (nat \<Rightarrow> nat) \<Rightarrow> nat \<Rightarrow> nat \<Rightarrow> (nat \<Rightarrow> nat) \<times> (nat \<Rightarrow> nat) \<Rightarrow> (nat \<Rightarrow> nat) \<times> (nat \<Rightarrow> nat)" where
  "kerCalcLengths block_begin block_size block_offset offsets64 blockIdx threadIdx = (\<lambda>(lens, offsets).
     (let i = grid_thread blockIdx threadIdx
      in if \<not> i < block_size then (lens, offsets)
         else
           (let local_offset_next = offsets64 ((block_begin + i) mod 2 ^ 32) mod 2 ^ 32;
                local_offset = (if i > 0 then offsets64 ((block_begin + i - 1) mod 2 ^ 32) mod 2 ^ 32 else 0)
            in (lens((block_begin + i) mod 2 ^ 32 := (local_offset_next + 2 ^ 32 - local_offset) mod 2 ^ 32),
                offsets((block_begin + i) mod 2 ^ 32 := (local_offset + block_offset) mod 2 ^ 32)))))"

text \<open>\<open>orders k\<close> is the order of the threads of the \<open>k\<close>-th launch.\<close>

fun calcLengths_loop ::
  "(nat \<Rightarrow> (nat \<times> nat) list) \<Rightarrow> nat \<Rightarrow> nat list \<Rightarrow> nat list \<Rightarrow> nat \<Rightarrow> nat \<Rightarrow> (nat \<Rightarrow> nat) \<Rightarrow>
   (nat \<Rightarrow> nat) \<times> (nat \<Rightarrow> nat) \<Rightarrow> (nat \<Rightarrow> nat) \<times> (nat \<Rightarrow> nat)" where
  "calcLengths_loop orders k (n # ns) (z # zs) block_begin block_offset offsets64 S =
     calcLengths_loop orders (Suc k) ns zs ((block_begin + n) mod 2 ^ 32) ((block_offset + z) mod 2 ^ 32) offsets64
       (launch (kerCalcLengths block_begin n block_offset offsets64) (orders k) S)"
| "calcLengths_loop orders k ns zs block_begin block_offset offsets64 S = S"

definition calcLengths :: "(nat \<Rightarrow> (nat \<times> nat) list) \<Rightarrow> cuda_column \<Rightarrow> cuda_column" where
  "calcLengths orders C =
     (let (ls, os) = calcLengths_loop orders 0 (blocks_sizes C) (blocks_buf_sizes C) 0 0 (col_offsets64 C)
                       (col_lens C, col_offsets C)
      in C\<lparr>col_lens := ls, col_offsets := os\<rparr>)"

section \<open>Columns in pinned host memory\<close>

record host_buffer =
  hb_has_lens :: bool
  hb_has_offsets :: bool
  hb_has_offsets64 :: bool
  hb_str_num :: size_t
  hb_max_str_num :: size_t
  hb_sz :: size_t
  hb_max_sz :: size_t
  hb_buf :: nat
  hb_offsets64 :: nat
  hb_blocks_sizes :: "nat list"
  hb_blocks_buf_sizes :: "nat list"

definition CudaHostStringsBuffer ::
  "(size_t \<Rightarrow> nat) \<Rightarrow> size_t \<Rightarrow> size_t \<Rightarrow> bool \<Rightarrow> bool \<Rightarrow> bool \<Rightarrow> host_buffer" where
  "CudaHostStringsBuffer pinned_alloc max_str_num max_sz has_lens has_offsets has_offsets64 =
     \<lparr>hb_has_lens = has_lens, hb_has_offsets = has_offsets, hb_has_offsets64 = has_offsets64,
      hb_str_num = 0, hb_max_str_num = max_str_num, hb_sz = 0, hb_max_sz = max_sz,
      hb_buf = pinned_alloc max_sz,
      hb_offsets64 = (if has_offsets64 then pinned_alloc (mul64 max_str_num 8) else 0),
      hb_blocks_sizes = [], hb_blocks_buf_sizes = []\<rparr>"

definition host_hasSpace :: "host_buffer \<Rightarrow> size_t \<Rightarrow> size_t \<Rightarrow> bool" where
  "host_hasSpace H num sz =
     (if add64 (hb_str_num H) num > hb_max_str_num H then False
      else if add64 (hb_sz H) sz > hb_max_sz H then False
      else True)"

definition host_addData ::
  "nat list \<Rightarrow> nat list \<Rightarrow> size_t \<Rightarrow> size_t \<Rightarrow> nat \<Rightarrow> nat \<Rightarrow> size_t \<Rightarrow> memory \<times> host_buffer \<Rightarrow> memory \<times> host_buffer" where
  "host_addData order order' num sz str_buf offs memcpy_threads_num = (\<lambda>(m, H).
     (let m = parallelMemcpy order (hb_buf H + hb_sz H) str_buf sz memcpy_threads_num m;
          m = parallelMemcpy order' (hb_offsets64 H + 8 * hb_str_num H) offs (mul64 num 8) memcpy_threads_num m
      in (m, H\<lparr>hb_str_num := add64 (hb_str_num H) num, hb_sz := add64 (hb_sz H) sz,
               hb_blocks_sizes := hb_blocks_sizes H @ [num mod 2 ^ 32],
               hb_blocks_buf_sizes := hb_blocks_buf_sizes H @ [sz mod 2 ^ 32]\<rparr>)))"

definition host_setSize :: "size_t \<Rightarrow> size_t \<Rightarrow> host_buffer \<Rightarrow> host_buffer" where
  "host_setSize num sz H = H\<lparr>hb_str_num := num, hb_sz := sz\<rparr>"

definition host_reset :: "host_buffer \<Rightarrow> host_buffer" where
  "host_reset H = H\<lparr>hb_str_num := 0, hb_sz := 0, hb_blocks_sizes := [], hb_blocks_buf_sizes := []\<rparr>"

section \<open>The strings of a column\<close>

text \<open>A block of strings as \<^verbatim>\<open>ColumnString\<close> has it: the bytes one after the other and the end of each string.\<close>

definition block_offsets :: "8 word list list \<Rightarrow> nat \<Rightarrow> nat" where
  "block_offsets ss i = length (concat (take (Suc i) ss))"

definition block_bytes :: "8 word list list \<Rightarrow> nat" where
  "block_bytes ss = length (concat ss)"

fun offsets_ok :: "(nat \<Rightarrow> nat) \<Rightarrow> nat \<Rightarrow> 8 word list list list \<Rightarrow> bool" where
  "offsets_ok offsets64 b [] = True"
| "offsets_ok offsets64 b (ss # bs) =
     ((\<forall>i < length ss. offsets64 (b + i) = block_offsets ss i) \<and> offsets_ok offsets64 (b + length ss) bs)"

definition column_holds :: "memory \<Rightarrow> cuda_column \<Rightarrow> 8 word list list list \<Rightarrow> bool" where
  "column_holds m C bs \<longleftrightarrow> col_str_num C = length (concat bs) \<and> col_sz C = block_bytes (concat bs) \<and>
     col_str_num C \<le> col_max_str_num C \<and> col_sz C \<le> col_max_sz C \<and>
     col_max_str_num C < 2 ^ 32 \<and> col_max_sz C < 2 ^ 32 \<and>
     blocks_sizes C = map length bs \<and> blocks_buf_sizes C = map block_bytes bs \<and>
     bytes_at m (col_buf C) (col_sz C) = concat (concat bs) \<and> offsets_ok (col_offsets64 C) 0 bs"

definition column_strings :: "memory \<Rightarrow> cuda_column \<Rightarrow> 8 word list list" where
  "column_strings m C =
     map (\<lambda>i. bytes_at m (col_buf C + col_offsets C i) (col_lens C i)) [0..<col_str_num C]"

lemma column_reset_holds:
  "col_max_str_num C < 2 ^ 32 \<Longrightarrow> col_max_sz C < 2 ^ 32 \<Longrightarrow> column_holds m (column_reset C) []"
  by (simp add: column_holds_def column_reset_def block_bytes_def bytes_at_def)

lemma offsets_ok_append:
  "offsets_ok f b (bs @ [ss]) \<longleftrightarrow>
     offsets_ok f b bs \<and> (\<forall>i < length ss. f (b + length (concat bs) + i) = block_offsets ss i)"
  by (induction bs arbitrary: b) (auto simp: add.assoc)

lemma offsets_ok_cong:
  "(\<And>x. x < b + length (concat bs) \<Longrightarrow> f x = g x) \<Longrightarrow> offsets_ok f b bs = offsets_ok g b bs"
  by (induction bs arbitrary: b) (auto simp: add.assoc)

lemma bytes_at_append: "bytes_at m a (n + k) = bytes_at m a n @ bytes_at m (a + n) k"
  unfolding bytes_at_def add.assoc [symmetric] upt_add_eq_append [OF le_add1, of a n k] map_append ..

lemma bytes_at_eqI: "(\<And>x. a \<le> x \<Longrightarrow> x < a + n \<Longrightarrow> m x = m' x) \<Longrightarrow> bytes_at m a n = bytes_at m' a n"
  by (auto simp: bytes_at_def)

lemma hasSpace_exact:
  assumes "hasSpace C n z" and "col_str_num C \<le> col_max_str_num C" and "col_sz C \<le> col_max_sz C"
    and "col_max_str_num C < 2 ^ 32" and "col_max_sz C < 2 ^ 32" and "n < 2 ^ 63" and "z < 2 ^ 63"
  shows "add64 (col_str_num C) n = col_str_num C + n \<and> col_str_num C + n \<le> col_max_str_num C \<and>
    add64 (col_sz C) z = col_sz C + z \<and> col_sz C + z \<le> col_max_sz C"
proof -
  have "col_str_num C + n < 2 ^ 64" "col_sz C + z < 2 ^ 64" using assms(2-7) by auto
  then show ?thesis using assms(1) by (simp add: hasSpace_def add64_exact split: if_splits)
qed

lemma column_addData_holds:
  assumes h: "column_holds m C bs" and sp: "hasSpace C (length ss) (block_bytes ss)"
    and "length ss < 2 ^ 63" and "block_bytes ss < 2 ^ 63"
    and src: "bytes_at host a (block_bytes ss) = concat ss" and offs: "\<forall>i < length ss. offs i = block_offsets ss i"
    and r: "column_addData (length ss) (block_bytes ss) host a offs (m, C) = (m', C')"
  shows "column_holds m' C' (bs @ [ss])"
    and "x < col_buf C + col_sz C \<or> col_buf C + col_max_sz C \<le> x \<Longrightarrow> m' x = m x"
    and "col_buf C' = col_buf C" and "col_max_sz C' = col_max_sz C" and "col_max_str_num C' = col_max_str_num C"
proof -
  have e: "add64 (col_str_num C) (length ss) = col_str_num C + length ss"
    "col_str_num C + length ss \<le> col_max_str_num C"
    "add64 (col_sz C) (block_bytes ss) = col_sz C + block_bytes ss" "col_sz C + block_bytes ss \<le> col_max_sz C"
    using hasSpace_exact [OF sp] h assms(3,4) by (auto simp: column_holds_def)
  have hb: "bytes_at m (col_buf C) (col_sz C) = concat (concat bs)" using h unfolding column_holds_def by blast
  have m': "m' = cudaMemcpyHostToDevice m (col_buf C + col_sz C) host a (block_bytes ss)"
    using r by (auto simp: column_addData_def)
  have "bytes_at m' (col_buf C + col_sz C) (block_bytes ss) = bytes_at host a (block_bytes ss)"
    unfolding m' cudaMemcpyHostToDevice_def by (intro nth_equalityI) (auto simp: bytes_at_def)
  moreover have "bytes_at m' (col_buf C) (col_sz C) = bytes_at m (col_buf C) (col_sz C)"
    unfolding m' cudaMemcpyHostToDevice_def by (rule bytes_at_eqI) auto
  ultimately have bytes: "bytes_at m' (col_buf C) (col_sz C + block_bytes ss) = concat (concat (bs @ [ss]))"
    using hb src unfolding bytes_at_append by simp
  have ofs: "offsets_ok (\<lambda>i. if col_str_num C \<le> i \<and> i < col_str_num C + length ss then offs (i - col_str_num C)
      else col_offsets64 C i) 0 (bs @ [ss])"
    unfolding offsets_ok_append using h offs
    by (auto simp: column_holds_def cong: offsets_ok_cong)
  have C': "C' = C\<lparr>col_offsets64 := (\<lambda>i. if col_str_num C \<le> i \<and> i < col_str_num C + length ss
        then offs (i - col_str_num C) else col_offsets64 C i),
      col_str_num := col_str_num C + length ss, col_sz := col_sz C + block_bytes ss,
      blocks_sizes := blocks_sizes C @ [length ss], blocks_buf_sizes := blocks_buf_sizes C @ [block_bytes ss]\<rparr>"
    using r e h by (simp add: column_addData_def column_holds_def)
  show "column_holds m' C' (bs @ [ss])"
    using h e bytes ofs by (simp add: column_holds_def C' block_bytes_def)
  show "x < col_buf C + col_sz C \<or> col_buf C + col_max_sz C \<le> x \<Longrightarrow> m' x = m x"
    unfolding m' cudaMemcpyHostToDevice_def using e(4) by auto
  show "col_buf C' = col_buf C" "col_max_sz C' = col_max_sz C" "col_max_str_num C' = col_max_str_num C" by (simp_all add: C')
qed

section \<open>Offsets and lengths\<close>

definition local_start :: "nat \<Rightarrow> (nat \<Rightarrow> nat) \<Rightarrow> nat \<Rightarrow> nat" where
  "local_start bb o64 i = (if i > 0 then o64 ((bb + i - 1) mod 2 ^ 32) mod 2 ^ 32 else 0)"

definition lens_cell :: "nat \<Rightarrow> nat \<Rightarrow> (nat \<Rightarrow> nat) \<Rightarrow> nat \<Rightarrow> nat \<Rightarrow> (nat \<Rightarrow> nat) \<Rightarrow> nat \<Rightarrow> nat" where
  "lens_cell bb n o64 b t s =
     (let i = grid_thread b t
      in if i < n then s((bb + i) mod 2 ^ 32 :=
           (o64 ((bb + i) mod 2 ^ 32) mod 2 ^ 32 + 2 ^ 32 - local_start bb o64 i) mod 2 ^ 32) else s)"

definition offsets_cell :: "nat \<Rightarrow> nat \<Rightarrow> nat \<Rightarrow> (nat \<Rightarrow> nat) \<Rightarrow> nat \<Rightarrow> nat \<Rightarrow> (nat \<Rightarrow> nat) \<Rightarrow> nat \<Rightarrow> nat" where
  "offsets_cell bb n bo o64 b t s =
     (let i = grid_thread b t
      in if i < n then s((bb + i) mod 2 ^ 32 := (local_start bb o64 i + bo) mod 2 ^ 32) else s)"

lemma shift_inj:
  fixes bb i j N :: nat
  assumes "i < N" and "j < N" and "(bb + i) mod N = (bb + j) mod N"
  shows "i = j"
  using assms
proof (induction i j rule: linorder_wlog)
  case (le i j)
  then have "N dvd (bb + j) - (bb + i)" by (metis add_le_cancel_left mod_eq_dvd_iff_nat)
  then have "N dvd j - i" by simp
  then show ?case using le by (metis diff_is_0_eq dvd_imp_le le_antisym less_imp_diff_less not_gr_zero not_less)
qed metis

interpretation lens_kernel: scatter_kernel "lens_cell bb n o64" "min n (2 ^ 32)" 256 "\<lambda>i. (bb + i) mod 2 ^ 32"
  "\<lambda>i. (o64 ((bb + i) mod 2 ^ 32) mod 2 ^ 32 + 2 ^ 32 - local_start bb o64 i) mod 2 ^ 32" "2 ^ 32"
  for bb n o64
proof
  fix b t :: nat and s :: "nat \<Rightarrow> nat"
  assume "b * 256 + t < 2 ^ 32"
  then show "lens_cell bb n o64 b t s = (if b * 256 + t < min n (2 ^ 32)
      then s((bb + (b * 256 + t)) mod 2 ^ 32 := (o64 ((bb + (b * 256 + t)) mod 2 ^ 32) mod 2 ^ 32 + 2 ^ 32 -
        local_start bb o64 (b * 256 + t)) mod 2 ^ 32) else s)"
    by (simp add: lens_cell_def grid_thread_def Let_def)
qed (rule shift_inj, auto)

interpretation offsets_kernel: scatter_kernel "offsets_cell bb n bo o64" "min n (2 ^ 32)" 256 "\<lambda>i. (bb + i) mod 2 ^ 32"
  "\<lambda>i. (local_start bb o64 i + bo) mod 2 ^ 32" "2 ^ 32"
  for bb n bo o64
proof
  fix b t :: nat and s :: "nat \<Rightarrow> nat"
  assume "b * 256 + t < 2 ^ 32"
  then show "offsets_cell bb n bo o64 b t s = (if b * 256 + t < min n (2 ^ 32)
      then s((bb + (b * 256 + t)) mod 2 ^ 32 := (local_start bb o64 (b * 256 + t) + bo) mod 2 ^ 32) else s)"
    by (simp add: offsets_cell_def grid_thread_def Let_def)
qed (rule shift_inj, auto)

lemma calc_launch:
  "launch (kerCalcLengths bb n bo o64) order (ls, os) =
     (launch (lens_cell bb n o64) order ls, launch (offsets_cell bb n bo o64) order os)"
proof -
  let ?r = "launch (kerCalcLengths bb n bo o64) order (ls, os)"
  have "fst ?r = launch (lens_cell bb n o64) order (fst (ls, os))"
    by (rule launch_proj) (simp add: kerCalcLengths_def lens_cell_def local_start_def Let_def split: prod.split)
  moreover have "snd ?r = launch (offsets_cell bb n bo o64) order (snd (ls, os))"
    by (rule launch_proj) (simp add: kerCalcLengths_def offsets_cell_def local_start_def Let_def split: prod.split)
  ultimately show ?thesis by (intro prod_eqI) simp_all
qed

text \<open>One launch, when nothing overflows.\<close>

lemma take_Suc_length: "i < length ss \<Longrightarrow> length (concat (take (Suc i) ss)) = length (concat (take i ss)) + length (ss ! i)"
  by (simp add: take_Suc_conv_app_nth)

lemma block_total: "i \<le> length ss \<Longrightarrow> length (concat (take i ss)) \<le> block_bytes ss"
  unfolding block_bytes_def by (metis append_take_drop_id concat_append length_append le_add1)

lemma calc_block:
  assumes o: "schedule (length ss div 256 + 1) 256 order" and bb: "bb + length ss < 2 ^ 32"
    and bo: "bo + block_bytes ss < 2 ^ 32" and o64: "\<forall>i < length ss. o64 (bb + i) = block_offsets ss i"
    and r: "launch (kerCalcLengths bb (length ss) bo o64) order (ls, os) = (ls', os')"
  shows "i < length ss \<Longrightarrow> ls' (bb + i) = length (ss ! i) \<and> os' (bb + i) = bo + length (concat (take i ss))"
    and "x < bb \<Longrightarrow> ls' x = ls x \<and> os' x = os x"
proof -
  let ?n = "length ss"
  have n: "min ?n (2 ^ 32) = ?n" and n32: "?n < 2 ^ 32" using bb by auto
  have r': "ls' = launch (lens_cell bb ?n o64) order ls" "os' = launch (offsets_cell bb ?n bo o64) order os"
    using r by (simp_all add: calc_launch)
  have g: "(?n div 256 + 1) * 256 \<le> 2 ^ 32" "?n \<le> (?n div 256 + 1) * 256" using grid_256 [OF n32] by auto
  have start: "local_start bb o64 i = length (concat (take i ss))" if "i < ?n" for i
  proof (cases i)
    case (Suc k)
    then have "o64 (bb + k) = length (concat (take i ss))" using o64 that by (simp add: block_offsets_def)
    moreover have "length (concat (take i ss)) < 2 ^ 32" using block_total [of i ss] that bo by linarith
    ultimately show ?thesis using Suc that bb by (simp add: local_start_def)
  qed (simp add: local_start_def)
  show "ls' (bb + i) = length (ss ! i) \<and> os' (bb + i) = bo + length (concat (take i ss))" if i: "i < ?n"
  proof
    have pos: "(bb + i) mod 2 ^ 32 = bb + i" using i bb by simp
    have e: "o64 (bb + i) = length (concat (take i ss)) + length (ss ! i)"
      using o64 i by (simp add: block_offsets_def take_Suc_length)
    moreover have b: "length (concat (take i ss)) + length (ss ! i) \<le> block_bytes ss"
      using block_total [of "Suc i" ss] i take_Suc_length [OF i] by simp
    ultimately have "(o64 ((bb + i) mod 2 ^ 32) mod 2 ^ 32 + 2 ^ 32 - local_start bb o64 i) mod 2 ^ 32 = length (ss ! i)"
      using bo start [OF i] pos by simp
    then show "ls' (bb + i) = length (ss ! i)"
      using lens_kernel.launch_scatter(1) [OF o g(1), of ?n i bb o64 ls] g(2) i n pos by (simp add: r')
    show "os' (bb + i) = bo + length (concat (take i ss))"
      using offsets_kernel.launch_scatter(1) [OF o g(1), of ?n i bb bo o64 os] g(2) i n pos start [OF i] b bo
      by (simp add: r')
  qed
  show "ls' x = ls x \<and> os' x = os x" if x: "x < bb"
  proof -
    have "x \<noteq> (bb + i) mod 2 ^ 32" if "i < min ?n (2 ^ 32)" for i using x that bb by simp
    then show ?thesis
      using lens_kernel.launch_scatter(2) [OF o g(1), of ?n x bb o64 ls]
        offsets_kernel.launch_scatter(2) [OF o g(1), of ?n x bb bo o64 os] g(2) n by (simp add: r')
  qed
qed

lemma calcLengths_loop_eq:
  assumes "bb + length (concat bs) < 2 ^ 32" and "bo + block_bytes (concat bs) < 2 ^ 32"
    and "offsets_ok o64 bb bs" and "\<forall>j < length bs. schedule (length (bs ! j) div 256 + 1) 256 (orders (k + j))"
    and "calcLengths_loop orders k (map length bs) (map block_bytes bs) bb bo o64 (ls, os) = (ls', os')"
  shows "(\<forall>j < length (concat bs). ls' (bb + j) = length (concat bs ! j) \<and>
      os' (bb + j) = bo + length (concat (take j (concat bs)))) \<and> (\<forall>x < bb. ls' x = ls x \<and> os' x = os x)"
  using assms
proof (induction bs arbitrary: k bb bo ls os)
  case (Cons ss bs)
  obtain l1 o1 where r1: "launch (kerCalcLengths bb (length ss) bo o64) (orders k) (ls, os) = (l1, o1)" by fastforce
  have sz: "bb + length ss + length (concat bs) < 2 ^ 32" "bo + block_bytes ss + block_bytes (concat bs) < 2 ^ 32"
    using Cons.prems(1,2) by (simp_all add: block_bytes_def add.assoc)
  then have lim: "bb + length ss < 2 ^ 32" "bo + block_bytes ss < 2 ^ 32" by linarith+
  have o0: "schedule (length ss div 256 + 1) 256 (orders k)" using Cons.prems(4) by force
  have o64: "\<forall>i < length ss. o64 (bb + i) = block_offsets ss i" using Cons.prems(3) by simp
  note blk = calc_block [OF o0 lim o64 r1]
  have rec: "calcLengths_loop orders (Suc k) (map length bs) (map block_bytes bs) (bb + length ss) (bo + block_bytes ss) o64
      (l1, o1) = (ls', os')"
    using Cons.prems(5) r1 lim by simp
  have o: "\<forall>j < length bs. schedule (length (bs ! j) div 256 + 1) 256 (orders (Suc k + j))"
    using Cons.prems(4) by auto
  have ok: "offsets_ok o64 (bb + length ss) bs" using Cons.prems(3) by simp
  note IH = Cons.IH [OF sz ok o rec]
  have "ls' (bb + j) = length (concat (ss # bs) ! j) \<and>
      os' (bb + j) = bo + length (concat (take j (concat (ss # bs))))" if "j < length (concat (ss # bs))" for j
  proof (cases "j < length ss")
    case True
    then show ?thesis using IH blk(1) [OF True] by (simp add: nth_append)
  next
    case False
    then obtain i where i: "j = length ss + i" using le_Suc_ex by (metis not_less)
    then show ?thesis using IH that by (simp add: nth_append block_bytes_def add.assoc)
  qed
  moreover have "\<forall>x < bb. ls' x = ls x \<and> os' x = os x" using IH blk(2) by simp
  ultimately show ?case by blast
qed simp

lemma bytes_at_sub:
  assumes "bytes_at m a (length xs) = xs" and "i + n \<le> length xs"
  shows "bytes_at m (a + i) n = take n (drop i xs)"
proof -
  have "take n (drop i (bytes_at m a (length xs))) = bytes_at m (a + i) n"
    using assms(2) by (simp add: drop_bytes_at take_bytes_at)
  then show ?thesis using assms(1) by simp
qed

lemma concat_nth_part:
  assumes "j < length ss"
  shows "take (length (ss ! j)) (drop (length (concat (take j ss))) (concat ss)) = ss ! j"
    and "length (concat (take j ss)) + length (ss ! j) \<le> length (concat ss)"
proof -
  have "concat ss = concat (take j ss) @ ss ! j @ concat (drop (Suc j) ss)"
    by (metis assms concat.simps(2) concat_append id_take_nth_drop)
  then show "take (length (ss ! j)) (drop (length (concat (take j ss))) (concat ss)) = ss ! j"
    "length (concat (take j ss)) + length (ss ! j) \<le> length (concat ss)"
    by simp_all
qed

lemma calcLengths_strings:
  assumes h: "column_holds m C bs"
    and o: "\<forall>j < length bs. schedule (length (bs ! j) div 256 + 1) 256 (orders j)"
  shows "column_strings m (calcLengths orders C) = concat bs"
    and "j < length (concat bs) \<Longrightarrow> col_offsets (calcLengths orders C) j + col_lens (calcLengths orders C) j \<le> col_sz C"
proof -
  obtain ls' os' where r: "calcLengths_loop orders 0 (map length bs) (map block_bytes bs) 0 0 (col_offsets64 C)
      (col_lens C, col_offsets C) = (ls', os')" by fastforce
  have C': "calcLengths orders C = C\<lparr>col_lens := ls', col_offsets := os'\<rparr>"
    using h r by (simp add: calcLengths_def column_holds_def)
  have lim: "0 + length (concat bs) < 2 ^ 32" "0 + block_bytes (concat bs) < 2 ^ 32" and ok: "offsets_ok (col_offsets64 C) 0 bs"
    and n: "col_str_num C = length (concat bs)" and sz: "col_sz C = length (concat (concat bs))"
    and bt: "bytes_at m (col_buf C) (length (concat (concat bs))) = concat (concat bs)"
    using h by (auto simp: column_holds_def block_bytes_def)
  have o': "\<forall>j < length bs. schedule (length (bs ! j) div 256 + 1) 256 (orders (0 + j))" using o by simp
  have v: "ls' j = length (concat bs ! j) \<and> os' j = length (concat (take j (concat bs)))" if "j < length (concat bs)" for j
    using calcLengths_loop_eq [OF lim ok o' r] that by simp
  show "j < length (concat bs) \<Longrightarrow> col_offsets (calcLengths orders C) j + col_lens (calcLengths orders C) j \<le> col_sz C"
    using v concat_nth_part(2) [of j "concat bs"] by (simp add: C' sz)
  have "bytes_at m (col_buf C + os' j) (ls' j) = concat bs ! j" if "j < length (concat bs)" for j
    using bytes_at_sub [OF bt, of "os' j" "ls' j"] v [OF that] concat_nth_part [OF that] by simp
  then show "column_strings m (calcLengths orders C) = concat bs"
    unfolding column_strings_def by (intro nth_equalityI) (simp_all add: C' n)
qed

section \<open>Filling a column\<close>

text \<open>
  Blocks are appended as long as \<^verbatim>\<open>hasSpace\<close> allows it; a block comes as the address of its bytes, its
  offsets and the strings it is made of.
\<close>

type_synonym string_block = "nat \<times> (nat \<Rightarrow> nat) \<times> 8 word list list"

fun column_fill :: "memory \<Rightarrow> string_block list \<Rightarrow> memory \<times> cuda_column \<Rightarrow> (memory \<times> cuda_column) option" where
  "column_fill host [] S = Some S"
| "column_fill host ((a, offs, ss) # blocks) S =
     (if hasSpace (snd S) (length ss) (block_bytes ss)
      then column_fill host blocks (column_addData (length ss) (block_bytes ss) host a offs S) else None)"

fun block_ok :: "memory \<Rightarrow> string_block \<Rightarrow> bool" where
  "block_ok host (a, offs, ss) \<longleftrightarrow> length ss < 2 ^ 63 \<and> block_bytes ss < 2 ^ 63 \<and>
     bytes_at host a (block_bytes ss) = concat ss \<and> (\<forall>i < length ss. offs i = block_offsets ss i)"

abbreviation block_strings :: "string_block \<Rightarrow> 8 word list list" where
  "block_strings blk \<equiv> snd (snd blk)"

lemma column_fill_holds:
  assumes "column_fill host blocks (m, C) = Some (m', C')" and "column_holds m C bs" and "\<forall>b \<in> set blocks. block_ok host b"
  shows "column_holds m' C' (bs @ map block_strings blocks)"
  using assms
proof (induction blocks arbitrary: m C bs)
  case (Cons blk blocks)
  obtain a offs ss where blk: "blk = (a, offs, ss)" by (cases blk) auto
  obtain m1 C1 where r: "column_addData (length ss) (block_bytes ss) host a offs (m, C) = (m1, C1)" by fastforce
  have sp: "hasSpace C (length ss) (block_bytes ss)" and rest: "column_fill host blocks (m1, C1) = Some (m', C')"
    using Cons.prems(1) r by (simp_all add: blk split: if_splits)
  have "column_holds m1 C1 (bs @ [ss])"
    using Cons.prems(3) by (intro column_addData_holds(1) [OF Cons.prems(2) sp _ _ _ _ r]) (simp_all add: blk)
  from Cons.IH [OF rest this] Cons.prems(3) show ?case by (simp add: blk)
qed simp

text \<open>
  (C28) A column on the device holds the strings that were put into it: after any sequence of blocks that
  \<^verbatim>\<open>hasSpace\<close> accepts, \<^verbatim>\<open>calcLengths\<close> computes, whatever the order of the threads of its kernels, offsets and
  lengths that read back the strings of all blocks in order.
\<close>

theorem column_roundtrip:
  assumes "col_max_str_num C < 2 ^ 32" and "col_max_sz C < 2 ^ 32"
    and "\<forall>b \<in> set blocks. block_ok host b"
    and "column_fill host blocks (m, column_reset C) = Some (m', C')"
    and "\<forall>j < length blocks. schedule (length (block_strings (blocks ! j)) div 256 + 1) 256 (orders j)"
  shows "column_strings m' (calcLengths orders C') = concat (map block_strings blocks)"
proof -
  have "column_holds m' C' ([] @ map block_strings blocks)"
    by (rule column_fill_holds [OF assms(4) column_reset_holds [OF assms(1,2)] assms(3)])
  then show ?thesis using calcLengths_strings(1) [of m' C' "map block_strings blocks" orders] assms(5) by simp
qed

definition demo_column :: cuda_column where
  "demo_column = \<lparr>col_str_num = 5, col_max_str_num = 16, col_sz = 3, col_max_sz = 64, col_buf = 1000,
     col_lens = \<lambda>_. 9, col_offsets = \<lambda>_. 9, col_offsets64 = \<lambda>_. 9, blocks_sizes = [7], blocks_buf_sizes = []\<rparr>"

definition demo_blocks :: "string_block list" where
  "demo_blocks = [(20, \<lambda>i. [2, 3] ! i, [[20, 21], [22]]), (40, \<lambda>_. 1, [[40]])]"

theorem column_roundtrip_witness:
  "\<exists>m C. column_fill word_of_nat demo_blocks (\<lambda>_. 0, column_reset demo_column) = Some (m, C) \<and>
     column_strings m (calcLengths (\<lambda>_. thread_ids 1 256) C) = [[20, 21], [22], [40]]"
proof -
  have "\<forall>b \<in> set demo_blocks. block_ok word_of_nat b"
    by (auto simp: demo_blocks_def block_bytes_def bytes_at_def block_offsets_def upt_rec less_Suc_eq)
  moreover obtain m C where f: "column_fill word_of_nat demo_blocks (\<lambda>_. 0, column_reset demo_column) = Some (m, C)"
    by (simp add: demo_blocks_def column_addData_def hasSpace_def column_reset_def demo_column_def block_bytes_def
        add64_def)
  moreover have "\<forall>j < length demo_blocks.
      schedule (length (block_strings (demo_blocks ! j)) div 256 + 1) 256 (thread_ids 1 256)"
    by (auto simp: demo_blocks_def schedule_def less_Suc_eq)
  ultimately have "column_strings m (calcLengths (\<lambda>_. thread_ids 1 256) C) = concat (map block_strings demo_blocks)"
    by (intro column_roundtrip) (simp_all add: demo_column_def)
  then show ?thesis using f by (simp add: demo_blocks_def)
qed

text \<open>
  (C29) Copying into a host buffer with several threads is the same as copying with one: whatever the order in
  which the threads run, every byte of the strings and of the offsets is copied once and nothing else is written.
\<close>

theorem host_addData_parallel:
  assumes "0 < t" and "t < 2 ^ 64" and "t * sz < 2 ^ 64" and "num < 2 ^ 61" and "t * (8 * num) < 2 ^ 64"
    and "set order = {0..<t}" and "set order' = {0..<t}"
    and "\<forall>i < sz. \<forall>j < sz. hb_buf H + hb_sz H + i \<noteq> str_buf + j"
    and "\<forall>i < 8 * num. \<forall>j < 8 * num. hb_offsets64 H + 8 * hb_str_num H + i \<noteq> offs + j"
  shows "fst (host_addData order order' num sz str_buf offs t (m, H)) =
    memcpy (memcpy m (hb_buf H + hb_sz H) str_buf sz) (hb_offsets64 H + 8 * hb_str_num H) offs (8 * num)"
proof -
  have n: "mul64 num 8 = 8 * num" using assms(4) by (simp add: mul64_exact mult.commute)
  show ?thesis
    unfolding host_addData_def prod.case Let_def fst_conv n
    using parallelMemcpy_eq [OF assms(1,3,2,6), of "hb_buf H + hb_sz H" str_buf]
      parallelMemcpy_eq [OF assms(1,5,2,7), of "hb_offsets64 H + 8 * hb_str_num H" offs] assms(8,9) by simp
qed

theorem host_addData_parallel_witness:
  "fst (host_addData [2, 0, 1] [1, 2, 0] 2 5 500 600 3 (word_of_nat, CudaHostStringsBuffer (\<lambda>n. 1000 + n) 16 64 True True True)) =
     memcpy (memcpy word_of_nat 1064 500 5) 1128 600 16"
proof -
  have "set [2, 0, 1] = {0..<3::nat}" "set [1, 2, 0] = {0..<3::nat}" by auto
  then show ?thesis
    using host_addData_parallel [of 3 5 2 "[2, 0, 1]" "[1, 2, 0]"
        "CudaHostStringsBuffer (\<lambda>n. 1000 + n) 16 64 True True True" 500 600 word_of_nat]
    by (auto simp: CudaHostStringsBuffer_def mul64_def)
qed

end
