(* ===== verification/Cuda_Aggfun.thy ===== *)
theory Cuda_Aggfun
  imports Uniq_Sketch Cuda_Hash Cuda_Column
begin

text \<open>
  The aggregate functions on the device (\<^verbatim>\<open>ICudaAggregateFunction\<close> and its two implementations
  \<^verbatim>\<open>CudaAggregateFunctionCount\<close> and \<^verbatim>\<open>CudaAggregateFunctionUniq\<close>).  The interface is a locale: a
  state stands for the multiset of the values added to it, and the kernels that add a column of values
  to the states of its groups preserve that in every order of their threads.
\<close>

section \<open>Threads of a launch\<close>

lemma upt_split: "i \<le> j \<Longrightarrow> j \<le> k \<Longrightarrow> [i..<j] @ [j..<k] = [i..<k]"
  by (metis le_Suc_ex upt_add_eq_append)

lemma map_grid_thread:
  assumes "g * 256 \<le> 2 ^ 32"
  shows "map (\<lambda>(b, t). grid_thread b t) (thread_ids g 256) = [0..<g * 256]"
  using assms
proof (induction g)
  case (Suc g)
  have "map (\<lambda>(b, t). grid_thread b t) (thread_ids (Suc g) 256) =
      map (\<lambda>(b, t). grid_thread b t) (thread_ids g 256) @ map (\<lambda>t. grid_thread g t) [0..<256]"
    unfolding thread_ids_def by (simp add: product_concat_map comp_def del: upt_Suc upt_rec_numeral) simp
  also have "map (\<lambda>t. grid_thread g t) [0..<256] = [g * 256..<Suc g * 256]"
    using Suc.prems by (intro nth_equalityI) (simp_all add: grid_thread_def)
  also have "map (\<lambda>(b, t). grid_thread b t) (thread_ids g 256) = [0..<g * 256]" using Suc by simp
  also have "[0..<g * 256] @ [g * 256..<Suc g * 256] = [0..<Suc g * 256]" by (rule upt_split) simp_all
  finally show ?case .
qed (simp add: thread_ids_def)

lemma schedule_mset:
  assumes "n < 2 ^ 32" and "schedule (n div 256 + 1) 256 order"
  shows "{#i \<in># mset (map (\<lambda>(b, t). grid_thread b t) order). i < n#} = mset [0..<n]"
proof -
  let ?g = "(n div 256 + 1) * 256"
  have "mset (map (\<lambda>(b, t). grid_thread b t) order) = mset (map (\<lambda>(b, t). grid_thread b t) (thread_ids (n div 256 + 1) 256))"
    using assms(2) by (simp add: schedule_def)
  also have "\<dots> = mset [0..<?g]" using grid_256(2) [OF assms(1)] by (simp only: map_grid_thread)
  finally have "{#i \<in># mset (map (\<lambda>(b, t). grid_thread b t) order). i < n#} = mset (filter (\<lambda>i. i < n) [0..<?g])" by simp
  moreover have "[0..<?g] = [0..<n] @ [n..<?g]" using grid_256(1) [OF assms(1)] using upt_split [of 0 n ?g] by simp
  moreover have "filter (\<lambda>i. i < n) [n..<?g] = []" by simp
  moreover have "filter (\<lambda>i. i < n) [0..<n] = [0..<n]" by (simp add: filter_id_conv)
  ultimately show ?thesis by (simp only: filter_append append_Nil2)
qed

section \<open>The interface\<close>

text \<open>A kernel in which the thread \<open>i\<close> updates the state of the group \<open>res i\<close> atomically.\<close>

definition bulk_thread :: "(nat \<Rightarrow> bool) \<Rightarrow> (nat \<Rightarrow> nat) \<Rightarrow> (nat \<Rightarrow> 's \<Rightarrow> 's) \<Rightarrow> nat \<Rightarrow> (nat \<Rightarrow> 's) \<Rightarrow> nat \<Rightarrow> 's" where
  "bulk_thread P res upd i places = (if P i then places(res i := upd i (places (res i))) else places)"

locale cuda_aggregate =
  fixes init :: 's and add :: "'v \<Rightarrow> 's \<Rightarrow> 's" and rep :: "'v multiset \<Rightarrow> 's \<Rightarrow> bool"
  assumes rep_init: "rep {#} init"
    and rep_add: "rep V s \<Longrightarrow> rep (add_mset v V) (add v s)"
begin

lemma rep_bulk:
  assumes "rep V (places b)"
  shows "rep (image_mset val {#i \<in># mset is. P i \<and> res i = b#} + V) (fold (bulk_thread P res (\<lambda>i. add (val i))) is places b)"
  using assms
proof (induction "is" arbitrary: V places)
  case (Cons i "is")
  define V' where "V' = (if P i \<and> res i = b then add_mset (val i) V else V)"
  have "rep V' (bulk_thread P res (\<lambda>i. add (val i)) i places b)"
    using Cons.prems rep_add by (auto simp: V'_def bulk_thread_def)
  from Cons.IH [where places = "bulk_thread P res (\<lambda>i. add (val i)) i places", OF this] show ?case
    by (auto simp: V'_def split: if_splits)
qed simp

lemma rep_launch:
  assumes "n < 2 ^ 32" and "schedule (n div 256 + 1) 256 order" and "rep V (places b)"
  shows "rep (image_mset val {#i \<in># mset [0..<n]. res i = b#} + V)
    (launch (\<lambda>b t. bulk_thread (\<lambda>i. i < n) res (\<lambda>i. add (val i)) (grid_thread b t)) order places b)"
proof -
  let ?is = "map (\<lambda>(b, t). grid_thread b t) order"
  have "launch (\<lambda>b t. bulk_thread (\<lambda>i. i < n) res (\<lambda>i. add (val i)) (grid_thread b t)) order places =
      fold (bulk_thread (\<lambda>i. i < n) res (\<lambda>i. add (val i))) ?is places"
    by (simp add: launch_def fold_map comp_def case_prod_beta')
  moreover have "{#i \<in># mset ?is. i < n \<and> res i = b#} = {#i \<in># mset [0..<n]. res i = b#}"
    unfolding schedule_mset [OF assms(1,2), symmetric] by (simp add: filter_filter_mset conj_commute)
  ultimately show ?thesis
    using rep_bulk [where V = V and places = places and val = val and ?is = ?is and P = "\<lambda>i. i < n" and res = res and b = b,
        OF assms(3)] by simp
qed

end

locale cuda_mergeable = cuda_aggregate +
  fixes merge :: "'s \<Rightarrow> 's \<Rightarrow> 's"
  assumes rep_merge: "rep V s \<Longrightarrow> rep W t \<Longrightarrow> rep (W + V) (merge t s)"
begin

lemma rep_merge_fold:
  assumes "rep V (places b)" and "\<And>i. P i \<Longrightarrow> res i = b \<Longrightarrow> rep (W i) (from i)"
  shows "rep (\<Sum>\<^sub># (image_mset W {#i \<in># mset is. P i \<and> res i = b#}) + V)
    (fold (bulk_thread P res (\<lambda>i. merge (from i))) is places b)"
  using assms(1)
proof (induction "is" arbitrary: V places)
  case (Cons i "is")
  define V' where "V' = (if P i \<and> res i = b then W i + V else V)"
  have "rep V' (bulk_thread P res (\<lambda>i. merge (from i)) i places b)"
    using Cons.prems rep_merge assms(2) by (auto simp: V'_def bulk_thread_def)
  from Cons.IH [where places = "bulk_thread P res (\<lambda>i. merge (from i)) i places", OF this] show ?case
    by (auto simp: V'_def ac_simps split: if_splits)
qed simp

lemma rep_merge_launch:
  assumes "n < 2 ^ 32" and "schedule (n div 256 + 1) 256 order" and "rep V (places b)"
    and "\<And>i. i < n \<Longrightarrow> Q i \<Longrightarrow> res i = b \<Longrightarrow> rep (W i) (from i)"
  shows "rep (\<Sum>\<^sub># (image_mset W {#i \<in># mset [0..<n]. Q i \<and> res i = b#}) + V)
    (launch (\<lambda>b t. bulk_thread (\<lambda>i. i < n \<and> Q i) res (\<lambda>i. merge (from i)) (grid_thread b t)) order places b)"
proof -
  let ?is = "map (\<lambda>(b, t). grid_thread b t) order" and ?P = "\<lambda>i. i < n \<and> Q i"
  have "launch (\<lambda>b t. bulk_thread ?P res (\<lambda>i. merge (from i)) (grid_thread b t)) order places =
      fold (bulk_thread ?P res (\<lambda>i. merge (from i))) ?is places"
    by (simp add: launch_def fold_map comp_def case_prod_beta')
  moreover have "{#i \<in># mset ?is. ?P i \<and> res i = b#} = {#i \<in># mset [0..<n]. Q i \<and> res i = b#}"
    unfolding schedule_mset [OF assms(1,2), symmetric] by (simp add: filter_filter_mset conj_ac)
  ultimately show ?thesis
    using rep_merge_fold [where V = V and places = places and P = ?P and W = W and ?from = "from" and ?is = ?is and
        res = res and b = b, OF assms(3)] assms(4) by simp
qed

end

section \<open>count\<close>

text \<open>The state is the 64-bit \<^verbatim>\<open>CudaAggregateFunctionCountData::count\<close>, the groups an array of states.\<close>

definition count_isDataNeeded :: bool where
  "count_isDataNeeded = False"

definition count_cudaInitAggregateData :: "nat \<Rightarrow> (nat \<Rightarrow> 64 word) \<Rightarrow> nat \<Rightarrow> 64 word" where
  "count_cudaInitAggregateData places_num places = (\<lambda>i. if i < places_num then 0 else places i)"

definition kerCudaAddBulkCount :: "nat \<Rightarrow> (nat \<Rightarrow> nat) \<Rightarrow> nat \<Rightarrow> nat \<Rightarrow> (nat \<Rightarrow> 64 word) \<Rightarrow> nat \<Rightarrow> 64 word" where
  "kerCudaAddBulkCount elements_num res blockIdx threadIdx places =
     (let i = grid_thread blockIdx threadIdx
      in if \<not> i < elements_num then places
         else (let res_bucket = res i in places(res_bucket := places res_bucket + 1)))"

definition kerCudaMergeBulkCount ::
  "nat \<Rightarrow> (nat \<Rightarrow> 64 word) \<Rightarrow> (nat \<Rightarrow> nat) \<Rightarrow> nat \<Rightarrow> nat \<Rightarrow> (nat \<Rightarrow> 64 word) \<Rightarrow> nat \<Rightarrow> 64 word" where
  "kerCudaMergeBulkCount elements_num places_from res blockIdx threadIdx places =
     (let i = grid_thread blockIdx threadIdx
      in if \<not> i < elements_num then places
         else (let res_bucket = res i
               in if res_bucket = 2 ^ 32 - 1 then places
                  else places(res_bucket := places res_bucket + places_from i)))"

definition count_cudaAddBulk ::
  "(nat \<times> nat) list \<Rightarrow> nat \<Rightarrow> (nat \<Rightarrow> nat) \<Rightarrow> (nat \<Rightarrow> 64 word) \<Rightarrow> nat \<Rightarrow> 64 word" where
  "count_cudaAddBulk order elements_num res places = launch (kerCudaAddBulkCount elements_num res) order places"

definition count_cudaMergeBulk ::
  "(nat \<times> nat) list \<Rightarrow> nat \<Rightarrow> (nat \<Rightarrow> 64 word) \<Rightarrow> (nat \<Rightarrow> nat) \<Rightarrow> (nat \<Rightarrow> 64 word) \<Rightarrow> nat \<Rightarrow> 64 word" where
  "count_cudaMergeBulk order elements_num places_from res places =
     launch (kerCudaMergeBulkCount elements_num places_from res) order places"

definition count_getResult :: "64 word \<Rightarrow> nat" where
  "count_getResult place = unat place"

text \<open>A count stands for the number of the values, modulo \<open>2 ^ 64\<close>.\<close>

definition count_rep :: "'v multiset \<Rightarrow> 64 word \<Rightarrow> bool" where
  "count_rep V s \<longleftrightarrow> s = word_of_nat (size V)"

interpretation count: cuda_mergeable "0 :: 64 word" "\<lambda>v s. s + 1" count_rep "\<lambda>t s. s + t"
  by unfold_locales (simp_all add: count_rep_def)

section \<open>uniq\<close>

definition uniq_isDataNeeded :: bool where
  "uniq_isDataNeeded = True"

text \<open>The state after \<^verbatim>\<open>cudaMemset\<close>.\<close>

definition uniq_zero :: uniq_set where
  "uniq_zero = \<lparr>is_large = False, small = \<lparr>has_zero_elem = False, buf = replicate capacity 0\<rparr>,
     large = \<lparr>rank_store = \<lambda>_. 0, rank_count = \<lambda>_. 0, zeros = 0\<rparr>\<rparr>"

definition kerCudaInitAggregateData :: "nat \<Rightarrow> nat \<Rightarrow> nat \<Rightarrow> (nat \<Rightarrow> uniq_set) \<Rightarrow> nat \<Rightarrow> uniq_set" where
  "kerCudaInitAggregateData places_num blockIdx threadIdx places =
     (let i = grid_thread blockIdx threadIdx
      in if \<not> i < places_num then places else places(i := uniq_initNonzeroData (places i)))"

definition kerCudaAddBulk ::
  "nat \<Rightarrow> (nat \<Rightarrow> u64) \<Rightarrow> (nat \<Rightarrow> nat) \<Rightarrow> nat \<Rightarrow> nat \<Rightarrow> (nat \<Rightarrow> uniq_set) \<Rightarrow> nat \<Rightarrow> uniq_set" where
  "kerCudaAddBulk elements_num hashes res blockIdx threadIdx places =
     (let i = grid_thread blockIdx threadIdx
      in if \<not> i < elements_num then places
         else (let hash = hashes i; res_bucket = res i
               in places(res_bucket := uniq_insert hash (places res_bucket))))"

definition kerCudaMergeBulk ::
  "nat \<Rightarrow> (nat \<Rightarrow> uniq_set) \<Rightarrow> (nat \<Rightarrow> nat) \<Rightarrow> nat \<Rightarrow> nat \<Rightarrow> (nat \<Rightarrow> uniq_set) \<Rightarrow> nat \<Rightarrow> uniq_set" where
  "kerCudaMergeBulk elements_num places_from res blockIdx threadIdx places =
     (let i = grid_thread blockIdx threadIdx
      in if \<not> i < elements_num then places
         else (let res_bucket = res i
               in if res_bucket = 2 ^ 32 - 1 then places
                  else places(res_bucket := uniq_merge (places_from i) (places res_bucket))))"

definition uniq_cudaInitAggregateData :: "(nat \<times> nat) list \<Rightarrow> nat \<Rightarrow> (nat \<Rightarrow> uniq_set) \<Rightarrow> nat \<Rightarrow> uniq_set" where
  "uniq_cudaInitAggregateData order places_num places =
     launch (kerCudaInitAggregateData places_num) order (\<lambda>i. if i < places_num then uniq_zero else places i)"

definition uniq_cudaAddBulk ::
  "(nat \<times> nat) list \<Rightarrow> (nat \<times> nat) list \<Rightarrow> memory \<Rightarrow> cuda_column \<Rightarrow> nat \<Rightarrow> (nat \<Rightarrow> nat) \<Rightarrow> (nat \<Rightarrow> u64) \<Rightarrow>
   (nat \<Rightarrow> uniq_set) \<Rightarrow> nat \<Rightarrow> uniq_set" where
  "uniq_cudaAddBulk order order' m str_column elements_num res tmp_buf places =
     (let tmp_buf = cudaCalcCityHash64 order elements_num m (col_buf str_column) False
            (\<lambda>i. word_of_nat (col_lens str_column i)) (\<lambda>i. word_of_nat (col_offsets str_column i)) tmp_buf
      in launch (kerCudaAddBulk elements_num tmp_buf res) order' places)"

definition uniq_cudaMergeBulk ::
  "(nat \<times> nat) list \<Rightarrow> nat \<Rightarrow> (nat \<Rightarrow> uniq_set) \<Rightarrow> (nat \<Rightarrow> nat) \<Rightarrow> (nat \<Rightarrow> uniq_set) \<Rightarrow> nat \<Rightarrow> uniq_set" where
  "uniq_cudaMergeBulk order elements_num places_from res places =
     launch (kerCudaMergeBulk elements_num places_from res) order places"

definition uniq_getResult :: "uniq_set \<Rightarrow> nat" where
  "uniq_getResult place = uniq_size place"

definition uniq_rep :: "u64 multiset \<Rightarrow> uniq_set \<Rightarrow> bool" where
  "uniq_rep V s \<longleftrightarrow> uniq_of (set_mset V) s"

interpretation uniq: cuda_aggregate uniq_new uniq_insert uniq_rep
  by unfold_locales (simp_all add: uniq_rep_def uniq_of_new uniq_of_insert)

section \<open>Groups\<close>

text \<open>The elements of a batch that belong to the group \<open>b\<close>.\<close>

definition group_of :: "nat \<Rightarrow> (nat \<Rightarrow> nat) \<Rightarrow> nat \<Rightarrow> nat multiset" where
  "group_of n res b = {#i \<in># mset [0..<n]. res i = b#}"

lemma size_group_of: "size (group_of n res b) = card {i. i < n \<and> res i = b}"
proof -
  have "size (group_of n res b) = length (filter (\<lambda>i. res i = b) [0..<n])"
    unfolding group_of_def by (metis mset_filter size_mset)
  also have "\<dots> = card {i. i < n \<and> res i = b}"
    by (subst distinct_length_filter) (auto intro: arg_cong [where f = card])
  finally show ?thesis .
qed

lemma set_group_of: "set_mset (group_of n res b) = {i. i < n \<and> res i = b}"
  by (auto simp: group_of_def)

lemma count_cudaAddBulk_rep:
  assumes "n < 2 ^ 32" and "schedule (n div 256 + 1) 256 order" and "count_rep V (places b)"
  shows "count_rep (group_of n res b + V) (count_cudaAddBulk order n res places b)"
proof -
  have "kerCudaAddBulkCount n res = (\<lambda>b t. bulk_thread (\<lambda>i. i < n) res (\<lambda>i s. s + 1) (grid_thread b t))"
    by (intro ext) (simp add: kerCudaAddBulkCount_def bulk_thread_def Let_def)
  then show ?thesis
    using count.rep_launch [where places = places and b = b and val = id and res = res, OF assms] by (simp add: count_cudaAddBulk_def group_of_def)
qed

lemma count_cudaMergeBulk_rep:
  assumes "n < 2 ^ 32" and "schedule (n div 256 + 1) 256 order" and "count_rep V (places b)"
    and "\<And>i. i < n \<Longrightarrow> res i \<noteq> 2 ^ 32 - 1 \<Longrightarrow> res i = b \<Longrightarrow> count_rep (W i) (places_from i)"
  shows "count_rep (\<Sum>\<^sub># (image_mset W {#i \<in># mset [0..<n]. res i \<noteq> 2 ^ 32 - 1 \<and> res i = b#}) + V)
    (count_cudaMergeBulk order n places_from res places b)"
proof -
  have "kerCudaMergeBulkCount n places_from res = (\<lambda>b t. bulk_thread (\<lambda>i. i < n \<and> res i \<noteq> 2 ^ 32 - 1) res
      (\<lambda>i s. s + places_from i) (grid_thread b t))"
    by (intro ext) (simp add: kerCudaMergeBulkCount_def bulk_thread_def Let_def)
  then show ?thesis
    using count.rep_merge_launch [where Q = "\<lambda>i. res i \<noteq> 2 ^ 32 - 1" and W = W and
        ?from = places_from and res = res and b = b and places = places, OF assms(1-3)] assms(4) by (simp add: count_cudaMergeBulk_def)
qed

interpretation uniq_init: cell_kernel "\<lambda>b t places. if grid_thread b t < n then places(grid_thread b t := uniq_new) else places"
  n 256 "\<lambda>_. uniq_new" "2 ^ 32" for n
  by unfold_locales (simp add: grid_thread_def)

lemma uniq_initNonzeroData_zero: "uniq_initNonzeroData uniq_zero = uniq_new"
  by (simp add: uniq_initNonzeroData_def uniq_zero_def uniq_new_def small_initNonzeroData_def small_new_def
      hll_initNonzeroData_def hll_new_def fun_eq_iff)

lemma uniq_init_again: "uniq_initNonzeroData uniq_new = uniq_new"
  by (simp add: uniq_initNonzeroData_def uniq_new_def small_initNonzeroData_def small_new_def
      hll_initNonzeroData_def hll_new_def fun_eq_iff)

lemma uniq_cudaInitAggregateData_eq:
  assumes "n < 2 ^ 32" and "schedule (n div 256 + 1) 256 order"
  shows "uniq_cudaInitAggregateData order n places = (\<lambda>i. if i < n then uniq_new else places i)"
proof -
  let ?ker = "\<lambda>b t places. if grid_thread b t < n then places(grid_thread b t := uniq_new) else places"
  have inv: "launch (kerCudaInitAggregateData n) xs p = launch ?ker xs p"
    if "\<forall>i < n. p i = uniq_zero \<or> p i = uniq_new" for xs p
    using that
  proof (induction xs arbitrary: p)
    case (Cons x xs)
    obtain b t where x: "x = (b, t)" by (cases x)
    have "kerCudaInitAggregateData n b t p = ?ker b t p"
      using Cons.prems uniq_initNonzeroData_zero uniq_init_again
      by (auto simp: kerCudaInitAggregateData_def Let_def)
    moreover have "\<forall>i < n. ?ker b t p i = uniq_zero \<or> ?ker b t p i = uniq_new" using Cons.prems by simp
    ultimately show ?case using Cons.IH [of "?ker b t p"] by (simp add: launch_def x)
  qed (simp add: launch_def)
  have "launch ?ker order (\<lambda>i. if i < n then uniq_zero else places i) =
      (\<lambda>i. if i < n then uniq_new else (if i < n then uniq_zero else places i))"
    by (rule uniq_init.launch_cells [OF assms(2)]) (use grid_256 [OF assms(1)] in simp_all)
  then show ?thesis unfolding uniq_cudaInitAggregateData_def by (subst inv) auto
qed

text \<open>The hash under which \<^verbatim>\<open>uniq\<close> counts a value: that of its bytes without the terminating zero.\<close>

definition uniq_hash :: "memory \<Rightarrow> cuda_column \<Rightarrow> nat \<Rightarrow> u64" where
  "uniq_hash m C i = no_empty (CityHash64 m (col_buf C + col_offsets C i) (col_lens C i - 1))"

lemma uniq_cudaAddBulk_rep:
  assumes n: "n < 2 ^ 32" and "schedule (n div 256 + 1) 256 order" and o: "schedule (n div 256 + 1) 256 order'"
    and "uniq_rep V (places b)"
    and C: "\<And>i. i < n \<Longrightarrow> 0 < col_lens C i \<and> col_lens C i < 2 ^ 32 \<and> col_offsets C i < 2 ^ 32"
  shows "uniq_rep (image_mset (uniq_hash m C) (group_of n res b) + V)
    (uniq_cudaAddBulk order order' m C n res tmp places b)"
proof -
  define h where "h = cudaCalcCityHash64 order n m (col_buf C) False
            (\<lambda>i. word_of_nat (col_lens C i)) (\<lambda>i. word_of_nat (col_offsets C i)) tmp"
  have h: "h i = uniq_hash m C i" if "i < n" for i
  proof -
    have "unat (hash_len False (word_of_nat (col_lens C i))) = col_lens C i - 1"
    proof -
      have "(word_of_nat (col_lens C i) :: 32 word) - 1 = word_of_nat (col_lens C i - 1)"
        using C [OF that] by simp
      moreover have "take_bit 32 (col_lens C i - 1) = col_lens C i - 1"
        using C [OF that] by (simp add: take_bit_nat_eq_self_iff less_imp_diff_less)
      ultimately show ?thesis by (simp add: hash_len_def unsigned_of_nat)
    qed
    moreover have "unat (word_of_nat (col_offsets C i) :: 32 word) = col_offsets C i"
      using C [OF that] by (simp add: unsigned_of_nat take_bit_nat_eq_self_iff)
    ultimately show ?thesis
      using city_kernel.launch_cells [OF assms(2), of n m "col_buf C"] grid_256 [OF n] that
      unfolding h_def cudaCalcCityHash64_def by (simp add: uniq_hash_def)
  qed
  have "kerCudaAddBulk n h res = (\<lambda>b t. bulk_thread (\<lambda>i. i < n) res (\<lambda>i. uniq_insert (h i)) (grid_thread b t))"
    by (intro ext) (simp add: kerCudaAddBulk_def bulk_thread_def Let_def)
  then have "uniq_rep (image_mset h (group_of n res b) + V) (launch (kerCudaAddBulk n h res) order' places b)"
    using uniq.rep_launch [where places = places and b = b and val = h and res = res, OF n o assms(4)] by (simp add: group_of_def)
  moreover have "image_mset h (group_of n res b) = image_mset (uniq_hash m C) (group_of n res b)"
    using h by (intro image_mset_cong) (simp add: set_group_of)
  ultimately show ?thesis by (simp add: uniq_cudaAddBulk_def h_def [symmetric])
qed


definition demo_values :: cuda_column where
  "demo_values = \<lparr>col_str_num = 3, col_max_str_num = 4, col_sz = 6, col_max_sz = 8, col_buf = 0, col_lens = (\<lambda>_. 2),
     col_offsets = (\<lambda>_. 0), col_offsets64 = (\<lambda>_. 0), blocks_sizes = [3], blocks_buf_sizes = [6]\<rparr>"


end
