(* ===== verification/Strings_Table.thy ===== *)
theory Strings_Table
  imports Murmur_Hash
begin

text \<open>
  The kernel that inserts strings into the open-addressing table on the device
  (\<^verbatim>\<open>kerAddData\<close> of \<^verbatim>\<open>CudaStringsHashTable.cu\<close>).  All threads share the arrays of the table and
  synchronise by compare-and-swap only; a thread is a state machine whose steps are the shared
  accesses of the source, and a run of the kernel is any interleaving of such steps.
\<close>

section \<open>Comparing two strings\<close>

text \<open>The loop \<^verbatim>\<open>while(data != end)\<close> that compares the string of the thread with that of the bucket.\<close>

function compare_loop ::
  "memory \<Rightarrow> nat \<Rightarrow> nat \<Rightarrow> bool \<Rightarrow> u64 \<Rightarrow> nat \<Rightarrow> nat \<Rightarrow> bool \<Rightarrow> u64 \<Rightarrow> bool \<Rightarrow> bool" where
  "compare_loop m data e is_first_read tmp_buf data_next e_next is_first_read_next tmp_buf_next hit =
     (if data \<noteq> e then
        (let r = cudaReadStringUnaligned64 m is_first_read tmp_buf data e;
             r_next = cudaReadStringUnaligned64 m is_first_read_next tmp_buf_next data_next e_next
         in compare_loop m (snd (snd r)) e False (fst (snd r))
              (snd (snd r_next)) e_next False (fst (snd r_next))
              (if fst r \<noteq> fst r_next then False else hit))
      else hit)"
  by pat_completeness auto
termination
  by (relation "measure (\<lambda>(m, data, e, _). if data = e then 0 else Suc (e - data))")
    (auto simp: cudaReadStringUnaligned64_def Let_def)

declare compare_loop.simps [simp del]

lemma load_bytes_inj:
  assumes "n \<le> 8"
  shows "load_bytes m a n = load_bytes m b n \<longleftrightarrow> bytes_at m a n = bytes_at m b n"
proof
  assume l: "load_bytes m a n = load_bytes m b n"
  have "m (a + i) = m (b + i)" if "i < n" for i
  proof (rule bit_word_eqI)
    fix j assume j: "j < LENGTH(8)"
    have "(8 * i + j) div 8 = i" "(8 * i + j) mod 8 = j" using j by simp_all
    moreover have "8 * i + j < 64" "8 * i + j < 8 * n" using assms that j by simp_all
    ultimately show "bit (m (a + i)) j = bit (m (b + i)) j"
      using bit_load_bytes [of m a n "8 * i + j"] bit_load_bytes [of m b n "8 * i + j"] l by simp
  qed
  then show "bytes_at m a n = bytes_at m b n"
    by (auto simp: bytes_at_def intro!: nth_equalityI)
qed (simp add: load_bytes_eq)

lemma bytes_at_split: "k \<le> n \<Longrightarrow> bytes_at m a n = bytes_at m a k @ bytes_at m (a + k) (n - k)"
  by (metis append_take_drop_id take_bytes_at drop_bytes_at)

lemma read_next:
  assumes lt: "s < e" and t: "first \<or> s = e \<or> tmp = load64 m (align8 s)"
  obtains w where "cudaReadStringUnaligned64 m first tmp s e =
      (load_bytes m s (min 8 (e - s)), w, s + min 8 (e - s))"
    and "s + min 8 (e - s) = e \<or> w = load64 m (align8 (s + min 8 (e - s)))"
proof
  let ?w = "load64 m (if align8 s \<noteq> align8 (e - 1) then align8 s + 8 else align8 s)"
  have mn: "min (s + 8) e = s + min 8 (e - s)" using lt by auto
  show "cudaReadStringUnaligned64 m first tmp s e =
      (load_bytes m s (min 8 (e - s)), ?w, s + min 8 (e - s))"
    unfolding mn [symmetric] by (rule read_correct [OF lt]) (use t lt in blast)
  show "s + min 8 (e - s) = e \<or> ?w = load64 m (align8 (s + min 8 (e - s)))"
  proof (cases "s + 8 < e")
    case True
    have "align8 s \<noteq> align8 (e - 1)"
      using True align8_same [of s "e - 1"] by (auto simp: align8_def)
    moreover have "align8 (s + 8) = align8 s + 8" by (simp add: align8_def)
    moreover have "min 8 (e - s) = 8" using True by simp
    ultimately show ?thesis by simp
  qed (use lt in auto)
qed

lemma compare_loop_eq:
  assumes "s \<le> e" and "t \<le> f" and "e - s = f - t"
    and "first \<or> s = e \<or> tmp = load64 m (align8 s)" and "first' \<or> t = f \<or> tmp' = load64 m (align8 t)"
  shows "compare_loop m s e first tmp t f first' tmp' hit \<longleftrightarrow>
    hit \<and> bytes_at m s (e - s) = bytes_at m t (e - s)"
  using assms
proof (induction "e - s" arbitrary: s t first tmp first' tmp' hit rule: less_induct)
  case less
  show ?case
  proof (cases "s = e")
    case True
    then show ?thesis by (simp add: compare_loop.simps bytes_at_def)
  next
    case False
    then have lt: "s < e" "t < f" using less.prems by auto
    define k where "k = min 8 (e - s)"
    have k: "min 8 (e - s) = k" "min 8 (f - t) = k" "k \<le> e - s" "0 < k" "k \<le> 8"
      using less.prems(3) lt by (auto simp: k_def)
    obtain w where r: "cudaReadStringUnaligned64 m first tmp s e = (load_bytes m s k, w, s + k)"
      and w: "s + k = e \<or> w = load64 m (align8 (s + k))"
      using read_next [OF lt(1) less.prems(4)] unfolding k by metis
    obtain v where r': "cudaReadStringUnaligned64 m first' tmp' t f = (load_bytes m t k, v, t + k)"
      and v: "t + k = f \<or> v = load64 m (align8 (t + k))"
      using read_next [OF lt(2) less.prems(5)] unfolding k by metis
    have d: "e - (s + k) < e - s" "s + k \<le> e" "t + k \<le> f" "e - (s + k) = f - (t + k)"
      using k lt less.prems(3) by linarith+
    have "compare_loop m s e first tmp t f first' tmp' hit \<longleftrightarrow>
      (if load_bytes m s k \<noteq> load_bytes m t k then False else hit) \<and>
      bytes_at m (s + k) (e - (s + k)) = bytes_at m (t + k) (e - (s + k))"
      unfolding compare_loop.simps [of m s] r r' Let_def fst_conv snd_conv if_P [OF False]
      by (rule less.hyps [OF d]) (use w v in blast)+
    moreover have "bytes_at m s (e - s) = bytes_at m t (e - s) \<longleftrightarrow>
      bytes_at m s k = bytes_at m t k \<and>
      bytes_at m (s + k) (e - s - k) = bytes_at m (t + k) (e - s - k)"
      unfolding bytes_at_split [OF k(3)] by simp
    ultimately show ?thesis using load_bytes_inj [OF k(5), of m s t] by auto
  qed
qed

section \<open>The kernel\<close>

text \<open>
  The arguments of the kernel that no thread changes, the arrays the threads share, and the local
  variables of a thread.  \<open>thread_at\<close> is the shared access the thread performs next.
\<close>

record add_args =
  str_num :: nat
  buf :: nat
  in_offsets :: "nat \<Rightarrow> nat"
  in_lens :: "nat \<Rightarrow> nat"
  seed :: "32 word"
  buckets_num :: nat

record add_mem =
  hashes :: "nat \<Rightarrow> u64"
  table_lens :: "nat \<Rightarrow> nat"
  ptrs :: "nat \<Rightarrow> nat"
  res_buckets :: "nat \<Rightarrow> nat"
  new_strings_lens :: "nat \<Rightarrow> nat"
  table_is_full :: bool

datatype add_at =
  Start | ReadHash | CasHash | ReadLen | CasLen | ReadPtr | CasPtr | Compare | Next | StoreBucket | StoreLen | Exit

record add_thread =
  thread_at :: add_at
  bucket_i :: nat
  ptr :: nat
  our_string :: bool

definition no_empty_hash :: "u64 \<Rightarrow> u64" where
  "no_empty_hash h = (if h = 0 then h + 1 else h)"

definition add_addr :: "add_args \<Rightarrow> nat \<Rightarrow> nat" where
  "add_addr A i = buf A + in_offsets A i"

definition add_hash :: "memory \<Rightarrow> add_args \<Rightarrow> nat \<Rightarrow> u64" where
  "add_hash m A i = no_empty_hash (cudaMurmurHash64 m (add_addr A i) (in_lens A i) (seed A))"

definition round_len :: "nat \<Rightarrow> nat" where
  "round_len len = (((len + 2 ^ 32 - 1) mod 2 ^ 32 div 8 + 1) * 8) mod 2 ^ 32"

fun add_step :: "memory \<Rightarrow> add_args \<Rightarrow> nat \<Rightarrow> add_mem \<Rightarrow> add_thread \<Rightarrow> add_mem \<times> add_thread" where
  "add_step m A i M t =
     (let len = in_lens A i; h = add_hash m A i; b = bucket_i t in
      case thread_at t of
        Start \<Rightarrow>
          if \<not> i < str_num A \<or> len = 0 then (M, t\<lparr>thread_at := Exit\<rparr>)
          else (M, t\<lparr>thread_at := ReadHash, bucket_i := unat h mod buckets_num A, our_string := False\<rparr>)
      | ReadHash \<Rightarrow>
          let x = hashes M b
          in (M, t\<lparr>thread_at := (if x = 0 then CasHash else if x = h then ReadLen else Next)\<rparr>)
      | CasHash \<Rightarrow>
          let old = hashes M b
          in (if old = 0 then M\<lparr>hashes := (hashes M)(b := h)\<rparr> else M,
              t\<lparr>thread_at := (if old = 0 \<or> old = h then ReadLen else Next)\<rparr>)
      | ReadLen \<Rightarrow>
          let len_in_bucket = table_lens M b
          in (M, t\<lparr>thread_at := (if len_in_bucket = 0 then CasLen
                                else if len_in_bucket \<noteq> len then Next else ReadPtr)\<rparr>)
      | CasLen \<Rightarrow>
          let old = table_lens M b
          in (if old = 0 then M\<lparr>table_lens := (table_lens M)(b := len)\<rparr> else M,
              t\<lparr>thread_at := (if old \<noteq> 0 \<and> old \<noteq> len then Next else ReadPtr)\<rparr>)
      | ReadPtr \<Rightarrow>
          let p = ptrs M b
          in (M, t\<lparr>thread_at := (if p = 0 then CasPtr else Compare), ptr := p\<rparr>)
      | CasPtr \<Rightarrow>
          let old = ptrs M b
          in if old = 0
             then (M\<lparr>ptrs := (ptrs M)(b := add_addr A i)\<rparr>,
                   t\<lparr>thread_at := Compare, ptr := add_addr A i, our_string := True\<rparr>)
             else (M, t\<lparr>thread_at := Compare, ptr := old\<rparr>)
      | Compare \<Rightarrow>
          let hit = compare_loop m (add_addr A i) (add_addr A i + len) True 0
                      (ptr t) (ptr t + len) True 0 True
          in (M, t\<lparr>thread_at := (if hit then StoreBucket else Next)\<rparr>)
      | Next \<Rightarrow>
          let b' = (b + 1) mod 2 ^ 32 mod buckets_num A
          in if b' = unat h mod buckets_num A
             then (M\<lparr>table_is_full := True\<rparr>, t\<lparr>thread_at := Exit, bucket_i := b'\<rparr>)
             else (M, t\<lparr>thread_at := ReadHash, bucket_i := b'\<rparr>)
      | StoreBucket \<Rightarrow>
          (M\<lparr>res_buckets := (res_buckets M)(i := b)\<rparr>,
           t\<lparr>thread_at := (if our_string t then StoreLen else Exit)\<rparr>)
      | StoreLen \<Rightarrow>
          (M\<lparr>new_strings_lens := (new_strings_lens M)(b := round_len len)\<rparr>, t\<lparr>thread_at := Exit\<rparr>)
      | Exit \<Rightarrow> (M, t))"

declare add_step.simps [simp del]

text \<open>
  The threads of the launch \<^verbatim>\<open><<<(str_num/256)+1,256>>>\<close>, and its run under a schedule: the list
  of the threads in the order in which they take their steps.
\<close>

definition add_threads :: "add_args \<Rightarrow> nat" where
  "add_threads A = (str_num A div 256 + 1) * 256"

definition thread_init :: add_thread where
  "thread_init = \<lparr>thread_at = Start, bucket_i = 0, ptr = 0, our_string = False\<rparr>"

type_synonym add_state = "add_mem \<times> (nat \<Rightarrow> add_thread)"

definition add_turn :: "memory \<Rightarrow> add_args \<Rightarrow> nat \<Rightarrow> add_state \<Rightarrow> add_state" where
  "add_turn m A i S =
     (if i < add_threads A
      then (let r = add_step m A i (fst S) (snd S i) in (fst r, (snd S)(i := snd r)))
      else S)"

definition kerAddData :: "memory \<Rightarrow> add_args \<Rightarrow> nat list \<Rightarrow> add_mem \<Rightarrow> add_state" where
  "kerAddData m A sched M = fold (add_turn m A) sched (M, \<lambda>_. thread_init)"

definition all_exited :: "add_args \<Rightarrow> add_state \<Rightarrow> bool" where
  "all_exited A S \<longleftrightarrow> (\<forall>i < add_threads A. thread_at (snd S i) = Exit)"

end
