(* ===== verification/Strings_Table_Inv.thy ===== *)
theory Strings_Table_Inv
  imports Strings_Table
begin

text \<open>
  Invariants of the insertion kernel.  A bucket is filled in three steps (hash, length, pointer), each
  by the thread that wins the compare-and-swap, and never changes afterwards.  A thread leaves a
  bucket only after it has seen a component of it that differs from its own string, which is why a
  string is found in one bucket only although no lock is taken.
\<close>

section \<open>The table as a map from buckets to strings\<close>

definition str_key :: "memory \<Rightarrow> add_args \<Rightarrow> nat \<Rightarrow> 8 word list" where
  "str_key m A i = bytes_at m (add_addr A i) (in_lens A i)"

definition hash_of :: "add_args \<Rightarrow> 8 word list \<Rightarrow> u64" where
  "hash_of A s = no_empty_hash (MurmurHash64A s (seed A))"

definition probe :: "add_args \<Rightarrow> 8 word list \<Rightarrow> nat \<Rightarrow> nat" where
  "probe A s d = (unat (hash_of A s) + d) mod buckets_num A"

definition entry :: "memory \<Rightarrow> add_mem \<Rightarrow> nat \<Rightarrow> 8 word list option" where
  "entry m M b = (if ptrs M b = 0 then None else Some (bytes_at m (ptrs M b) (table_lens M b)))"

definition rejects :: "memory \<Rightarrow> add_args \<Rightarrow> add_mem \<Rightarrow> 8 word list \<Rightarrow> nat \<Rightarrow> bool" where
  "rejects m A M s b \<longleftrightarrow> hashes M b \<noteq> 0 \<and>
     (hashes M b = hash_of A s \<longrightarrow> table_lens M b \<noteq> 0 \<and>
     (table_lens M b = length s \<longrightarrow> entry m M b \<noteq> None \<and> entry m M b \<noteq> Some s))"

definition reached :: "memory \<Rightarrow> add_args \<Rightarrow> add_mem \<Rightarrow> 8 word list \<Rightarrow> nat \<Rightarrow> bool" where
  "reached m A M s b \<longleftrightarrow>
     (\<exists>d < buckets_num A. b = probe A s d \<and> (\<forall>e < d. rejects m A M s (probe A s e)))"

definition exhausted :: "memory \<Rightarrow> add_args \<Rightarrow> add_mem \<Rightarrow> 8 word list \<Rightarrow> bool" where
  "exhausted m A M s \<longleftrightarrow> (\<forall>d < buckets_num A. rejects m A M s (probe A s d))"

definition tab_ok :: "memory \<Rightarrow> add_args \<Rightarrow> add_mem \<Rightarrow> bool" where
  "tab_ok m A M \<longleftrightarrow> (\<forall>b. (hashes M b = 0 \<longrightarrow> table_lens M b = 0) \<and> (table_lens M b = 0 \<longrightarrow> ptrs M b = 0)
     \<and> (\<forall>s. entry m M b = Some s \<longrightarrow> hashes M b = hash_of A s \<and> reached m A M s b))"

definition grows :: "add_mem \<Rightarrow> add_mem \<Rightarrow> bool" where
  "grows M M' \<longleftrightarrow> (\<forall>b. (hashes M b \<noteq> 0 \<longrightarrow> hashes M' b = hashes M b)
     \<and> (table_lens M b \<noteq> 0 \<longrightarrow> table_lens M' b = table_lens M b)
     \<and> (ptrs M b \<noteq> 0 \<longrightarrow> ptrs M' b = ptrs M b))"

definition args_ok :: "add_args \<Rightarrow> bool" where
  "args_ok A \<longleftrightarrow> 0 < buckets_num A \<and> buckets_num A < 2 ^ 32 \<and> buf A \<noteq> 0"

lemma grows_refl [simp]: "grows M M"
  by (simp add: grows_def)

lemma grows_trans: "grows M M' \<Longrightarrow> grows M' M'' \<Longrightarrow> grows M M''"
  unfolding grows_def by metis

lemma add_hash_eq: "add_hash m A i = hash_of A (str_key m A i)"
  by (simp add: add_hash_def hash_of_def str_key_def cudaMurmurHash64_eq)

lemma hash_of_nonzero [simp]: "hash_of A s \<noteq> 0"
  by (simp add: hash_of_def no_empty_hash_def)

lemma length_str_key [simp]: "length (str_key m A i) = in_lens A i"
  by (simp add: str_key_def)

lemma tab_okD:
  assumes "tab_ok m A M"
  shows "hashes M b = 0 \<Longrightarrow> table_lens M b = 0" and "table_lens M b = 0 \<Longrightarrow> ptrs M b = 0"
    and "entry m M b = Some s \<Longrightarrow> hashes M b = hash_of A s"
    and "entry m M b = Some s \<Longrightarrow> reached m A M s b"
  using assms unfolding tab_ok_def by blast+

lemma growsD:
  assumes "grows M M'"
  shows "hashes M b \<noteq> 0 \<Longrightarrow> hashes M' b = hashes M b"
    and "table_lens M b \<noteq> 0 \<Longrightarrow> table_lens M' b = table_lens M b"
    and "ptrs M b \<noteq> 0 \<Longrightarrow> ptrs M' b = ptrs M b"
  using assms unfolding grows_def by blast+

lemma entry_Some:
  "entry m M b = Some s \<longleftrightarrow> ptrs M b \<noteq> 0 \<and> s = bytes_at m (ptrs M b) (table_lens M b)"
  unfolding entry_def by (cases "ptrs M b = 0") auto

lemma entry_stable:
  assumes "grows M M'" and "tab_ok m A M" and e: "entry m M b = Some s"
  shows "entry m M' b = Some s"
proof -
  have p: "ptrs M b \<noteq> 0" and s: "s = bytes_at m (ptrs M b) (table_lens M b)"
    using e unfolding entry_Some by blast+
  have "table_lens M b \<noteq> 0" using p tab_okD(2) [OF assms(2), of b] by auto
  then show ?thesis
    unfolding entry_Some s using growsD(2,3) [OF assms(1), of b] p by simp
qed

lemma entry_length: "entry m M b = Some s \<Longrightarrow> length s = table_lens M b"
  unfolding entry_Some by simp

lemma rejects_stable:
  assumes "grows M M'" and "tab_ok m A M" and "rejects m A M s b"
  shows "rejects m A M' s b"
proof -
  have "entry m M' b \<noteq> None \<and> entry m M' b \<noteq> Some s" if "entry m M b \<noteq> None" "entry m M b \<noteq> Some s"
    using that entry_stable [OF assms(1,2)] by fastforce
  moreover have "hashes M' b = hashes M b" using assms(1,3) by (simp add: grows_def rejects_def)
  moreover have "table_lens M b \<noteq> 0 \<Longrightarrow> table_lens M' b = table_lens M b"
    using assms(1) by (simp add: grows_def)
  ultimately show ?thesis using assms(3) unfolding rejects_def by auto
qed

lemma reached_stable:
  "\<lbrakk>grows M M'; tab_ok m A M; reached m A M s b\<rbrakk> \<Longrightarrow> reached m A M' s b"
  unfolding reached_def using rejects_stable by blast

lemma exhausted_stable:
  "\<lbrakk>grows M M'; tab_ok m A M; exhausted m A M s\<rbrakk> \<Longrightarrow> exhausted m A M' s"
  unfolding exhausted_def using rejects_stable by blast

lemma not_rejects_own: "entry m M b = Some s \<Longrightarrow> tab_ok m A M \<Longrightarrow> \<not> rejects m A M s b"
  using entry_length [of m M b s] tab_okD(3) [of m A M b s] by (simp add: rejects_def)

lemma reached_bound: "reached m A M s b \<Longrightarrow> b < buckets_num A"
  by (auto simp: reached_def probe_def)

text \<open>A string is in one bucket at most.\<close>

lemma entry_unique:
  assumes ok: "tab_ok m A M" and b: "entry m M b = Some s" and c: "entry m M c = Some s"
  shows "b = c"
proof -
  obtain d where d: "b = probe A s d" "\<And>e. e < d \<Longrightarrow> rejects m A M s (probe A s e)"
    using tab_okD(4) [OF ok b] unfolding reached_def by blast
  obtain f where f: "c = probe A s f" "\<And>e. e < f \<Longrightarrow> rejects m A M s (probe A s e)"
    using tab_okD(4) [OF ok c] unfolding reached_def by blast
  have "\<not> d < f" using f(2) [of d] not_rejects_own [OF b ok] d(1) by blast
  moreover have "\<not> f < d" using d(2) [of f] not_rejects_own [OF c ok] f(1) by blast
  ultimately show ?thesis using d(1) f(1) by simp
qed

lemma entry_bound: "tab_ok m A M \<Longrightarrow> entry m M b = Some s \<Longrightarrow> b < buckets_num A"
  by (rule reached_bound) (rule tab_okD(4))

text \<open>A string that every bucket rejects is in none.\<close>

lemma exhausted_not_entry:
  assumes "tab_ok m A M" and "exhausted m A M s"
  shows "entry m M b \<noteq> Some s"
proof
  assume e: "entry m M b = Some s"
  then obtain d where "d < buckets_num A" "b = probe A s d"
    using tab_okD(4) [OF assms(1) e] unfolding reached_def by blast
  then show False using assms not_rejects_own [OF e assms(1)] by (simp add: exhausted_def)
qed

lemma probe_Suc:
  assumes "buckets_num A < 2 ^ 32" "d < buckets_num A"
  shows "(probe A s d + 1) mod 2 ^ 32 mod buckets_num A = probe A s (Suc d)"
proof -
  have "probe A s d + 1 < 2 ^ 32"
    using assms mod_less_divisor [of "buckets_num A" "unat (hash_of A s) + d"]
    unfolding probe_def by linarith
  then show ?thesis by (simp add: probe_def mod_Suc_eq)
qed

lemma mod_add_Suc_eq:
  fixes h n d :: nat
  assumes "d < n"
  shows "(h + Suc d) mod n = (h + 0) mod n \<longleftrightarrow> Suc d = n"
proof
  assume "(h + Suc d) mod n = (h + 0) mod n"
  then have "n dvd (h + Suc d) - (h + 0)" by (subst (asm) mod_eq_dvd_iff_nat) simp_all
  then have "n \<le> Suc d" by (auto dest: dvd_imp_le)
  with assms show "Suc d = n" by simp
next
  assume "Suc d = n"
  then show "(h + Suc d) mod n = (h + 0) mod n" by (simp only: mod_add_self2 add_0_right)
qed

lemma mod_add_hit:
  fixes h b n :: nat
  assumes "b < n"
  shows "(h + (b + (n - h mod n)) mod n) mod n = b"
proof -
  have n: "0 < n" using assms by simp
  have "(h + (b + (n - h mod n)) mod n) mod n = (h mod n + (b + (n - h mod n))) mod n"
    by (simp only: mod_add_left_eq mod_add_right_eq)
  also have "h mod n + (b + (n - h mod n)) = b + n"
    using mod_less_divisor [OF n, of h] by linarith
  also have "(b + n) mod n = b" using assms by simp
  finally show ?thesis .
qed

lemma probe_wrap:
  "d < buckets_num A \<Longrightarrow> probe A s (Suc d) = probe A s 0 \<longleftrightarrow> Suc d = buckets_num A"
  unfolding probe_def by (rule mod_add_Suc_eq)

lemma probe_surj:
  assumes "b < buckets_num A"
  obtains d where "d < buckets_num A" "probe A s d = b"
proof
  show "(b + (buckets_num A - unat (hash_of A s) mod buckets_num A)) mod buckets_num A < buckets_num A"
    using assms by simp
  show "probe A s ((b + (buckets_num A - unat (hash_of A s) mod buckets_num A)) mod buckets_num A) = b"
    unfolding probe_def by (rule mod_add_hit [OF assms])
qed

section \<open>One step of a thread\<close>

definition thread_ok :: "memory \<Rightarrow> add_args \<Rightarrow> nat \<Rightarrow> add_mem \<Rightarrow> add_thread \<Rightarrow> bool" where
  "thread_ok m A i M t =
     (let s = str_key m A i; b = bucket_i t; our = our_string t;
          active = (i < str_num A \<and> in_lens A i \<noteq> 0);
          there = (active \<and> reached m A M s b)
      in case thread_at t of
        Start \<Rightarrow> True
      | ReadHash \<Rightarrow> there \<and> \<not> our
      | CasHash \<Rightarrow> there \<and> \<not> our
      | ReadLen \<Rightarrow> there \<and> \<not> our \<and> hashes M b = hash_of A s
      | CasLen \<Rightarrow> there \<and> \<not> our \<and> hashes M b = hash_of A s
      | ReadPtr \<Rightarrow> there \<and> \<not> our \<and> hashes M b = hash_of A s \<and> table_lens M b = length s
      | CasPtr \<Rightarrow> there \<and> \<not> our \<and> hashes M b = hash_of A s \<and> table_lens M b = length s
      | Compare \<Rightarrow> there \<and> hashes M b = hash_of A s \<and> table_lens M b = length s \<and>
          ptr t \<noteq> 0 \<and> ptrs M b = ptr t \<and> (our \<longrightarrow> ptr t = add_addr A i)
      | Next \<Rightarrow> there \<and> \<not> our \<and> rejects m A M s b
      | StoreBucket \<Rightarrow> there \<and> entry m M b = Some s \<and> (our \<longrightarrow> ptrs M b = add_addr A i)
      | StoreLen \<Rightarrow> there \<and> entry m M b = Some s \<and> our \<and> ptrs M b = add_addr A i \<and> res_buckets M i = b
      | Exit \<Rightarrow> active \<longrightarrow> entry m M (res_buckets M i) = Some s \<or> table_is_full M \<and> exhausted m A M s)"

lemma grows_upd:
  "hashes M b = 0 \<Longrightarrow> grows M (M\<lparr>hashes := (hashes M)(b := h)\<rparr>)"
  "table_lens M b = 0 \<Longrightarrow> grows M (M\<lparr>table_lens := (table_lens M)(b := l)\<rparr>)"
  "ptrs M b = 0 \<Longrightarrow> grows M (M\<lparr>ptrs := (ptrs M)(b := p)\<rparr>)"
  "grows M (M\<lparr>res_buckets := r\<rparr>)" "grows M (M\<lparr>new_strings_lens := l'\<rparr>)" "grows M (M\<lparr>table_is_full := f\<rparr>)"
  by (simp_all add: grows_def)

lemma tab_ok_grows:
  assumes ok: "tab_ok m A M" and g: "grows M M'"
    and h: "\<And>b. hashes M' b = 0 \<Longrightarrow> table_lens M' b = 0"
    and l: "\<And>b. table_lens M' b = 0 \<Longrightarrow> ptrs M' b = 0"
    and new: "\<And>b s. ptrs M b = 0 \<Longrightarrow> entry m M' b = Some s \<Longrightarrow> hashes M' b = hash_of A s \<and> reached m A M s b"
  shows "tab_ok m A M'"
  unfolding tab_ok_def
proof (intro allI conjI impI)
  fix b s assume e: "entry m M' b = Some s"
  have "hashes M' b = hash_of A s \<and> reached m A M s b"
  proof (cases "ptrs M b = 0")
    case False
    then obtain s' where s': "entry m M b = Some s'" by (simp add: entry_def)
    have "s' = s" using entry_stable [OF g ok s'] e by simp
    then show ?thesis using tab_okD(3,4) [OF ok s'] growsD(1) [OF g, of b] by simp
  qed (rule new [OF _ e])
  then show "hashes M' b = hash_of A s" "reached m A M' s b" using reached_stable [OF g ok] by simp_all
qed (use h l in auto)

lemma tab_ok_hash:
  assumes ok: "tab_ok m A M" and "hashes M b = 0" and "h \<noteq> 0"
  shows "tab_ok m A (M\<lparr>hashes := (hashes M)(b := h)\<rparr>)"
proof (rule tab_ok_grows [OF ok grows_upd(1)])
  show "hashes M b = 0" by fact
qed (use assms tab_okD(1,2) [OF ok] in \<open>auto simp: entry_def split: if_splits\<close>)

lemma tab_ok_len:
  assumes ok: "tab_ok m A M" and "table_lens M b = 0" and "hashes M b \<noteq> 0" and "l \<noteq> 0"
  shows "tab_ok m A (M\<lparr>table_lens := (table_lens M)(b := l)\<rparr>)"
proof (rule tab_ok_grows [OF ok grows_upd(2)])
  show "table_lens M b = 0" by fact
qed (use assms tab_okD(1,2) [OF ok] in \<open>auto simp: entry_def split: if_splits\<close>)

lemma tab_ok_ptr:
  assumes ok: "tab_ok m A M" and "ptrs M b = 0" and "table_lens M b \<noteq> 0" and "p \<noteq> 0"
    and "s = bytes_at m p (table_lens M b)" and "hashes M b = hash_of A s" and "reached m A M s b"
  shows "tab_ok m A (M\<lparr>ptrs := (ptrs M)(b := p)\<rparr>)"
proof (rule tab_ok_grows [OF ok grows_upd(3)])
  show "ptrs M b = 0" by fact
  fix c s'
  assume "ptrs M c = 0" "entry m (M\<lparr>ptrs := (ptrs M)(b := p)\<rparr>) c = Some s'"
  then show "hashes (M\<lparr>ptrs := (ptrs M)(b := p)\<rparr>) c = hash_of A s' \<and> reached m A M s' c"
    using assms by (cases "c = b") (simp_all add: entry_def)
qed (use assms tab_okD(1,2) [OF ok] in \<open>auto split: if_splits\<close>)

lemma tab_ok_other [simp]:
  "tab_ok m A (M\<lparr>res_buckets := r\<rparr>) = tab_ok m A M"
  "tab_ok m A (M\<lparr>new_strings_lens := l\<rparr>) = tab_ok m A M"
  "tab_ok m A (M\<lparr>table_is_full := f\<rparr>) = tab_ok m A M"
  by (cases M, simp only: tab_ok_def reached_def rejects_def entry_def add_mem.simps)+

text \<open>What a thread knows of the table stays true when other threads fill buckets.\<close>

lemma thread_ok_stable:
  assumes t: "thread_ok m A i M t" and ok: "tab_ok m A M" and g: "grows M M'"
    and r: "res_buckets M' i = res_buckets M i" and f: "table_is_full M \<longrightarrow> table_is_full M'"
  shows "thread_ok m A i M' t"
proof -
  let ?s = "str_key m A i" and ?b = "bucket_i t"
  note st = reached_stable [OF g ok, of ?s ?b] rejects_stable [OF g ok, of ?s ?b]
    exhausted_stable [OF g ok, of ?s] entry_stable [OF g ok, of ?b ?s]
    entry_stable [OF g ok, of "res_buckets M i" ?s] growsD [OF g, of ?b]
  show ?thesis
    using t st r f unfolding thread_ok_def Let_def entry_Some
    by (cases "thread_at t") auto
qed

definition keeps :: "memory \<Rightarrow> add_args \<Rightarrow> nat \<Rightarrow> add_mem \<Rightarrow> add_mem \<times> add_thread \<Rightarrow> bool" where
  "keeps m A i M r \<longleftrightarrow> grows M (fst r) \<and> tab_ok m A (fst r) \<and> thread_ok m A i (fst r) (snd r) \<and>
     (\<forall>j. j \<noteq> i \<longrightarrow> res_buckets (fst r) j = res_buckets M j) \<and>
     (table_is_full M \<longrightarrow> table_is_full (fst r))"

lemma reached_start: "0 < buckets_num A \<Longrightarrow> reached m A M s (unat (hash_of A s) mod buckets_num A)"
  unfolding reached_def by (rule exI [of _ 0]) (simp add: probe_def)

lemma next_bucket:
  assumes "args_ok A" and "reached m A M s b" and "rejects m A M s b"
  shows "(if (b + 1) mod 2 ^ 32 mod buckets_num A = unat (hash_of A s) mod buckets_num A
    then exhausted m A M s else reached m A M s ((b + 1) mod 2 ^ 32 mod buckets_num A))"
proof -
  obtain d where d: "d < buckets_num A" "b = probe A s d"
    and "\<forall>e < d. rejects m A M s (probe A s e)"
    using assms(2) unfolding reached_def by blast
  then have all: "\<forall>e < Suc d. rejects m A M s (probe A s e)" using assms(3) by (simp add: less_Suc_eq)
  have b': "(b + 1) mod 2 ^ 32 mod buckets_num A = probe A s (Suc d)"
    unfolding d(2) by (rule probe_Suc) (use assms(1) d(1) in \<open>simp_all add: args_ok_def\<close>)
  have h: "unat (hash_of A s) mod buckets_num A = probe A s 0" by (simp add: probe_def)
  show ?thesis
  proof (cases "Suc d = buckets_num A")
    case True
    then show ?thesis using all probe_wrap [OF d(1), of s] unfolding b' h exhausted_def by simp
  next
    case False
    then have "Suc d < buckets_num A" using d(1) by simp
    then have "reached m A M s (probe A s (Suc d))" using all unfolding reached_def by blast
    then show ?thesis using False probe_wrap [OF d(1), of s] unfolding b' h by simp
  qed
qed

definition step_pre :: "memory \<Rightarrow> add_args \<Rightarrow> nat \<Rightarrow> add_mem \<Rightarrow> add_thread \<Rightarrow> bool" where
  "step_pre m A i M t \<longleftrightarrow> args_ok A \<and> tab_ok m A M \<and> thread_ok m A i M t"

named_theorems step_simps \<open>unfolding one step of a thread\<close>

lemmas [step_simps] = add_step.simps step_pre_def keeps_def thread_ok_def Let_def add_hash_eq grows_upd

lemma keeps_Start:
  "step_pre m A i M t \<Longrightarrow> thread_at t = Start \<Longrightarrow> keeps m A i M (add_step m A i M t)"
  using reached_start [of A m M "str_key m A i"] by (auto simp: step_simps args_ok_def)

lemma keeps_ReadHash:
  "step_pre m A i M t \<Longrightarrow> thread_at t = ReadHash \<Longrightarrow> keeps m A i M (add_step m A i M t)"
  by (auto simp: step_simps rejects_def)

lemma keeps_CasHash:
  assumes "step_pre m A i M t" and "thread_at t = CasHash"
  shows "keeps m A i M (add_step m A i M t)"
proof (cases "hashes M (bucket_i t) = 0")
  case True
  let ?M = "M\<lparr>hashes := (hashes M)(bucket_i t := hash_of A (str_key m A i))\<rparr>"
  have ok: "tab_ok m A M" using assms by (simp add: step_pre_def)
  have "tab_ok m A ?M" using ok True by (rule tab_ok_hash) simp
  moreover have "reached m A M s b \<Longrightarrow> reached m A ?M s b" for s b
    by (rule reached_stable [OF grows_upd(1) ok]) (rule True)
  ultimately show ?thesis using assms True by (auto simp: step_simps)
next
  case False
  with assms show ?thesis by (auto simp: step_simps rejects_def)
qed

lemma keeps_ReadLen:
  "step_pre m A i M t \<Longrightarrow> thread_at t = ReadLen \<Longrightarrow> keeps m A i M (add_step m A i M t)"
  by (auto simp: step_simps rejects_def)

lemma keeps_CasLen:
  assumes "step_pre m A i M t" and "thread_at t = CasLen"
  shows "keeps m A i M (add_step m A i M t)"
proof (cases "table_lens M (bucket_i t) = 0")
  case True
  let ?M = "M\<lparr>table_lens := (table_lens M)(bucket_i t := in_lens A i)\<rparr>"
  have ok: "tab_ok m A M" using assms by (simp add: step_pre_def)
  have "tab_ok m A ?M" using ok True by (rule tab_ok_len) (use assms in \<open>auto simp: step_simps\<close>)
  moreover have "reached m A M s b \<Longrightarrow> reached m A ?M s b" for s b
    by (rule reached_stable [OF grows_upd(2) ok]) (rule True)
  ultimately show ?thesis using assms True by (auto simp: step_simps)
next
  case False
  with assms show ?thesis by (auto simp: step_simps rejects_def)
qed

lemma keeps_ReadPtr:
  "step_pre m A i M t \<Longrightarrow> thread_at t = ReadPtr \<Longrightarrow> keeps m A i M (add_step m A i M t)"
  by (auto simp: step_simps)

lemma keeps_CasPtr:
  assumes "step_pre m A i M t" and "thread_at t = CasPtr"
  shows "keeps m A i M (add_step m A i M t)"
proof (cases "ptrs M (bucket_i t) = 0")
  case True
  let ?M = "M\<lparr>ptrs := (ptrs M)(bucket_i t := add_addr A i)\<rparr>"
  have ok: "tab_ok m A M" using assms by (simp add: step_pre_def)
  have a: "add_addr A i \<noteq> 0" using assms by (auto simp: step_pre_def args_ok_def add_addr_def)
  have "tab_ok m A ?M" using ok True
    by (rule tab_ok_ptr [where s = "str_key m A i"])
      (use assms a in \<open>auto simp: step_simps str_key_def\<close>)
  moreover have "reached m A M s b \<Longrightarrow> reached m A ?M s b" for s b
    by (rule reached_stable [OF grows_upd(3) ok]) (rule True)
  ultimately show ?thesis using assms True a by (auto simp: step_simps)
next
  case False
  with assms show ?thesis by (auto simp: step_simps)
qed

lemma keeps_Compare:
  assumes "step_pre m A i M t" and "thread_at t = Compare"
  shows "keeps m A i M (add_step m A i M t)"
proof -
  let ?hit = "compare_loop m (add_addr A i) (add_addr A i + in_lens A i) True 0
                      (ptr t) (ptr t + in_lens A i) True 0 True"
  have hit: "?hit \<longleftrightarrow> str_key m A i = bytes_at m (ptr t) (in_lens A i)"
    by (subst compare_loop_eq) (auto simp: str_key_def)
  have e: "entry m M (bucket_i t) = Some (bytes_at m (ptr t) (in_lens A i))"
    using assms by (auto simp: step_simps entry_def)
  have "our_string t \<Longrightarrow> ?hit" using assms unfolding hit by (auto simp: step_simps str_key_def)
  then show ?thesis using assms e hit by (auto simp: step_simps rejects_def)
qed

lemma keeps_Next:
  assumes "step_pre m A i M t" and "thread_at t = Next"
  shows "keeps m A i M (add_step m A i M t)"
  using assms next_bucket [of A m M "str_key m A i" "bucket_i t"]
    exhausted_stable [OF grows_upd(6), of m A M "str_key m A i" True]
  by (auto simp: step_simps split: if_splits)

lemma stores_stable [simp]:
  "entry m (M\<lparr>res_buckets := r\<rparr>) b = entry m M b"
  "entry m (M\<lparr>new_strings_lens := l\<rparr>) b = entry m M b"
  "reached m A (M\<lparr>res_buckets := r\<rparr>) s b = reached m A M s b"
  "exhausted m A (M\<lparr>new_strings_lens := l\<rparr>) s = exhausted m A M s"
  by (cases M, simp only: exhausted_def reached_def rejects_def entry_def add_mem.simps)+

lemma keeps_StoreBucket:
  "step_pre m A i M t \<Longrightarrow> thread_at t = StoreBucket \<Longrightarrow> keeps m A i M (add_step m A i M t)"
  by (auto simp: step_simps)

lemma keeps_StoreLen:
  "step_pre m A i M t \<Longrightarrow> thread_at t = StoreLen \<Longrightarrow> keeps m A i M (add_step m A i M t)"
  by (auto simp: step_simps)

lemma keeps_Exit:
  "step_pre m A i M t \<Longrightarrow> thread_at t = Exit \<Longrightarrow> keeps m A i M (add_step m A i M t)"
  by (auto simp: step_simps)

lemma add_step_keeps: "step_pre m A i M t \<Longrightarrow> keeps m A i M (add_step m A i M t)"
  using keeps_Start keeps_ReadHash keeps_CasHash keeps_ReadLen keeps_CasLen keeps_ReadPtr keeps_CasPtr
    keeps_Compare keeps_Next keeps_StoreBucket keeps_StoreLen keeps_Exit
  by (cases "thread_at t") blast+

section \<open>Runs\<close>

definition base_ok :: "memory \<Rightarrow> add_args \<Rightarrow> add_mem \<Rightarrow> add_state \<Rightarrow> bool" where
  "base_ok m A M0 S \<longleftrightarrow> args_ok A \<and> tab_ok m A (fst S) \<and> grows M0 (fst S) \<and>
     (\<forall>i. thread_ok m A i (fst S) (snd S i))"

lemma base_ok_turn:
  assumes "base_ok m A M0 S"
  shows "base_ok m A M0 (add_turn m A i S)"
proof -
  obtain M T where S: "S = (M, T)" by (cases S)
  obtain M' t' where r: "add_step m A i M (T i) = (M', t')" by (cases "add_step m A i M (T i)")
  have "step_pre m A i M (T i)" using assms by (simp add: base_ok_def step_pre_def S)
  from add_step_keeps [OF this]
  have k: "grows M M'" "tab_ok m A M'" "thread_ok m A i M' t'"
    "\<forall>j. j \<noteq> i \<longrightarrow> res_buckets M' j = res_buckets M j" "table_is_full M \<longrightarrow> table_is_full M'"
    by (simp_all add: keeps_def r)
  have "thread_ok m A j M' (T j)" if "j \<noteq> i" for j
    by (rule thread_ok_stable [where M = M]) (use assms k that in \<open>auto simp: base_ok_def S\<close>)
  then show ?thesis using assms k grows_trans
    by (auto simp: base_ok_def S add_turn_def r Let_def)
qed

subsection \<open>A bucket that has been claimed is completed\<close>

definition waits :: "add_at set \<Rightarrow> add_args \<Rightarrow> (nat \<Rightarrow> add_thread) \<Rightarrow> nat \<Rightarrow> bool" where
  "waits P A T b \<longleftrightarrow> (\<exists>j < add_threads A. thread_at (T j) \<in> P \<and> bucket_i (T j) = b)"

lemma waits_new: "i < add_threads A \<Longrightarrow> thread_at t \<in> P \<Longrightarrow> bucket_i t = b \<Longrightarrow> waits P A (T(i := t)) b"
  unfolding waits_def by (rule exI [of _ i]) simp

lemma waiting_upd:
  assumes "waits P A T b" and "thread_at (T i) \<in> P \<Longrightarrow> bucket_i (T i) = b \<Longrightarrow> thread_at t \<in> P \<and> bucket_i t = b"
  shows "waits P A (T(i := t)) b"
  using assms unfolding waits_def by (metis fun_upd_other fun_upd_same)

definition filled_ok :: "add_args \<Rightarrow> add_mem \<Rightarrow> (nat \<Rightarrow> add_thread) \<Rightarrow> bool" where
  "filled_ok A M T \<longleftrightarrow> (\<forall>b.
     (hashes M b \<noteq> 0 \<longrightarrow> table_lens M b = 0 \<longrightarrow> waits {ReadLen, CasLen} A T b) \<and>
     (table_lens M b \<noteq> 0 \<longrightarrow> ptrs M b = 0 \<longrightarrow> waits {ReadPtr, CasPtr} A T b))"

lemma step_claims:
  assumes "add_step m A i M t = (M', t')"
  shows "hashes M b = 0 \<Longrightarrow> hashes M' b \<noteq> 0 \<Longrightarrow> thread_at t' = ReadLen \<and> bucket_i t' = b"
    and "table_lens M b = 0 \<Longrightarrow> table_lens M' b \<noteq> 0 \<Longrightarrow> thread_at t' = ReadPtr \<and> bucket_i t' = b"
    and "ptrs M b = 0 \<Longrightarrow> ptrs M' b \<noteq> 0 \<Longrightarrow>
      thread_at t = CasPtr \<and> thread_at t' = Compare \<and> bucket_i t' = b \<and> our_string t' \<and> ptrs M' b = add_addr A i"
  using assms by (cases "thread_at t"; auto simp: add_step.simps Let_def split: if_splits)+

lemma step_waits:
  assumes "add_step m A i M t = (M', t')" and "thread_ok m A i M t"
  shows "thread_at t \<in> {ReadLen, CasLen} \<Longrightarrow> table_lens M' (bucket_i t) = 0 \<Longrightarrow>
      thread_at t' \<in> {ReadLen, CasLen} \<and> bucket_i t' = bucket_i t"
    and "thread_at t \<in> {ReadPtr, CasPtr} \<Longrightarrow> ptrs M' (bucket_i t) = 0 \<Longrightarrow> add_addr A i \<noteq> 0 \<Longrightarrow>
      thread_at t' \<in> {ReadPtr, CasPtr} \<and> bucket_i t' = bucket_i t"
  using assms by (cases "thread_at t"; auto simp: add_step.simps thread_ok_def Let_def split: if_splits)+

lemma filled_ok_step:
  assumes f: "filled_ok A M T" and i: "i < add_threads A" and pre: "step_pre m A i M (T i)"
    and r: "add_step m A i M (T i) = (M', t')"
  shows "filled_ok A M' (T(i := t'))"
proof -
  have t: "thread_ok m A i M (T i)" and a: "add_addr A i \<noteq> 0"
    using pre by (auto simp: step_pre_def args_ok_def add_addr_def)
  have g: "grows M M'" using add_step_keeps [OF pre] by (simp add: keeps_def r)
  have "waits {ReadLen, CasLen} A (T(i := t')) b" if b: "hashes M' b \<noteq> 0" "table_lens M' b = 0" for b
  proof (cases "waits {ReadLen, CasLen} A T b")
    case True
    then show ?thesis using step_waits(1) [OF r t] b(2) by (auto elim!: waiting_upd)
  next
    case False
    then have "hashes M b = 0" using f growsD(2) [OF g, of b] b(2) unfolding filled_ok_def by auto
    then show ?thesis using step_claims(1) [OF r _ b(1)] i by (auto intro!: waits_new)
  qed
  moreover have "waits {ReadPtr, CasPtr} A (T(i := t')) b" if b: "table_lens M' b \<noteq> 0" "ptrs M' b = 0" for b
  proof (cases "waits {ReadPtr, CasPtr} A T b")
    case True
    then show ?thesis using step_waits(2) [OF r t] b(2) a by (auto elim!: waiting_upd)
  next
    case False
    then have "table_lens M b = 0" using f growsD(3) [OF g, of b] b(2) unfolding filled_ok_def by auto
    then show ?thesis using step_claims(2) [OF r _ b(1)] i by (auto intro!: waits_new)
  qed
  ultimately show ?thesis by (simp add: filled_ok_def)
qed

subsection \<open>The strings that are new\<close>

definition writes :: "add_at \<Rightarrow> bool" where
  "writes a \<longleftrightarrow> a \<in> {Compare, StoreBucket, StoreLen}"

definition added_by :: "add_args \<Rightarrow> add_mem \<Rightarrow> add_thread \<Rightarrow> nat \<Rightarrow> nat \<Rightarrow> bool" where
  "added_by A M t i b \<longleftrightarrow> i < str_num A \<and> in_lens A i \<noteq> 0 \<and> ptrs M b = add_addr A i \<and> table_lens M b = in_lens A i \<and>
     (writes (thread_at t) \<and> our_string t \<and> bucket_i t = b \<or>
      thread_at t = Exit \<and> res_buckets M i = b \<and> new_strings_lens M b = round_len (table_lens M b))"

definition added_ok :: "add_args \<Rightarrow> add_mem \<Rightarrow> add_mem \<Rightarrow> (nat \<Rightarrow> add_thread) \<Rightarrow> bool" where
  "added_ok A M0 M T \<longleftrightarrow>
     (\<forall>b. ptrs M b \<noteq> ptrs M0 b \<longrightarrow> (\<exists>i < add_threads A. added_by A M (T i) i b)) \<and>
     (\<forall>b. new_strings_lens M b \<noteq> 0 \<longrightarrow> ptrs M b \<noteq> ptrs M0 b) \<and>
     (\<forall>i. writes (thread_at (T i)) \<longrightarrow> our_string (T i) \<longrightarrow> ptrs M0 (bucket_i (T i)) = 0)"

lemma writer_len:
  "thread_ok m A i M t \<Longrightarrow> writes (thread_at t) \<Longrightarrow> table_lens M (bucket_i t) = in_lens A i"
  using entry_length [of m M "bucket_i t" "str_key m A i"]
  by (auto simp: writes_def thread_ok_def Let_def)

lemma step_new_lens:
  assumes "add_step m A i M t = (M', t')" and "thread_ok m A i M t" and "new_strings_lens M' b \<noteq> new_strings_lens M b"
  shows "thread_at t = StoreLen \<and> our_string t \<and> bucket_i t = b \<and> ptrs M' b = add_addr A i \<and> 
    ptrs M' b \<noteq> 0 \<and> new_strings_lens M' b = round_len (table_lens M' b)"
  using assms writer_len [OF assms(2)]
  by (cases "thread_at t"; auto simp: add_step.simps thread_ok_def Let_def writes_def entry_Some split: if_splits)

lemma step_writes:
  assumes "add_step m A i M t = (M', t')" and "thread_ok m A i M t"
  shows "writes (thread_at t') \<Longrightarrow> our_string t' \<Longrightarrow>
      writes (thread_at t) \<and> our_string t \<and> bucket_i t' = bucket_i t \<or> 
      thread_at t = CasPtr \<and> bucket_i t' = bucket_i t \<and> ptrs M (bucket_i t) = 0"
    and "added_by A M t i b \<Longrightarrow> grows M M' \<Longrightarrow> ptrs M b \<noteq> 0 \<Longrightarrow> added_by A M' t' i b"
  using assms writer_len [OF assms(2)]
  by (cases "thread_at t";
      auto simp: add_step.simps thread_ok_def Let_def writes_def added_by_def str_key_def
        compare_loop_eq split: if_splits)+

lemma added_by_other:
  assumes "added_by A M t j b" and "grows M M'" and "ptrs M b \<noteq> 0" and "res_buckets M' j = res_buckets M j"
    and "new_strings_lens M' b = new_strings_lens M b \<or> new_strings_lens M' b = round_len (table_lens M' b)"
  shows "added_by A M' t j b"
  using assms growsD [OF assms(2), of b] by (auto simp: added_by_def)

lemma added_by_exists:
  assumes ad: "added_ok A M0 M T" and i: "i < add_threads A" and pre: "step_pre m A i M (T i)"
    and g0: "grows M0 M" and r: "add_step m A i M (T i) = (M', t')" and p: "ptrs M' b \<noteq> ptrs M0 b"
  shows "\<exists>j < add_threads A. added_by A M' ((T(i := t')) j) j b"
proof (cases "ptrs M b = ptrs M0 b")
  case True
  have k: "grows M M'" "thread_ok m A i M' t'" using add_step_keeps [OF pre] by (simp_all add: keeps_def r)
  have "ptrs M b = 0" using growsD(3) [OF k(1), of b] True p by (cases "ptrs M b = 0") simp_all
  moreover from this have "ptrs M' b \<noteq> 0" using True p by simp
  ultimately have "thread_at t' = Compare \<and> bucket_i t' = b \<and> our_string t' \<and> ptrs M' b = add_addr A i"
    using step_claims(3) [OF r] by blast
  then have c: "thread_at t' = Compare" "bucket_i t' = b" "our_string t'"
    "ptrs M' b = add_addr A i" by simp_all
  have "i < str_num A" "in_lens A i \<noteq> 0" "writes (thread_at t')" "table_lens M' b = in_lens A i"
    using k(2) c(1,2) by (simp_all add: thread_ok_def Let_def writes_def)
  with c have "added_by A M' t' i b" by (simp add: added_by_def)
  then show ?thesis using i by (intro exI [of _ i]) simp
next
  case False
  have g: "grows M M'" and t: "thread_ok m A i M (T i)"
    and rb: "\<forall>j. j \<noteq> i \<longrightarrow> res_buckets M' j = res_buckets M j"
    using add_step_keeps [OF pre] pre by (simp_all add: keeps_def step_pre_def r)
  have nz: "ptrs M b \<noteq> 0" using growsD(3) [OF g0, of b] False by (cases "ptrs M0 b = 0") auto
  obtain j where j: "j < add_threads A" "added_by A M (T j) j b"
    using ad False unfolding added_ok_def by blast
  have "added_by A M' ((T(i := t')) j) j b"
  proof (cases "j = i")
    case True
    then show ?thesis using step_writes(2) [OF r t _ g nz] j(2) by simp
  next
    case False
    have "new_strings_lens M' b = new_strings_lens M b \<or> new_strings_lens M' b = round_len (table_lens M' b)"
      using step_new_lens [OF r t, of b] by argo
    with False show ?thesis using added_by_other [OF j(2) g nz] rb by simp
  qed
  with j(1) show ?thesis by blast
qed

lemma added_ok_step:
  assumes ad: "added_ok A M0 M T" and i: "i < add_threads A" and pre: "step_pre m A i M (T i)"
    and g0: "grows M0 M" and r: "add_step m A i M (T i) = (M', t')"
  shows "added_ok A M0 M' (T(i := t'))"
  unfolding added_ok_def
proof (intro conjI allI impI)
  have g: "grows M M'" and t: "thread_ok m A i M (T i)"
    using add_step_keeps [OF pre] pre by (simp_all add: keeps_def step_pre_def r)
  have our: "writes (thread_at (T j)) \<Longrightarrow> our_string (T j) \<Longrightarrow> ptrs M0 (bucket_i (T j)) = 0" for j
    using ad unfolding added_ok_def by auto
  show "\<exists>j < add_threads A. added_by A M' ((T(i := t')) j) j b" if "ptrs M' b \<noteq> ptrs M0 b" for b
    by (rule added_by_exists [OF assms that])
  show "ptrs M' b \<noteq> ptrs M0 b" if b: "new_strings_lens M' b \<noteq> 0" for b
  proof (cases "new_strings_lens M' b = new_strings_lens M b")
    case True
    then have "ptrs M b \<noteq> ptrs M0 b" using ad b unfolding added_ok_def by auto
    then show ?thesis using growsD(3) [OF g0, of b] growsD(3) [OF g, of b]
      by (cases "ptrs M0 b = 0"; cases "ptrs M b = 0") auto
  next
    case False
    then show ?thesis using step_new_lens [OF r t, of b] our [of i] by (auto simp: writes_def)
  qed
  show "ptrs M0 (bucket_i ((T(i := t')) j)) = 0"
    if "writes (thread_at ((T(i := t')) j))" "our_string ((T(i := t')) j)" for j
    using that step_writes(1) [OF r t] our growsD(3) [OF g0] by (cases "j = i") fastforce+
qed

subsection \<open>The flag of a full table\<close>

definition full_ok :: "memory \<Rightarrow> add_args \<Rightarrow> add_mem \<Rightarrow> add_mem \<Rightarrow> bool" where
  "full_ok m A M0 M \<longleftrightarrow> table_is_full M \<longrightarrow> table_is_full M0 \<or>
     (\<exists>i < str_num A. in_lens A i \<noteq> 0 \<and> exhausted m A M (str_key m A i))"

lemma full_ok_step:
  assumes f: "full_ok m A M0 M" and pre: "step_pre m A i M t" and r: "add_step m A i M t = (M', t')"
  shows "full_ok m A M0 M'"
proof -
  have g: "grows M M'" and k: "thread_ok m A i M' t'" and ok: "tab_ok m A M" "tab_ok m A M'" and t: "thread_ok m A i M t"
    using add_step_keeps [OF pre] pre by (simp_all add: keeps_def step_pre_def r)
  show ?thesis
  proof (cases "table_is_full M' = table_is_full M")
    case True
    then show ?thesis using f exhausted_stable [OF g ok(1)] unfolding full_ok_def by auto
  next
    case False
    then have n: "thread_at t = Next" "thread_at t' = Exit" "M' = M\<lparr>table_is_full := True\<rparr>" 
        "(bucket_i t + 1) mod 2 ^ 32 mod buckets_num A = unat (hash_of A (str_key m A i)) mod buckets_num A"
      using r by (cases "thread_at t"; auto simp: add_step.simps Let_def add_hash_eq split: if_splits)+
    have tt: "i < str_num A" "in_lens A i \<noteq> 0" "reached m A M (str_key m A i) (bucket_i t)"
      "rejects m A M (str_key m A i) (bucket_i t)"
      using t n(1) by (simp_all add: thread_ok_def Let_def)
    have "exhausted m A M (str_key m A i)"
      using next_bucket [OF _ tt(3,4)] pre unfolding if_P [OF n(4)] by (simp add: step_pre_def)
    then have "exhausted m A M' (str_key m A i)" by (rule exhausted_stable [OF g ok(1)])
    then show ?thesis using tt(1,2) unfolding full_ok_def by blast
  qed
qed

subsection \<open>All invariants\<close>

definition run_ok :: "memory \<Rightarrow> add_args \<Rightarrow> add_mem \<Rightarrow> add_state \<Rightarrow> bool" where
  "run_ok m A M0 S \<longleftrightarrow> base_ok m A M0 S \<and> filled_ok A (fst S) (snd S) \<and>
     added_ok A M0 (fst S) (snd S) \<and> full_ok m A M0 (fst S)"

lemma run_ok_turn:
  assumes "run_ok m A M0 S"
  shows "run_ok m A M0 (add_turn m A i S)"
proof (cases "i < add_threads A")
  case i: True
  obtain M T where S: "S = (M, T)" by (cases S)
  obtain M' t' where r: "add_step m A i M (T i) = (M', t')" by (cases "add_step m A i M (T i)")
  have b: "base_ok m A M0 S" and o: "filled_ok A M T" "added_ok A M0 M T" "full_ok m A M0 M"
    using assms by (simp_all add: run_ok_def S)
  have pre: "step_pre m A i M (T i)" and g: "grows M0 M" using b by (simp_all add: base_ok_def step_pre_def S)
  have tr: "add_turn m A i S = (M', T(i := t'))" using i by (simp add: add_turn_def S r Let_def)
  show ?thesis
    using base_ok_turn [OF b, of i] filled_ok_step [OF o(1) i pre r] added_ok_step [OF o(2) i pre g r]
      full_ok_step [OF o(3) pre r]
    unfolding run_ok_def tr by simp
qed (use assms in \<open>simp add: add_turn_def\<close>)

lemma run_ok_fold: "run_ok m A M0 S \<Longrightarrow> run_ok m A M0 (fold (add_turn m A) sched S)"
  by (induction sched arbitrary: S) (simp_all add: run_ok_turn)

definition complete :: "add_mem \<Rightarrow> bool" where
  "complete M \<longleftrightarrow> (\<forall>b. hashes M b \<noteq> 0 \<longrightarrow> ptrs M b \<noteq> 0)"

lemma run_ok_init:
  assumes "args_ok A" and "tab_ok m A M" and "complete M" and "\<forall>b. new_strings_lens M b = 0"
  shows "run_ok m A M (M, \<lambda>_. thread_init)"
proof -
  have "ptrs M b \<noteq> 0 \<and> table_lens M b \<noteq> 0" if "hashes M b \<noteq> 0" for b
  proof
    show "ptrs M b \<noteq> 0" using that assms(3) by (simp add: complete_def)
    then show "table_lens M b \<noteq> 0" by (rule contrapos_nn) (rule tab_okD(2) [OF assms(2)])
  qed
  moreover have "table_lens M b = 0" if "hashes M b = 0" for b by (rule tab_okD(1) [OF assms(2) that])
  ultimately have "filled_ok A M (\<lambda>_. thread_init)" unfolding filled_ok_def by metis
  moreover have "thread_ok m A i M thread_init" for i by (simp add: thread_ok_def thread_init_def Let_def)
  moreover have "added_ok A M M (\<lambda>_. thread_init)" using assms(4) by (simp add: added_ok_def thread_init_def writes_def)
  moreover have "full_ok m A M M" by (simp add: full_ok_def)
  ultimately show ?thesis using assms(1,2) by (simp add: run_ok_def base_ok_def)
qed

lemma kerAddData_ok:
  assumes "args_ok A" and "tab_ok m A M" and "complete M" and "\<forall>b. new_strings_lens M b = 0"
  shows "run_ok m A M (kerAddData m A sched M)"
  unfolding kerAddData_def by (intro run_ok_fold run_ok_init assms)

end
