(* ===== verification/Strings_Table_End.thy ===== *)
theory Strings_Table_End
  imports Strings_Table_Inv
begin

text \<open>
  What holds when all threads of the insertion kernel have returned, and that they do return: a thread
  performs at most nine shared accesses per bucket it visits and visits every bucket at most once.
\<close>

section \<open>The threads return\<close>

definition dist :: "add_args \<Rightarrow> 8 word list \<Rightarrow> nat \<Rightarrow> nat" where
  "dist A s b = (b + (buckets_num A - unat (hash_of A s) mod buckets_num A)) mod buckets_num A"

lemma mod_sub_hit:
  fixes h d n :: nat
  assumes "d < n"
  shows "((h + d) mod n + (n - h mod n)) mod n = d"
proof -
  have n: "0 < n" using assms by simp
  have "((h + d) mod n + (n - h mod n)) mod n = (h mod n + (d + (n - h mod n))) mod n"
    by (simp only: mod_add_left_eq add.assoc)
  also have "h mod n + (d + (n - h mod n)) = d + n"
    using mod_less_divisor [OF n, of h] by linarith
  also have "(d + n) mod n = d" using assms by simp
  finally show ?thesis .
qed

lemma dist_probe: "d < buckets_num A \<Longrightarrow> dist A s (probe A s d) = d"
  unfolding dist_def probe_def by (rule mod_sub_hit)

definition steps_left :: "memory \<Rightarrow> add_args \<Rightarrow> nat \<Rightarrow> add_thread \<Rightarrow> nat" where
  "steps_left m A i t =
     (let r = 9 * (buckets_num A - dist A (str_key m A i) (bucket_i t)) in
      case thread_at t of
        Start \<Rightarrow> 9 * buckets_num A + 1 | ReadHash \<Rightarrow> r | CasHash \<Rightarrow> r - 1 | ReadLen \<Rightarrow> r - 2
      | CasLen \<Rightarrow> r - 3 | ReadPtr \<Rightarrow> r - 4 | CasPtr \<Rightarrow> r - 5 | Compare \<Rightarrow> r - 6 | StoreBucket \<Rightarrow> r - 7
      | Next \<Rightarrow> r - 8 | StoreLen \<Rightarrow> 1 | Exit \<Rightarrow> 0)"

lemma reached_dist: "reached m A M s b \<Longrightarrow> dist A s b < buckets_num A"
  by (auto simp: reached_def dist_probe)

lemma next_dist:
  assumes "args_ok A" and "reached m A M s b"
    and "(b + 1) mod 2 ^ 32 mod buckets_num A \<noteq> unat (hash_of A s) mod buckets_num A"
  shows "dist A s ((b + 1) mod 2 ^ 32 mod buckets_num A) = Suc (dist A s b)"
proof -
  obtain d where d: "d < buckets_num A" "b = probe A s d" using assms(2) unfolding reached_def by blast
  have b': "(b + 1) mod 2 ^ 32 mod buckets_num A = probe A s (Suc d)"
    unfolding d(2) by (rule probe_Suc) (use assms(1) d(1) in \<open>simp_all add: args_ok_def\<close>)
  have "probe A s (Suc d) \<noteq> probe A s 0" using assms(3) unfolding b' by (simp add: probe_def)
  then have "Suc d < buckets_num A" using probe_wrap [OF d(1), of s] d(1) by simp
  then show ?thesis unfolding b' unfolding d(2) using d(1) by (simp add: dist_probe)
qed

lemma steps_left_step:
  assumes "step_pre m A i M t" and "thread_at t \<noteq> Exit"
  shows "steps_left m A i (snd (add_step m A i M t)) < steps_left m A i t"
proof (cases "thread_at t")
  case Start
  then show ?thesis 
    by (auto simp: add_step.simps Let_def steps_left_def less_Suc_eq_le)
next
  case Next
  let ?s = "str_key m A i" and ?b = "bucket_i t"
  have r: "reached m A M ?s ?b" and A: "args_ok A" using assms Next by (simp_all add: step_pre_def thread_ok_def Let_def)
  have d: "dist A ?s ?b < buckets_num A" by (rule reached_dist [OF r])
  show ?thesis
  proof (cases "(?b + 1) mod 2 ^ 32 mod buckets_num A = unat (hash_of A ?s) mod buckets_num A")
    case True
    then show ?thesis using Next d unfolding add_step.simps by (simp add: Let_def add_hash_eq steps_left_def)
  next
    case False
    from next_dist [OF A r this] False
    show ?thesis using Next d unfolding add_step.simps by (simp add: Let_def add_hash_eq steps_left_def)
  qed
qed (use assms reached_dist [of m A M "str_key m A i" "bucket_i t"] in
      \<open>auto simp: add_step.simps Let_def steps_left_def step_pre_def thread_ok_def\<close>)

lemma steps_left_zero:
  assumes "thread_ok m A i M t" and "steps_left m A i t = 0"
  shows "thread_at t = Exit"
  using assms reached_dist [of m A M "str_key m A i" "bucket_i t"]
  by (cases "thread_at t") (auto simp: thread_ok_def steps_left_def Let_def)

lemma steps_left_turn:
  assumes b: "base_ok m A M0 S" and "i < add_threads A"
  shows "steps_left m A i (snd (add_turn m A j S) i) \<le>
    steps_left m A i (snd S i) - (if j = i then 1 else 0)"
proof (cases "j = i")
  case True
  have pre: "step_pre m A i (fst S) (snd S i)" using b by (simp add: base_ok_def step_pre_def)
  show ?thesis
  proof (cases "thread_at (snd S i) = Exit")
    case E: True
    then have "snd (add_step m A i (fst S) (snd S i)) = snd S i" by (simp add: add_step.simps Let_def)
    then show ?thesis using assms True E by (simp add: add_turn_def Let_def steps_left_def)
  next
    case False
    then show ?thesis using steps_left_step [OF pre False] assms True by (simp add: add_turn_def Let_def)
  qed
qed (simp add: add_turn_def Let_def)

lemma steps_left_run:
  assumes "base_ok m A M0 S" and "i < add_threads A"
  shows "steps_left m A i (snd (fold (add_turn m A) sched S) i) \<le>
    steps_left m A i (snd S i) - count_list sched i"
  using assms(1)
proof (induction sched arbitrary: S)
  case (Cons j sched)
  have "steps_left m A i (snd (fold (add_turn m A) sched (add_turn m A j S)) i) \<le>
    steps_left m A i (snd (add_turn m A j S) i) - count_list sched i"
    by (rule Cons.IH) (rule base_ok_turn [OF Cons.prems])
  then show ?case using steps_left_turn [OF Cons.prems assms(2), of j] by (cases "j = i") auto
qed simp

lemma kerAddData_exits:
  assumes "args_ok A" and "tab_ok m A M" and "complete M" and "\<forall>b. new_strings_lens M b = 0"
    and s: "\<forall>i < add_threads A. 9 * buckets_num A + 1 \<le> count_list sched i"
  shows "all_exited A (kerAddData m A sched M)"
  unfolding all_exited_def
proof (intro allI impI)
  fix i assume i: "i < add_threads A"
  let ?S = "kerAddData m A sched M"
  have b: "base_ok m A M (M, \<lambda>_. thread_init)" "base_ok m A M ?S"
    using run_ok_init [OF assms(1-4)] kerAddData_ok [OF assms(1-4)] by (auto simp: run_ok_def)
  have i0: "steps_left m A i thread_init = 9 * buckets_num A + 1" by (simp add: steps_left_def thread_init_def Let_def)
  have "steps_left m A i (snd ?S i) \<le> 9 * buckets_num A + 1 - count_list sched i"
    using steps_left_run [OF b(1) i, of sched] by (simp add: kerAddData_def i0)
  then have "steps_left m A i (snd ?S i) = 0" using s i by auto
  moreover have "thread_ok m A i (fst ?S) (snd ?S i)" using b(2) by (simp add: base_ok_def)
  ultimately show "thread_at (snd ?S i) = Exit" by (intro steps_left_zero)
qed

section \<open>The table after the kernel\<close>

definition str_keys :: "memory \<Rightarrow> add_args \<Rightarrow> 8 word list set" where
  "str_keys m A = {str_key m A i | i. i < str_num A \<and> in_lens A i \<noteq> 0}"

definition entries :: "memory \<Rightarrow> add_mem \<Rightarrow> 8 word list set" where
  "entries m M = {s. \<exists>b. entry m M b = Some s}"

lemma add_threads_ge: "i < str_num A \<Longrightarrow> i < add_threads A"
  unfolding add_threads_def by (simp add: algebra_simps)

lemma exited_complete:
  assumes r: "run_ok m A M0 S" and e: "all_exited A S"
  shows "complete (fst S)"
proof -
  have w: "\<not> waits {ReadLen, CasLen} A (snd S) b" "\<not> waits {ReadPtr, CasPtr} A (snd S) b" for b
    using e by (auto simp: waits_def all_exited_def)
  have "filled_ok A (fst S) (snd S)" using r by (simp add: run_ok_def)
  then show ?thesis using w unfolding filled_ok_def complete_def by blast
qed

lemma exited_result:
  assumes r: "run_ok m A M0 S" and e: "all_exited A S" and f: "\<not> table_is_full (fst S)"
    and i: "i < str_num A" "in_lens A i \<noteq> 0"
  shows "entry m (fst S) (res_buckets (fst S) i) = Some (str_key m A i)"
proof -
  have "thread_at (snd S i) = Exit" using e add_threads_ge [OF i(1)] by (simp add: all_exited_def)
  moreover have "thread_ok m A i (fst S) (snd S i)" using r by (simp add: run_ok_def base_ok_def)
  ultimately show ?thesis using i f by (simp add: thread_ok_def Let_def)
qed

lemma exited_added:
  assumes r: "run_ok m A M0 S" and e: "all_exited A S" and p: "ptrs (fst S) b \<noteq> ptrs M0 b"
  obtains i where "i < str_num A" "in_lens A i \<noteq> 0" "ptrs (fst S) b = add_addr A i"
    "table_lens (fst S) b = in_lens A i" "res_buckets (fst S) i = b"
    "new_strings_lens (fst S) b = round_len (table_lens (fst S) b)"
proof -
  obtain i where i: "i < add_threads A" "added_by A (fst S) (snd S i) i b"
    using r p unfolding run_ok_def added_ok_def by blast
  moreover have "thread_at (snd S i) = Exit" using e i(1) by (simp add: all_exited_def)
  ultimately show ?thesis using that by (auto simp: added_by_def writes_def)
qed

lemma exited_new_lens:
  assumes r: "run_ok m A M0 S" and e: "all_exited A S"
  shows "new_strings_lens (fst S) b =
    (if ptrs (fst S) b \<noteq> ptrs M0 b then round_len (table_lens (fst S) b) else 0)"
proof (cases "ptrs (fst S) b = ptrs M0 b")
  case True
  moreover have "new_strings_lens (fst S) b \<noteq> 0 \<longrightarrow> ptrs (fst S) b \<noteq> ptrs M0 b"
    using r unfolding run_ok_def added_ok_def by blast
  ultimately show ?thesis by simp
next
  case False
  then have "new_strings_lens (fst S) b = round_len (table_lens (fst S) b)" by (rule exited_added [OF r e])
  with False show ?thesis by simp
qed

lemma exited_entries:
  assumes r: "run_ok m A M0 S" and e: "all_exited A S" and ok: "tab_ok m A M0"
  shows "entries m M0 \<subseteq> entries m (fst S)" and "entries m (fst S) \<subseteq> entries m M0 \<union> str_keys m A"
proof -
  have g: "grows M0 (fst S)" using r by (simp add: run_ok_def base_ok_def)
  show "entries m M0 \<subseteq> entries m (fst S)"
    using entry_stable [OF g ok] by (auto simp: entries_def)
  show "entries m (fst S) \<subseteq> entries m M0 \<union> str_keys m A"
  proof
    fix s assume "s \<in> entries m (fst S)"
    then obtain b where b: "entry m (fst S) b = Some s" by (auto simp: entries_def)
    show "s \<in> entries m M0 \<union> str_keys m A"
    proof (cases "ptrs (fst S) b = ptrs M0 b")
      case True
      have "ptrs M0 b \<noteq> 0" using b True by (simp add: entry_Some)
      then obtain s' where s': "entry m M0 b = Some s'" by (simp add: entry_def)
      then show ?thesis using entry_stable [OF g ok s'] b by (auto simp: entries_def)
    next
      case False
      then obtain i where "i < str_num A" "in_lens A i \<noteq> 0" "ptrs (fst S) b = add_addr A i"
        "table_lens (fst S) b = in_lens A i" by (rule exited_added [OF r e])
      then show ?thesis using b by (auto simp: entry_Some str_keys_def str_key_def)
    qed
  qed
qed

lemma card_entries:
  assumes ok: "tab_ok m A M"
  shows "finite (entries m M)" and "card (entries m M) \<le> buckets_num A"
    and "\<lbrakk>\<And>b. b < buckets_num A \<Longrightarrow> entry m M b \<noteq> None\<rbrakk> \<Longrightarrow> card (entries m M) = buckets_num A"
proof -
  let ?B = "{b. b < buckets_num A \<and> entry m M b \<noteq> None}"
  have im: "entries m M = (\<lambda>b. the (entry m M b)) ` ?B"
  proof (intro set_eqI iffI)
    fix s assume "s \<in> entries m M"
    then obtain b where b: "entry m M b = Some s" by (auto simp: entries_def)
    then show "s \<in> (\<lambda>b. the (entry m M b)) ` ?B"
      using entry_bound [OF ok b] by (intro image_eqI [of _ _ b]) simp_all
  qed (auto simp: entries_def)
  have inj: "inj_on (\<lambda>b. the (entry m M b)) ?B"
  proof (rule inj_onI)
    fix b c assume "b \<in> ?B" "c \<in> ?B" "the (entry m M b) = the (entry m M c)"
    then obtain s where "entry m M b = Some s" "entry m M c = Some s" by auto
    then show "b = c" by (rule entry_unique [OF ok])
  qed
  have B: "finite ?B" "card ?B \<le> buckets_num A"
    using card_mono [of "{..<buckets_num A}" ?B] by auto
  show "finite (entries m M)" unfolding im using B by simp
  have c: "card (entries m M) = card ?B" unfolding im by (rule card_image [OF inj])
  then show "card (entries m M) \<le> buckets_num A" using B by simp
  assume "\<And>b. b < buckets_num A \<Longrightarrow> entry m M b \<noteq> None"
  then have "?B = {..<buckets_num A}" by auto
  then show "card (entries m M) = buckets_num A" using c by simp
qed

lemma finite_str_keys: "finite (str_keys m A)"
proof -
  have "str_keys m A \<subseteq> str_key m A ` {..<str_num A}" by (auto simp: str_keys_def)
  then show ?thesis by (rule finite_subset) simp
qed

lemma exited_full_iff:
  assumes r: "run_ok m A M0 S" and e: "all_exited A S" and ok: "tab_ok m A M0" and f: "\<not> table_is_full M0"
  shows "table_is_full (fst S) \<longleftrightarrow> buckets_num A < card (entries m M0 \<union> str_keys m A)"
proof
  let ?M = "fst S"
  have ok': "tab_ok m A ?M" using r by (simp add: run_ok_def base_ok_def)
  have fin: "finite (entries m M0 \<union> str_keys m A)" using card_entries(1) [OF ok] finite_str_keys by simp
  {
    assume "table_is_full ?M"
    then obtain i where i: "i < str_num A" "in_lens A i \<noteq> 0" "exhausted m A ?M (str_key m A i)"
      using r f unfolding run_ok_def full_ok_def by blast
    have "entry m ?M b \<noteq> None" if lt: "b < buckets_num A" for b
    proof -
      obtain d where d: "d < buckets_num A" "probe A (str_key m A i) d = b" by (rule probe_surj [OF lt])
      then have "hashes ?M b \<noteq> 0" using i(3) by (auto simp: exhausted_def rejects_def)
      then show ?thesis using exited_complete [OF r e] by (simp add: complete_def entry_def)
    qed
    then have c: "card (entries m ?M) = buckets_num A" by (rule card_entries(3) [OF ok'])
    have "str_key m A i \<notin> entries m ?M" using exhausted_not_entry [OF ok' i(3)] by (simp add: entries_def)
    then have "card (insert (str_key m A i) (entries m ?M)) = Suc (buckets_num A)"
      using card_entries(1) [OF ok'] c by simp
    moreover have "str_key m A i \<in> str_keys m A" using i(1,2) unfolding str_keys_def by blast
    then have "insert (str_key m A i) (entries m ?M) \<subseteq> entries m M0 \<union> str_keys m A"
      using exited_entries(2) [OF r e ok] by blast
    ultimately show "buckets_num A < card (entries m M0 \<union> str_keys m A)"
      using card_mono [OF fin, of "insert (str_key m A i) (entries m ?M)"] by simp
  }
  assume c: "buckets_num A < card (entries m M0 \<union> str_keys m A)"
  show "table_is_full ?M"
  proof (rule ccontr)
    assume nf: "\<not> table_is_full ?M"
    have "str_keys m A \<subseteq> entries m ?M"
      using exited_result [OF r e nf] unfolding str_keys_def entries_def by blast
    then have "entries m M0 \<union> str_keys m A \<subseteq> entries m ?M" using exited_entries(1) [OF r e ok] by simp
    then have "card (entries m M0 \<union> str_keys m A) \<le> buckets_num A"
      using card_mono [OF card_entries(1) [OF ok']] card_entries(2) [OF ok'] le_trans by blast
    with c show False by simp
  qed
qed

end
