(* ===== verification/Strings_Copy.thy ===== *)
theory Strings_Copy
  imports Strings_Table
begin

text \<open>
  Copying a string into the buffer of the table eight bytes at a time
  (the loop of \<^verbatim>\<open>kerCopyAddedStrings\<close>).  The last word is padded with zero bytes.
\<close>

unbundle bit_operations_syntax

definition store64 :: "memory \<Rightarrow> nat \<Rightarrow> u64 \<Rightarrow> memory" where
  "store64 m a w = st64 m a (unat w)"

function copy_loop :: "memory \<Rightarrow> nat \<Rightarrow> nat \<Rightarrow> bool \<Rightarrow> u64 \<Rightarrow> nat \<Rightarrow> memory" where
  "copy_loop m data e is_first_read tmp_buf data_res =
     (if data \<noteq> e then
        (let r = cudaReadStringUnaligned64 m is_first_read tmp_buf data e
         in copy_loop (store64 m data_res (fst r)) (snd (snd r)) e False (fst (snd r)) (data_res + 8))
      else m)"
  by pat_completeness auto
termination
  by (relation "measure (\<lambda>(m, data, e, _). if data = e then 0 else Suc (e - data))")
    (auto simp: cudaReadStringUnaligned64_def Let_def)

declare copy_loop.simps [simp del]

definition pad8 :: "nat \<Rightarrow> nat" where
  "pad8 len = (len + 7) div 8 * 8"

definition copied :: "memory \<Rightarrow> nat \<Rightarrow> nat \<Rightarrow> nat \<Rightarrow> memory" where
  "copied m s len d = (\<lambda>x. if d \<le> x \<and> x < d + pad8 len then (if x - d < len then m (s + (x - d)) else 0) else m x)"

lemma byte_of_store:
  "(word_of_nat (unat (w :: u64) div 256 ^ i) :: 8 word) = ucast (drop_bit (8 * i) w)"
proof -
  have "(256 :: nat) ^ i = 2 ^ (8 * i)" by (simp add: power_mult)
  then have "unat w div 256 ^ i = unat (drop_bit (8 * i) w)"
    by (simp only: drop_bit_eq_div [symmetric] unat_drop_bit_eq)
  then show ?thesis by simp
qed

lemma store64_load_bytes:
  assumes "k \<le> 8" and "i < 8"
  shows "store64 m d (load_bytes m' s k) (d + i) = (if i < k then m' (s + i) else 0)"
proof (rule bit_word_eqI)
  fix j assume j: "j < LENGTH(8)"
  have 1: "(8 * i + j) div 8 = i" "(8 * i + j) mod 8 = j" using j by simp_all
  have 2: "8 * i + j < 64" using assms(2) j by simp
  have 3: "8 * i + j < 8 * k \<longleftrightarrow> i < k" using j by (simp; linarith)
  have "store64 m d (load_bytes m' s k) (d + i) = ucast (drop_bit (8 * i) (load_bytes m' s k))"
    using assms(2) by (simp add: store64_def st64_def byte_of_store)
  then show "bit (store64 m d (load_bytes m' s k) (d + i)) j = bit (if i < k then m' (s + i) else 0) j"
    using j 1 2 3 by (simp add: bit_ucast_iff bit_drop_bit_eq bit_load_bytes)
qed

lemma store64_eq:
  assumes "k \<le> 8"
  shows "store64 m d (load_bytes m s k) x =
    (if d \<le> x \<and> x < d + 8 then (if x - d < k then m (s + (x - d)) else 0) else m x)"
proof (cases "d \<le> x \<and> x < d + 8")
  case True
  then obtain i where "x = d + i" "i < 8" using le_Suc_ex by fastforce
  then show ?thesis using store64_load_bytes [OF assms, of i m d m s] by simp
next
  case False
  then show ?thesis by (auto simp: store64_def st64_def)
qed

lemma pad8_step: "8 < len \<Longrightarrow> pad8 len = 8 + pad8 (len - 8)"
  unfolding pad8_def by (cases "len - 8") (auto simp: le_div_geq)

lemma pad8_short: "0 < len \<Longrightarrow> len \<le> 8 \<Longrightarrow> pad8 len = 8"
proof -
  assume "0 < len" "len \<le> 8"
  then have "(len + 7) div 8 = 1" by (intro div_nat_eqI) auto
  then show ?thesis by (simp add: pad8_def)
qed

lemma pad8_0 [simp]: "pad8 0 = 0"
  by (simp add: pad8_def)

lemma pad8_ge: "len \<le> pad8 len"
  by (simp add: pad8_def) 

lemma load64_cong:
  "(\<And>i. i < 8 \<Longrightarrow> m (a + i) = m' (a + i)) \<Longrightarrow> load64 m a = load64 m' a"
  unfolding load64_def by (rule arg_cong [where f = word_of_nat], rule ld_bytes_cong)

lemma align8_mono: "p \<le> q \<Longrightarrow> align8 p \<le> align8 q"
  unfolding align8_def minus_mod_eq_div_mult by (simp add: div_le_mono)

lemma copy_loop_eq:
  assumes "s \<le> e" and "first \<or> s = e \<or> tmp = load64 m (align8 s)"
    and "align8 (e - 1) + 8 \<le> d \<or> d + pad8 (e - s) \<le> align8 s"
  shows "copy_loop m s e first tmp d = copied m s (e - s) d"
  using assms
proof (induction "e - s" arbitrary: m s first tmp d rule: less_induct)
  case less
  show ?case
  proof (cases "s = e")
    case True
    then show ?thesis by (auto simp: copy_loop.simps copied_def fun_eq_iff)
  next
    case False
    then have lt: "s < e" using less.prems by simp
    define k where "k = min 8 (e - s)"
    have k: "min 8 (e - s) = k" "0 < k" "k \<le> 8" "k \<le> e - s" using lt by (auto simp: k_def)
    obtain w where r: "cudaReadStringUnaligned64 m first tmp s e = (load_bytes m s k, w, s + k)"
      and w: "s + k = e \<or> w = load64 m (align8 (s + k))"
      using read_next [OF lt less.prems(2)] unfolding k by metis
    define m' where "m' = store64 m d (load_bytes m s k)"
    have pad: "pad8 (e - s) = 8 + pad8 (e - (s + k))"
      using pad8_step [of "e - s"] pad8_short [of "e - s"] lt by (cases "8 < e - s") (auto simp: k_def)
    have m': "m' x = (if d \<le> x \<and> x < d + 8 then (if x - d < k then m (s + (x - d)) else 0) else m x)" for x
      unfolding m'_def by (rule store64_eq [OF k(3)])
    have al: "align8 s \<le> s" "e - 1 < align8 (e - 1) + 8" "align8 s \<le> align8 (s + k)"
      "s + k < e \<Longrightarrow> align8 (s + k) \<le> align8 (e - 1)"
      using align8_mono [of s "s + k"] align8_mono [of "s + k" "e - 1"] by (auto simp: align8_def)
    have src: "m' x = m x" if "align8 s \<le> x" "x < align8 (e - 1) + 8" for x
      using m' [of x] that less.prems(3) pad by auto
    have IH: "copy_loop m' (s + k) e False w (d + 8) = copied m' (s + k) (e - (s + k)) (d + 8)"
    proof (rule less.hyps)
      show "False \<or> s + k = e \<or> w = load64 m' (align8 (s + k))"
      proof (cases "s + k = e")
        case False
        then have "align8 (s + k) \<le> align8 (e - 1)" using al(4) k(4) lt by linarith
        then have "load64 m' (align8 (s + k)) = load64 m (align8 (s + k))"
          using al(3) by (intro load64_cong src) linarith+
        with w show ?thesis by simp
      qed simp
      show "align8 (e - 1) + 8 \<le> d + 8 \<or> d + 8 + pad8 (e - (s + k)) \<le> align8 (s + k)"
        using less.prems(3) pad al(3) by linarith
    qed (use k lt in auto)
    have "copied m' (s + k) (e - (s + k)) (d + 8) x = copied m s (e - s) d x" for x
    proof (cases "d + 8 \<le> x \<and> x < d + 8 + pad8 (e - (s + k))")
      case True
      then have "k = 8" using pad8_0 by (cases "8 < e - s") (auto simp: k_def)
      have i: "x - (d + 8) < e - (s + k) \<longleftrightarrow> x - d < e - s" "s + k + (x - (d + 8)) = s + (x - d)"
        "d \<le> x \<and> x < d + pad8 (e - s)"
        using True \<open>k = 8\<close> k(4) pad by linarith+
      have "m' (s + (x - d)) = m (s + (x - d))" if "x - d < e - s"
        using that al(1,2) by (intro src) linarith+
      then show ?thesis unfolding copied_def if_P [OF True] if_P [OF i(3)] i(1,2) by simp
    next
      case False
      then have i: "d \<le> x \<and> x < d + pad8 (e - s) \<longleftrightarrow> d \<le> x \<and> x < d + 8" using pad by linarith
      have "x - d < k \<longleftrightarrow> x - d < e - s" if "d \<le> x \<and> x < d + 8" using that by (auto simp: k_def)
      then show ?thesis unfolding copied_def if_not_P [OF False] i m' by simp
    qed
    then have "copied m' (s + k) (e - (s + k)) (d + 8) = copied m s (e - s) d" ..
    then show ?thesis
      unfolding copy_loop.simps [of m s] r Let_def fst_conv snd_conv if_P [OF False] m'_def [symmetric] IH .
  qed
qed

end
