(* ===== verification/Strings_Add.thy ===== *)
theory Strings_Add
  imports Strings_Table_End Strings_Copy Cuda_Launch
begin

text \<open>
  The operations of the strings table on the device (\<^verbatim>\<open>CudaStringsHashTable.h\<close>,
  \<^verbatim>\<open>CudaStringsHashTable.cu\<close>): construction, \<^verbatim>\<open>erase\<close>, \<^verbatim>\<open>addData\<close>, \<^verbatim>\<open>calcOffsets\<close> and
  \<^verbatim>\<open>mergeToOtherTable\<close>.  The prefix sum of \<^verbatim>\<open>cub\<close> is a parameter.
\<close>

section \<open>Kernels\<close>

type_synonym table_arrays = "(nat \<Rightarrow> u64) \<times> (nat \<Rightarrow> nat) \<times> (nat \<Rightarrow> nat)"

definition kerErase :: "nat \<Rightarrow> nat \<Rightarrow> nat \<Rightarrow> table_arrays \<Rightarrow> table_arrays" where
  "kerErase n blockIdx threadIdx = (\<lambda>(hs, ls, ps).
     (let i = grid_thread blockIdx threadIdx
      in if \<not> i < n then (hs, ls, ps) else (hs(i := 0), ls(i := 0), ps(i := 0))))"

definition kerFillZero :: "nat \<Rightarrow> nat \<Rightarrow> nat \<Rightarrow> (nat \<Rightarrow> nat) \<Rightarrow> nat \<Rightarrow> nat" where
  "kerFillZero n blockIdx threadIdx arr =
     (let i = grid_thread blockIdx threadIdx in if \<not> i < n then arr else arr(i := 0))"

definition copy_added ::
  "add_args \<Rightarrow> (nat \<Rightarrow> nat) \<Rightarrow> (nat \<Rightarrow> nat) \<Rightarrow> nat \<Rightarrow> memory \<times> (nat \<Rightarrow> nat) \<Rightarrow> memory \<times> (nat \<Rightarrow> nat)" where
  "copy_added A buckets dest i = (\<lambda>(m, hash_table_ptrs).
     (if \<not> i < str_num A then (m, hash_table_ptrs)
      else let len = in_lens A i in
        if len = 0 then (m, hash_table_ptrs)
        else let b = buckets i;
                 my_ptr = add_addr A i
             in if hash_table_ptrs b = my_ptr
                then (copy_loop m my_ptr (my_ptr + len) True 0 (dest b), hash_table_ptrs(b := dest b))
                else (m, hash_table_ptrs)))"

definition kerCopyAddedStrings ::
  "add_args \<Rightarrow> (nat \<Rightarrow> nat) \<Rightarrow> nat \<Rightarrow> (nat \<Rightarrow> nat) \<Rightarrow> nat \<Rightarrow> nat \<Rightarrow> nat \<Rightarrow>
   memory \<times> (nat \<Rightarrow> nat) \<Rightarrow> memory \<times> (nat \<Rightarrow> nat)" where
  "kerCopyAddedStrings A buckets old_str_buf_sz new_strings_offsets hash_table_str_buf blockIdx threadIdx =
     copy_added A buckets
       (\<lambda>b. hash_table_str_buf + (old_str_buf_sz + new_strings_offsets b) mod 2 ^ 32)
       (grid_thread blockIdx threadIdx)"

definition kerCalcTotalAddedLen :: "nat \<Rightarrow> (nat \<Rightarrow> nat) \<Rightarrow> (nat \<Rightarrow> nat) \<Rightarrow> nat" where
  "kerCalcTotalAddedLen n new_strings_offsets new_lens =
     (new_strings_offsets (n - 1) + new_lens (n - 1)) mod 2 ^ 32"

definition kerCalcOffsets :: "nat \<Rightarrow> nat \<Rightarrow> (nat \<Rightarrow> nat) \<Rightarrow> nat \<Rightarrow> nat \<Rightarrow> (nat \<Rightarrow> nat) \<Rightarrow> nat \<Rightarrow> nat" where
  "kerCalcOffsets n sb ps blockIdx threadIdx res_offsets =
     (let i = grid_thread blockIdx threadIdx
      in if \<not> i < n then res_offsets else res_offsets(i := sub64 (ps i) sb mod 2 ^ 32))"

definition kerFillEmptyResBucket :: "nat \<Rightarrow> nat \<Rightarrow> nat \<Rightarrow> (nat \<Rightarrow> nat) \<Rightarrow> nat \<Rightarrow> nat" where
  "kerFillEmptyResBucket elements_num blockIdx threadIdx res =
     (let i = grid_thread blockIdx threadIdx
      in if \<not> i < elements_num then res else res(i := 2 ^ 32 - 1))"

section \<open>The table\<close>

record strings_table =
  tab_buckets_num :: nat
  str_buf_sz :: nat
  str_buf_max_sz :: nat
  tab_hashes :: "nat \<Rightarrow> u64"
  tab_lens :: "nat \<Rightarrow> nat"
  tab_offsets :: "nat \<Rightarrow> nat"
  tab_pointers :: "nat \<Rightarrow> nat"
  buf1 :: "nat \<Rightarrow> nat"
  buf2 :: "nat \<Rightarrow> nat"
  str_buf :: nat

text \<open>The memory of the device and its global variable \<^verbatim>\<open>table_is_full\<close>.\<close>

record device =
  dev_mem :: memory
  dev_table_is_full :: bool

datatype table_error = TableIsFull | StringBufferIsFull

text \<open>
  The constructor allocates the arrays and leaves their contents as they are: \<open>raw\<close> is a table with
  the arrays as \<^verbatim>\<open>cudaMalloc\<close> returned them.
\<close>

definition strings_table_new :: "nat \<Rightarrow> nat \<Rightarrow> strings_table \<Rightarrow> strings_table" where
  "strings_table_new n max_sz raw =
     raw\<lparr>tab_buckets_num := n, str_buf_max_sz := max_sz, str_buf_sz := 0\<rparr>"

definition erase :: "(nat \<times> nat) list \<Rightarrow> strings_table \<Rightarrow> strings_table" where
  "erase order T =
     (let (hs, ls, ps) =
        launch (kerErase (tab_buckets_num T)) order (tab_hashes T, tab_lens T, tab_pointers T)
      in T\<lparr>tab_hashes := hs, tab_lens := ls, tab_pointers := ps, str_buf_sz := 0\<rparr>)"

definition add_args_of :: "strings_table \<Rightarrow> nat \<Rightarrow> nat \<Rightarrow> (nat \<Rightarrow> nat) \<Rightarrow> (nat \<Rightarrow> nat) \<Rightarrow> add_args" where
  "add_args_of T num b offs ls =
     \<lparr>str_num = num, buf = b, in_offsets = offs, in_lens = ls, seed = 0, buckets_num = tab_buckets_num T\<rparr>"

definition add_mem_of :: "strings_table \<Rightarrow> (nat \<Rightarrow> nat) \<Rightarrow> (nat \<Rightarrow> nat) \<Rightarrow> bool \<Rightarrow> add_mem" where
  "add_mem_of T res news full =
     \<lparr>hashes = tab_hashes T, table_lens = tab_lens T, ptrs = tab_pointers T, res_buckets = res,
      new_strings_lens = news, table_is_full = full\<rparr>"

text \<open>
  \<open>addData\<close>: \<open>sched\<close> is the interleaving of the threads of \<^verbatim>\<open>kerAddData\<close>, \<open>order0\<close> and \<open>order1\<close> the
  orders of the threads of \<^verbatim>\<open>kerFillZero\<close> and \<^verbatim>\<open>kerCopyAddedStrings\<close>.  An exception leaves the
  arrays as the kernels have left them.
\<close>

definition addData ::
  "(nat \<Rightarrow> (nat \<Rightarrow> nat) \<Rightarrow> nat \<Rightarrow> nat) \<Rightarrow> (nat \<times> nat) list \<Rightarrow> nat list \<Rightarrow> (nat \<times> nat) list \<Rightarrow>
   strings_table \<Rightarrow> device \<Rightarrow> nat \<Rightarrow> nat \<Rightarrow> (nat \<Rightarrow> nat) \<Rightarrow> (nat \<Rightarrow> nat) \<Rightarrow> (nat \<Rightarrow> nat) \<Rightarrow>
   (table_error + unit) \<times> strings_table \<times> device \<times> (nat \<Rightarrow> nat)" where
  "addData ExclusiveSum order0 sched order1 T dev num b offs ls res =
     (let n = tab_buckets_num T;
          zeros = launch (kerFillZero n) order0 (buf1 T);
          A = add_args_of T num b offs ls;
          M = fst (kerAddData (dev_mem dev) A sched (add_mem_of T res zeros (dev_table_is_full dev)));
          new_offsets = ExclusiveSum n (new_strings_lens M);
          (m, ps) = launch (kerCopyAddedStrings A (res_buckets M) (str_buf_sz T) new_offsets (str_buf T))
                      order1 (dev_mem dev, ptrs M);
          total = kerCalcTotalAddedLen n new_offsets (new_strings_lens M);
          T = T\<lparr>tab_hashes := hashes M, tab_lens := table_lens M, tab_pointers := ps,
                buf1 := new_strings_lens M, buf2 := new_offsets\<rparr>;
          dev = \<lparr>dev_mem = m, dev_table_is_full = table_is_full M\<rparr>
      in if table_is_full M then (Inl TableIsFull, T, dev, res_buckets M)
         else if (str_buf_sz T + total) mod 2 ^ 32 > str_buf_max_sz T
         then (Inl StringBufferIsFull, T, dev, res_buckets M)
         else (Inr (), T\<lparr>str_buf_sz := (str_buf_sz T + total) mod 2 ^ 32\<rparr>, dev, res_buckets M))"

definition calcOffsets :: "(nat \<times> nat) list \<Rightarrow> strings_table \<Rightarrow> strings_table" where
  "calcOffsets order T =
     T\<lparr>tab_offsets := launch (kerCalcOffsets (tab_buckets_num T) (str_buf T) (tab_pointers T)) order (tab_offsets T)\<rparr>"

definition mergeToOtherTable ::
  "(nat \<Rightarrow> (nat \<Rightarrow> nat) \<Rightarrow> nat \<Rightarrow> nat) \<Rightarrow> (nat \<times> nat) list \<Rightarrow> (nat \<times> nat) list \<Rightarrow> nat list \<Rightarrow> (nat \<times> nat) list \<Rightarrow>
   strings_table \<Rightarrow> strings_table \<Rightarrow> device \<Rightarrow> (nat \<Rightarrow> nat) \<Rightarrow>
   (table_error + unit) \<times> strings_table \<times> strings_table \<times> device \<times> (nat \<Rightarrow> nat)" where
  "mergeToOtherTable ExclusiveSum order order0 sched order1 T other dev res =
     (let T = calcOffsets order T;
          res = launch (kerFillEmptyResBucket (tab_buckets_num T)) order res;
          (r, other, dev, res) = addData ExclusiveSum order0 sched order1 other dev
             (tab_buckets_num T) (str_buf T) (tab_offsets T) (tab_lens T) res
      in (r, T, other, dev, res))"

section \<open>Launches that fill an array\<close>

interpretation fill_zero: cell_kernel "kerFillZero n" n 256 "\<lambda>_. 0" "2 ^ 32" for n
  by unfold_locales (simp add: kerFillZero_def grid_thread_def Let_def)

interpretation fill_empty: cell_kernel "kerFillEmptyResBucket n" n 256 "\<lambda>_. 2 ^ 32 - 1" "2 ^ 32" for n
  by unfold_locales (simp add: kerFillEmptyResBucket_def grid_thread_def Let_def)

interpretation calc_offsets: cell_kernel "kerCalcOffsets n sb ps" n 256 "\<lambda>i. sub64 (ps i) sb mod 2 ^ 32" "2 ^ 32"
  for n sb ps
  by unfold_locales (simp add: kerCalcOffsets_def grid_thread_def Let_def)

definition zero_cell :: "nat \<Rightarrow> nat \<Rightarrow> nat \<Rightarrow> (nat \<Rightarrow> 'v :: zero) \<Rightarrow> nat \<Rightarrow> 'v" where
  "zero_cell n blockIdx threadIdx arr =
     (let i = grid_thread blockIdx threadIdx in if i < n then arr(i := 0) else arr)"

interpretation zero_cell: cell_kernel "zero_cell n" n 256 "\<lambda>_. 0" "2 ^ 32" for n
  by unfold_locales (simp add: zero_cell_def grid_thread_def Let_def)

lemma zero_cell_launch:
  assumes "n < 2 ^ 32" and "schedule (n div 256 + 1) 256 order"
  shows "launch (zero_cell n) order s = (\<lambda>i. if i < n then 0 else s i)"
  by (rule zero_cell.launch_cells [OF assms(2)]) (use grid_256 [OF assms(1)] in simp_all)

lemma kerErase_launch:
  assumes "n < 2 ^ 32" and "schedule (n div 256 + 1) 256 order"
  shows "launch (kerErase n) order (h, l, p) =
    ((\<lambda>i. if i < n then 0 else h i), (\<lambda>i. if i < n then 0 else l i), (\<lambda>i. if i < n then 0 else p i))"
proof -
  let ?r = "launch (kerErase n) order (h, l, p)"
  have 1: "fst ?r = launch (zero_cell n) order (fst (h, l, p))"
    by (rule launch_proj) (simp add: kerErase_def zero_cell_def Let_def split: prod.split)
  have 2: "(fst \<circ> snd) ?r = launch (zero_cell n) order ((fst \<circ> snd) (h, l, p))"
    by (rule launch_proj) (simp add: kerErase_def zero_cell_def Let_def split: prod.split)
  have 3: "(snd \<circ> snd) ?r = launch (zero_cell n) order ((snd \<circ> snd) (h, l, p))"
    by (rule launch_proj) (simp add: kerErase_def zero_cell_def Let_def split: prod.split)
  show ?thesis
    using 1 2 3 unfolding zero_cell_launch [OF assms] comp_def fst_conv snd_conv
    by (intro prod_eqI) simp_all
qed

end
