(* ===== verification/Strings_Add_Correct.thy ===== *)
theory Strings_Add_Correct
  imports Strings_Add
begin

text \<open>
  Correctness of the operations of the strings table: what the copying kernel leaves in the string
  buffer, the invariant of the table, and what \<^verbatim>\<open>addData\<close> and \<^verbatim>\<open>mergeToOtherTable\<close> do to the set of
  strings in the table.
\<close>

section \<open>Copying the new strings\<close>

definition active :: "add_args \<Rightarrow> nat \<Rightarrow> bool" where
  "active A i \<longleftrightarrow> i < str_num A \<and> in_lens A i \<noteq> 0"

text \<open>
  \<open>B\<close> are the buckets with a new string, \<open>L\<close> the lengths of the strings and \<open>p\<close> the pointers before
  the copying.  The destinations are apart from each other and from the sources.
\<close>

definition copy_plan ::
  "add_args \<Rightarrow> (nat \<Rightarrow> nat) \<Rightarrow> (nat \<Rightarrow> nat) \<Rightarrow> nat set \<Rightarrow> (nat \<Rightarrow> nat) \<Rightarrow> (nat \<Rightarrow> nat) \<Rightarrow> bool" where
  "copy_plan A buckets dest B L p \<longleftrightarrow>
     (\<forall>i. active A i \<longrightarrow> p (buckets i) = add_addr A i \<longrightarrow> buckets i \<in> B \<and> L (buckets i) = in_lens A i) \<and>
     (\<forall>i. active A i \<longrightarrow> (\<forall>b \<in> B. dest b \<noteq> add_addr A i \<and>
       (align8 (add_addr A i + in_lens A i - 1) + 8 \<le> dest b \<or> dest b + pad8 (L b) \<le> align8 (add_addr A i)))) \<and>
     (\<forall>b \<in> B. \<forall>c \<in> B. b \<noteq> c \<longrightarrow> dest b + pad8 (L b) \<le> dest c \<or> dest c + pad8 (L c) \<le> dest b) \<and>
     (\<forall>b \<in> B. \<exists>i. active A i \<and> buckets i = b \<and> p b = add_addr A i)"

definition copy_inv ::
  "(nat \<Rightarrow> nat) \<Rightarrow> nat set \<Rightarrow> (nat \<Rightarrow> nat) \<Rightarrow> (nat \<Rightarrow> nat) \<Rightarrow> memory \<Rightarrow> memory \<times> (nat \<Rightarrow> nat) \<Rightarrow> bool" where
  "copy_inv dest B L p0 m0 S \<longleftrightarrow>
     (\<forall>b. snd S b = p0 b \<or>
        b \<in> B \<and> snd S b = dest b \<and> bytes_at (fst S) (dest b) (L b) = bytes_at m0 (p0 b) (L b)) \<and>
     (\<forall>x. (\<forall>b \<in> B. x < dest b \<or> dest b + pad8 (L b) \<le> x) \<longrightarrow> fst S x = m0 x)"

lemma bytes_at_cong: "(\<And>x. a \<le> x \<Longrightarrow> x < a + n \<Longrightarrow> m x = m' x) \<Longrightarrow> bytes_at m a n = bytes_at m' a n"
  by (auto simp: bytes_at_def)

lemma bytes_at_copied: "bytes_at (copied m s len d) d len = bytes_at m s len"
  using pad8_ge [of len] by (intro nth_equalityI) (auto simp: bytes_at_def copied_def)

lemma copied_outside: "x < d \<or> d + pad8 len \<le> x \<Longrightarrow> copied m s len d x = m x"
  by (auto simp: copied_def)

lemma align8_le: "align8 p \<le> p" "p < align8 p + 8"
  by (auto simp: align8_def)

lemma copy_inv_step:
  assumes plan: "copy_plan A buckets dest B L p0" and inv: "copy_inv dest B L p0 m0 S"
  shows "copy_inv dest B L p0 m0 (copy_added A buckets dest i S)"
proof (cases "active A i \<and> snd S (buckets i) = add_addr A i")
  case False
  then have "copy_added A buckets dest i S = S"
    by (auto simp: copy_added_def active_def Let_def split: prod.split)
  then show ?thesis using inv by simp
next
  case True
  let ?b = "buckets i" and ?a = "add_addr A i" and ?l = "in_lens A i"
  define m' where "m' = copied (fst S) ?a ?l (dest ?b)"
  have nd: "dest b \<noteq> ?a" if "b \<in> B" for b using plan True that unfolding copy_plan_def by blast
  have p: "p0 ?b = ?a" using inv True nd unfolding copy_inv_def by metis
  have b: "?b \<in> B" "L ?b = ?l" using plan True p unfolding copy_plan_def by blast+
  have sep: "align8 (?a + ?l - 1) + 8 \<le> dest c \<or> dest c + pad8 (L c) \<le> align8 ?a" if "c \<in> B" for c
    using plan True that unfolding copy_plan_def by blast
  have cl: "copy_loop (fst S) ?a (?a + ?l) True 0 (dest ?b) = m'"
    unfolding m'_def using copy_loop_eq [of ?a "?a + ?l" True 0 "fst S" "dest ?b"] sep [OF b(1)] b(2) by simp
  have S': "copy_added A buckets dest i S = (m', (snd S)(?b := dest ?b))"
    using True cl by (auto simp: copy_added_def active_def Let_def split: prod.split)
  have src: "fst S x = m0 x" if "?a \<le> x" "x < ?a + ?l" for x
  proof -
    have "x < dest c \<or> dest c + pad8 (L c) \<le> x" if "c \<in> B" for c
      using sep [OF that] align8_le [of ?a] align8_le [of "?a + ?l - 1"] \<open>?a \<le> x\<close> \<open>x < ?a + ?l\<close> by linarith
    then show ?thesis using inv unfolding copy_inv_def by blast
  qed
  have new: "bytes_at m' (dest ?b) (L ?b) = bytes_at m0 (p0 ?b) (L ?b)"
    unfolding m'_def b(2) p bytes_at_copied by (rule bytes_at_cong) (rule src)
  have old: "bytes_at m' (dest c) (L c) = bytes_at (fst S) (dest c) (L c)" if "c \<in> B" "c \<noteq> ?b" for c
  proof (rule bytes_at_cong)
    fix x assume "dest c \<le> x" "x < dest c + L c"
    moreover have "dest ?b + pad8 ?l \<le> dest c \<or> dest c + pad8 (L c) \<le> dest ?b"
      using plan b that unfolding copy_plan_def by metis
    ultimately show "m' x = fst S x"
      unfolding m'_def using pad8_ge [of "L c"] by (intro copied_outside) linarith
  qed
  have "m' x = m0 x" if "\<forall>c \<in> B. x < dest c \<or> dest c + pad8 (L c) \<le> x" for x
  proof -
    have "x < dest ?b \<or> dest ?b + pad8 ?l \<le> x" using that b by metis
    then have "m' x = fst S x" unfolding m'_def by (rule copied_outside)
    then show ?thesis using inv that unfolding copy_inv_def by simp
  qed
  then show ?thesis using inv new old b(1) unfolding copy_inv_def S' by auto
qed

lemma copy_fold:
  assumes plan: "copy_plan A buckets dest B L p0" and "copy_inv dest B L p0 m0 S"
  shows "copy_inv dest B L p0 m0 (fold (copy_added A buckets dest) is S)"
  using assms(2) by (induction "is" arbitrary: S) (simp_all add: copy_inv_step [OF plan])

text \<open>Once a bucket points to its copy it keeps doing so.\<close>

lemma copied_stays:
  assumes "copy_plan A buckets dest B L p0" and "b \<in> B" and "snd S b = dest b"
  shows "snd (fold (copy_added A buckets dest) is S) b = dest b"
  using assms(3)
proof (induction "is" arbitrary: S)
  case (Cons i "is")
  have "snd (copy_added A buckets dest i S) b = dest b"
    using Cons.prems by (auto simp: copy_added_def Let_def split: prod.split)
  from Cons.IH [OF this] show ?case by simp
qed simp

lemma copy_all:
  assumes plan: "copy_plan A buckets dest B L p0" and idx: "{..<str_num A} \<subseteq> set is" and b: "b \<in> B"
  shows "snd (fold (copy_added A buckets dest) is (m0, p0)) b = dest b"
proof -
  obtain i where i: "active A i" "buckets i = b" "p0 b = add_addr A i"
    using plan b unfolding copy_plan_def by metis
  then have "i \<in> set is" using idx by (auto simp: active_def)
  then obtain us vs where us: "is = us @ i # vs" by (meson split_list)
  let ?S = "fold (copy_added A buckets dest) us (m0, p0)"
  have "copy_inv dest B L p0 m0 (m0, p0)" by (simp add: copy_inv_def)
  from copy_fold [OF plan this, of us] have "snd ?S b = p0 b \<or> snd ?S b = dest b"
    unfolding copy_inv_def by blast
  then have "snd (copy_added A buckets dest i ?S) b = dest b"
    using i by (auto simp: copy_added_def active_def Let_def split: prod.split)
  from copied_stays [OF plan b this, of vs] show ?thesis unfolding us by simp
qed

lemma copy_result:
  assumes plan: "copy_plan A buckets dest B L p0" and idx: "{..<str_num A} \<subseteq> set is"
    and r: "fold (copy_added A buckets dest) is (m0, p0) = (m, p)"
  shows "b \<in> B \<Longrightarrow> p b = dest b" and "b \<notin> B \<Longrightarrow> p b = p0 b"
    and "b \<in> B \<Longrightarrow> dest b \<noteq> p0 b \<Longrightarrow> bytes_at m (p b) (L b) = bytes_at m0 (p0 b) (L b)"
    and "(\<forall>c \<in> B. x < dest c \<or> dest c + pad8 (L c) \<le> x) \<Longrightarrow> m x = m0 x"
proof -
  have "copy_inv dest B L p0 m0 (m0, p0)" by (simp add: copy_inv_def)
  from copy_fold [OF plan this, of "is"] have inv: "copy_inv dest B L p0 m0 (m, p)" by (simp add: r)
  show p: "b \<in> B \<Longrightarrow> p b = dest b" using copy_all [OF plan idx, of b m0] by (simp add: r)
  show "b \<notin> B \<Longrightarrow> p b = p0 b" using inv unfolding copy_inv_def by auto
  show "b \<in> B \<Longrightarrow> dest b \<noteq> p0 b \<Longrightarrow> bytes_at m (p b) (L b) = bytes_at m0 (p0 b) (L b)"
    using inv p unfolding copy_inv_def by force
  show "(\<forall>c \<in> B. x < dest c \<or> dest c + pad8 (L c) \<le> x) \<Longrightarrow> m x = m0 x"
    using inv unfolding copy_inv_def by auto
qed

end
