(* ===== verification/Strings_Add_Spec.thy ===== *)
theory Strings_Add_Spec
  imports Strings_Add_Correct
begin

text \<open>
  The contract of the strings table: a set of strings of bounded size, in which every string has a
  bucket of its own that never changes, and \<^verbatim>\<open>addData\<close> as insertion into that set.
\<close>

section \<open>The invariant of the table\<close>

definition tab_mem :: "strings_table \<Rightarrow> add_mem" where
  "tab_mem T = add_mem_of T (\<lambda>_. 0) (\<lambda>_. 0) False"

definition tab_args :: "strings_table \<Rightarrow> add_args" where
  "tab_args T = add_args_of T 0 0 (\<lambda>_. 0) (\<lambda>_. 0)"

definition tab_entry :: "memory \<Rightarrow> strings_table \<Rightarrow> nat \<Rightarrow> 8 word list option" where
  "tab_entry m T = entry m (tab_mem T)"

definition contents :: "memory \<Rightarrow> strings_table \<Rightarrow> 8 word list set" where
  "contents m T = {s. \<exists>b. tab_entry m T b = Some s}"

definition buffer_ok :: "strings_table \<Rightarrow> bool" where
  "buffer_ok T \<longleftrightarrow> 0 < tab_buckets_num T \<and> tab_buckets_num T < 2 ^ 32 \<and>
     str_buf T \<noteq> 0 \<and> 8 dvd str_buf T \<and> 8 dvd str_buf_sz T \<and>
     str_buf_sz T \<le> str_buf_max_sz T \<and> str_buf_max_sz T < 2 ^ 32 \<and> str_buf T + str_buf_max_sz T < 2 ^ 64 \<and>
     (\<forall>b. tab_pointers T b \<noteq> 0 \<longrightarrow>
        str_buf T \<le> tab_pointers T b \<and> tab_pointers T b + tab_lens T b \<le> str_buf T + str_buf_sz T) \<and>
     (\<forall>b \<ge> tab_buckets_num T. buf1 T b = 0)"

definition strings_ok :: "memory \<Rightarrow> strings_table \<Rightarrow> bool" where
  "strings_ok m T \<longleftrightarrow> buffer_ok T \<and> tab_ok m (tab_args T) (tab_mem T) \<and> complete (tab_mem T)"

text \<open>Nothing but the hashes, the lengths and the strings matters for the invariant of the buckets.\<close>

lemma tab_ok_eq:
  assumes "seed A = seed A'" and "buckets_num A = buckets_num A'"
    and "\<And>b. hashes M b = hashes M' b" and "\<And>b. table_lens M b = table_lens M' b"
    and e: "\<And>b. entry m M b = entry m' M' b"
  shows "tab_ok m A M = tab_ok m' A' M'"
proof -
  have "ptrs M b = 0 \<longleftrightarrow> ptrs M' b = 0" for b
    using e [of b] by (simp add: entry_def split: if_splits)
  moreover have "hash_of A = hash_of A'" by (rule ext) (simp add: hash_of_def assms(1))
  ultimately show ?thesis
    by (simp only: tab_ok_def reached_def rejects_def probe_def assms)
qed

lemma entries_tab_mem: "contents m T = entries m (tab_mem T)"
  by (simp add: contents_def entries_def tab_entry_def)

lemma tab_mem_simps [simp]:
  "hashes (add_mem_of T r l f) = tab_hashes T" "table_lens (add_mem_of T r l f) = tab_lens T"
  "ptrs (add_mem_of T r l f) = tab_pointers T" "new_strings_lens (add_mem_of T r l f) = l"
  "table_is_full (add_mem_of T r l f) = f" "entry m (add_mem_of T r l f) b = tab_entry m T b"
  by (simp_all add: add_mem_of_def tab_entry_def tab_mem_def entry_def)

lemma add_args_simps [simp]:
  "seed (add_args_of T n b offs ls) = 0" "buckets_num (add_args_of T n b offs ls) = tab_buckets_num T"
  "str_num (add_args_of T n b offs ls) = n" "in_lens (add_args_of T n b offs ls) = ls"
  "buf (add_args_of T n b offs ls) = b" "in_offsets (add_args_of T n b offs ls) = offs"
  by (simp_all add: add_args_of_def)

lemma tab_entry_simp: "tab_entry m T b =
    (if tab_pointers T b = 0 then None else Some (bytes_at m (tab_pointers T b) (tab_lens T b)))"
  by (simp add: tab_entry_def tab_mem_def entry_def add_mem_of_def)

lemma strings_ok_unique:
  "\<lbrakk>strings_ok m T; tab_entry m T b = Some s; tab_entry m T c = Some s\<rbrakk> \<Longrightarrow> b = c"
  unfolding strings_ok_def tab_entry_def using entry_unique by blast

lemma strings_ok_card:
  assumes "strings_ok m T"
  shows "finite (contents m T)" and "card (contents m T) \<le> tab_buckets_num T"
  using assms card_entries(1,2) [of m "tab_args T" "tab_mem T"]
  by (simp_all add: strings_ok_def entries_tab_mem tab_args_def)

subsection \<open>Erasing\<close>

definition raw_ok :: "strings_table \<Rightarrow> bool" where
  "raw_ok T \<longleftrightarrow> 0 < tab_buckets_num T \<and> tab_buckets_num T < 2 ^ 32 \<and> str_buf T \<noteq> 0 \<and> 8 dvd str_buf T \<and>
     str_buf_max_sz T < 2 ^ 32 \<and> str_buf T + str_buf_max_sz T < 2 ^ 64 \<and>
     (\<forall>b \<ge> tab_buckets_num T. tab_hashes T b = 0 \<and> tab_lens T b = 0 \<and> tab_pointers T b = 0 \<and> buf1 T b = 0)"

lemma erase_spec:
  assumes "raw_ok T" and "schedule (tab_buckets_num T div 256 + 1) 256 order"
  shows "strings_ok m (erase order T)" and "contents m (erase order T) = {}"
proof -
  have n: "tab_buckets_num T < 2 ^ 32" using assms(1) by (simp add: raw_ok_def)
  have e: "erase order T = T\<lparr>tab_hashes := \<lambda>_. 0, tab_lens := \<lambda>_. 0, tab_pointers := \<lambda>_. 0, str_buf_sz := 0\<rparr>"
    unfolding erase_def kerErase_launch [OF n assms(2)] Let_def prod.case
    using assms(1) by (auto simp: raw_ok_def fun_eq_iff intro!: strings_table.equality)
  show "strings_ok m (erase order T)"
    using assms(1)
    by (simp add: e strings_ok_def buffer_ok_def raw_ok_def tab_ok_def complete_def tab_mem_def tab_entry_simp)
  show "contents m (erase order T) = {}" by (simp add: e contents_def tab_entry_simp)
qed

section \<open>Inserting strings\<close>

text \<open>The documented behaviour of \<^verbatim>\<open>cub::DeviceScan::ExclusiveSum\<close> on 32-bit unsigned integers.\<close>

definition exclusive_sum_spec :: "(nat \<Rightarrow> (nat \<Rightarrow> nat) \<Rightarrow> nat \<Rightarrow> nat) \<Rightarrow> bool" where
  "exclusive_sum_spec E \<longleftrightarrow> (\<forall>n f i. i < n \<longrightarrow> E n f i = (\<Sum>j<i. f j) mod 2 ^ 32)"

text \<open>The input strings are outside the string buffer of the table.\<close>

definition add_input_ok :: "strings_table \<Rightarrow> add_args \<Rightarrow> bool" where
  "add_input_ok T A \<longleftrightarrow> str_num A < 2 ^ 32 \<and> buf A \<noteq> 0 \<and> (\<forall>i. active A i \<longrightarrow> in_lens A i + 7 < 2 ^ 32 \<and>
     (add_addr A i + in_lens A i \<le> str_buf T \<or> str_buf T + str_buf_max_sz T \<le> add_addr A i))"

lemma round_len_eq:
  assumes "0 < l" and "l + 7 < 2 ^ 32"
  shows "round_len l = pad8 l"
proof -
  have "(l + 2 ^ 32 - 1) mod 2 ^ 32 = l - 1"
    using assms mod_add_self2 [of "l - 1" "2 ^ 32"] by simp
  moreover have "(l - 1) div 8 + 1 = (l + 7) div 8"
    using assms(1) div_add_self2 [of 8 "l - 1"] by simp
  moreover have "(l + 7) div 8 * 8 < 2 ^ 32" using assms(2) by (meson div_times_less_eq_dividend le_less_trans)
  ultimately show ?thesis unfolding round_len_def pad8_def by simp
qed

definition added :: "add_mem \<Rightarrow> add_mem \<Rightarrow> nat set" where
  "added M0 M = {b. ptrs M b \<noteq> ptrs M0 b}"

lemma added_entry:
  assumes r: "run_ok m A M0 S" and e: "all_exited A S" and ok: "tab_ok m A M0" and b: "b \<in> added M0 (fst S)"
  obtains s where "entry m (fst S) b = Some s" "s \<in> str_keys m A" "s \<notin> entries m M0" "ptrs M0 b = 0"
proof -
  let ?M = "fst S"
  have ok': "tab_ok m A ?M" and g: "grows M0 ?M" using r by (simp_all add: run_ok_def base_ok_def)
  have p: "ptrs ?M b \<noteq> ptrs M0 b" using b by (simp add: added_def)
  have z: "ptrs M0 b = 0" using growsD(3) [OF g, of b] p by (cases "ptrs M0 b = 0") simp_all
  then obtain s where s: "entry m ?M b = Some s" using p by (simp add: entry_def)
  have "s \<notin> entries m M0"
  proof
    assume "s \<in> entries m M0"
    then obtain c where c: "entry m M0 c = Some s" by (auto simp: entries_def)
    have "c = b" by (rule entry_unique [OF ok' entry_stable [OF g ok c] s])
    then show False using c z by (simp add: entry_Some)
  qed
  moreover have "s \<in> str_keys m A"
    using exited_entries(2) [OF r e ok] s calculation by (auto simp: entries_def)
  ultimately show ?thesis using that s z by blast
qed

lemma added_bij:
  assumes r: "run_ok m A M0 S" and e: "all_exited A S" and ok: "tab_ok m A M0"
  shows "bij_betw (\<lambda>b. the (entry m (fst S) b)) (added M0 (fst S)) (entries m (fst S) - entries m M0)"
proof (rule bij_betwI')
  let ?M = "fst S"
  have ok': "tab_ok m A ?M" and g: "grows M0 ?M" using r by (simp_all add: run_ok_def base_ok_def)
  fix b c assume "b \<in> added M0 ?M" "c \<in> added M0 ?M"
  then obtain s s' where "entry m ?M b = Some s" "entry m ?M c = Some s'"
    using added_entry [OF r e ok] by metis
  then show "(the (entry m ?M b) = the (entry m ?M c)) = (b = c)" using entry_unique [OF ok'] by auto
next
  fix b assume "b \<in> added M0 (fst S)"
  then show "the (entry m (fst S) b) \<in> entries m (fst S) - entries m M0"
    using added_entry [OF r e ok] by (metis (mono_tags, lifting) DiffI entries_def mem_Collect_eq option.sel)
next
  let ?M = "fst S"
  have g: "grows M0 ?M" using r by (simp add: run_ok_def base_ok_def)
  fix s assume s: "s \<in> entries m ?M - entries m M0"
  then obtain b where b: "entry m ?M b = Some s" by (auto simp: entries_def)
  have "b \<in> added M0 ?M"
  proof (rule ccontr)
    assume "b \<notin> added M0 ?M"
    then have "ptrs M0 b \<noteq> 0" using b by (simp add: added_def entry_Some)
    then obtain s' where s': "entry m M0 b = Some s'" by (simp add: entry_def)
    then have "s' = s" using entry_stable [OF g ok s'] b by simp
    then show False using s s' by (auto simp: entries_def)
  qed
  then show "\<exists>b \<in> added M0 ?M. s = the (entry m ?M b)" using b by (intro bexI [of _ b]) simp_all
qed

lemma added_bound:
  assumes "run_ok m A M0 S" and "all_exited A S" and "tab_ok m A M0"
  shows "added M0 (fst S) \<subseteq> {..<buckets_num A}"
proof
  fix b assume "b \<in> added M0 (fst S)"
  then obtain s where "entry m (fst S) b = Some s" using added_entry [OF assms] by metis
  moreover have "tab_ok m A (fst S)" using assms(1) by (simp add: run_ok_def base_ok_def)
  ultimately show "b \<in> {..<buckets_num A}" using entry_bound by blast
qed

lemma new_lens_eq:
  assumes r: "run_ok m A M0 S" and e: "all_exited A S"
    and lens: "\<And>i. active A i \<Longrightarrow> in_lens A i + 7 < 2 ^ 32"
  shows "new_strings_lens (fst S) b = (if b \<in> added M0 (fst S) then pad8 (table_lens (fst S) b) else 0)"
proof (cases "ptrs (fst S) b = ptrs M0 b")
  case False
  then obtain i where "i < str_num A" "in_lens A i \<noteq> 0" "table_lens (fst S) b = in_lens A i"
    by (rule exited_added [OF r e])
  then have "round_len (table_lens (fst S) b) = pad8 (table_lens (fst S) b)"
    using lens [of i] by (intro round_len_eq) (auto simp: active_def)
  then show ?thesis using False by (simp add: exited_new_lens [OF r e] added_def)
qed (simp add: exited_new_lens [OF r e] added_def)

lemma sum_new_lens:
  assumes r: "run_ok m A M0 S" and e: "all_exited A S" and ok: "tab_ok m A M0"
    and lens: "\<And>i. active A i \<Longrightarrow> in_lens A i + 7 < 2 ^ 32"
  shows "(\<Sum>b < buckets_num A. new_strings_lens (fst S) b) = (\<Sum>s \<in> entries m (fst S) - entries m M0. pad8 (length s))"
proof -
  let ?M = "fst S" and ?B = "added M0 (fst S)"
  have len: "length (the (entry m ?M b)) = table_lens ?M b" if "b \<in> ?B" for b
    using added_entry [OF r e ok that] entry_length [of m ?M b] by (metis option.sel)
  have "(\<Sum>b < buckets_num A. new_strings_lens ?M b) = (\<Sum>b \<in> ?B. pad8 (table_lens ?M b))"
    by (rule sum.mono_neutral_cong_right)
      (use added_bound [OF r e ok] new_lens_eq [OF r e lens] in auto)
  also have "\<dots> = (\<Sum>b \<in> ?B. pad8 (length (the (entry m ?M b))))" using len by simp
  also have "\<dots> = (\<Sum>s \<in> entries m ?M - entries m M0. pad8 (length s))"
    by (rule sum.reindex_bij_betw [OF added_bij [OF r e ok]])
  finally show ?thesis .
qed

subsection \<open>The destinations of the new strings\<close>

lemma align8_below: "x < s \<Longrightarrow> 8 dvd s \<Longrightarrow> align8 x + 8 \<le> s"
proof -
  assume "x < s" "8 dvd s"
  then obtain k where k: "s = 8 * k" by (auto elim: dvdE)
  have "x div 8 < k" using \<open>x < s\<close> k by (simp add: less_mult_imp_div_less mult.commute)
  then have "x div 8 * 8 + 8 \<le> s" unfolding k by simp
  then show ?thesis by (simp add: align8_def minus_mod_eq_div_mult)
qed

lemma align8_above: "e \<le> x \<Longrightarrow> 8 dvd e \<Longrightarrow> e \<le> align8 x"
proof -
  assume "e \<le> x" "8 dvd e"
  then obtain k where k: "e = 8 * k" by (auto elim: dvdE)
  have "k \<le> x div 8" using \<open>e \<le> x\<close> k by (simp add: less_eq_div_iff_mult_less_eq mult.commute)
  then show ?thesis by (simp add: align8_def minus_mod_eq_div_mult k)
qed

lemma pad8_dvd [simp]: "8 dvd pad8 l"
  by (simp add: pad8_def)

lemma prefix_sums:
  fixes f :: "nat \<Rightarrow> nat"
  shows "b < c \<Longrightarrow> (\<Sum>j<b. f j) + f b \<le> (\<Sum>j<c. f j)"
proof -
  assume "b < c"
  have "(\<Sum>j<b. f j) + f b = (\<Sum>j<Suc b. f j)" by simp
  also have "\<dots> \<le> (\<Sum>j<c. f j)" using \<open>b < c\<close> by (intro sum_mono2) auto
  finally show ?thesis .
qed

lemma source_apart:
  assumes src: "a + l \<le> sb \<or> sb + mx \<le> a" and l: "0 < l" and d: "8 dvd d" "8 dvd p" "0 < p"
    and lim: "sb \<le> d" "d + p \<le> sb + mx"
  shows "d \<noteq> a \<and> (align8 (a + l - 1) + 8 \<le> d \<or> d + p \<le> align8 a)"
  using src
proof
  assume a: "a + l \<le> sb"
  then have "a + l - 1 < d" using lim l by linarith
  from align8_below [OF this d(1)] show ?thesis using a lim l by auto
next
  assume a: "sb + mx \<le> a"
  then have "d + p \<le> a" using lim by simp
  then show ?thesis using align8_above [of "d + p" a] d by auto
qed

lemma res_bucket_added:
  assumes r: "run_ok m A M0 S" and e: "all_exited A S" and ok: "tab_ok m A M0" and nf: "\<not> table_is_full (fst S)"
    and T: "buffer_ok T" "ptrs M0 = tab_pointers T" "table_lens M0 = tab_lens T"
    and inp: "add_input_ok T A"
    and i: "active A i" "ptrs (fst S) (res_buckets (fst S) i) = add_addr A i"
  shows "res_buckets (fst S) i \<in> added M0 (fst S) \<and> table_lens (fst S) (res_buckets (fst S) i) = in_lens A i"
proof
  let ?M = "fst S" and ?b = "res_buckets (fst S) i"
  have en: "entry m ?M ?b = Some (str_key m A i)" using exited_result [OF r e nf] i(1) by (simp add: active_def)
  then show "table_lens ?M ?b = in_lens A i" using entry_length [OF en] by simp
  show "?b \<in> added M0 ?M"
  proof (rule ccontr)
    assume nb: "?b \<notin> added M0 ?M"
    then have p: "tab_pointers T ?b = add_addr A i" using i(2) T(2) by (simp add: added_def)
    have nz: "tab_pointers T ?b \<noteq> 0" using en i(2) p by (simp add: entry_Some)
    have "table_lens M0 ?b \<noteq> 0" using tab_okD(2) [OF ok, of ?b] nz T(2) by auto
    then have "0 < tab_lens T ?b" using T(3) by simp
    moreover have "str_buf T \<le> add_addr A i" "add_addr A i + tab_lens T ?b \<le> str_buf T + str_buf_sz T"
      using T(1) nz unfolding buffer_ok_def p by (metis p)+
    moreover have "str_buf_sz T \<le> str_buf_max_sz T" using T(1) by (simp add: buffer_ok_def)
    moreover have "add_addr A i + in_lens A i \<le> str_buf T \<or> str_buf T + str_buf_max_sz T \<le> add_addr A i"
      using inp i(1) by (simp add: add_input_ok_def)
    ultimately show False using i(1) by (auto simp: active_def)
  qed
qed

lemma added_len_pos:
  assumes r: "run_ok m A M0 S" and e: "all_exited A S" and ok: "tab_ok m A M0" and b: "b \<in> added M0 (fst S)"
  shows "0 < pad8 (table_lens (fst S) b)"
proof -
  obtain s where "entry m (fst S) b = Some s" using added_entry [OF assms] by metis
  moreover have "tab_ok m A (fst S)" using r by (simp add: run_ok_def base_ok_def)
  ultimately have "0 < table_lens (fst S) b" using tab_okD(2) [of m A "fst S" b] by (auto simp: entry_Some)
  then show ?thesis using pad8_ge [of "table_lens (fst S) b"] by simp
qed

lemma add_plan:
  assumes r: "run_ok m A M0 S" and e: "all_exited A S" and ok: "tab_ok m A M0" and nf: "\<not> table_is_full (fst S)"
    and T: "buffer_ok T" "ptrs M0 = tab_pointers T" "table_lens M0 = tab_lens T"
    and inp: "add_input_ok T A"
    and dest: "\<And>b. b \<in> added M0 (fst S) \<Longrightarrow> dest b = str_buf T + (str_buf_sz T + (\<Sum>j<b. new_strings_lens (fst S) j))"
    and fits: "str_buf_sz T + (\<Sum>j<buckets_num A. new_strings_lens (fst S) j) \<le> str_buf_max_sz T"
  shows "copy_plan A (res_buckets (fst S)) dest (added M0 (fst S)) (table_lens (fst S)) (ptrs (fst S))"
proof -
  let ?M = "fst S" and ?B = "added M0 (fst S)"
  let ?f = "new_strings_lens ?M"
  have lens: "active A i \<Longrightarrow> in_lens A i + 7 < 2 ^ 32" for i using inp by (simp add: add_input_ok_def)
  have f: "?f b = (if b \<in> ?B then pad8 (table_lens ?M b) else 0)" for b by (rule new_lens_eq [OF r e lens])
  have lim: "str_buf T \<le> dest b" "dest b + pad8 (table_lens ?M b) \<le> str_buf T + str_buf_max_sz T" if "b \<in> ?B" for b
  proof -
    have "b < buckets_num A" using added_bound [OF r e ok] that by auto
    then show "str_buf T \<le> dest b" "dest b + pad8 (table_lens ?M b) \<le> str_buf T + str_buf_max_sz T"
      using dest [OF that] prefix_sums [of b "buckets_num A" ?f] f [of b] fits that by simp_all
  qed
  have dvd: "8 dvd dest b" if "b \<in> ?B" for b
    using T(1) unfolding dest [OF that] buffer_ok_def by (auto simp: f intro!: dvd_add dvd_sum)
  have 1: "res_buckets ?M i \<in> ?B \<and> table_lens ?M (res_buckets ?M i) = in_lens A i"
    if "active A i" "ptrs ?M (res_buckets ?M i) = add_addr A i" for i
    by (rule res_bucket_added [OF r e ok nf T inp that])
  have 2: "dest b \<noteq> add_addr A i \<and>
      (align8 (add_addr A i + in_lens A i - 1) + 8 \<le> dest b \<or> dest b + pad8 (table_lens ?M b) \<le> align8 (add_addr A i))"
    if i: "active A i" and b: "b \<in> ?B" for i b
    by (rule source_apart [of _ _ "str_buf T" "str_buf_max_sz T"])
      (use i lim [OF b] dvd [OF b] added_len_pos [OF r e ok b] inp in \<open>auto simp: active_def add_input_ok_def\<close>)
  have 3: "dest b + pad8 (table_lens ?M b) \<le> dest c \<or> dest c + pad8 (table_lens ?M c) \<le> dest b"
    if "b \<in> ?B" "c \<in> ?B" "b \<noteq> c" for b c
    using prefix_sums [of b c ?f] prefix_sums [of c b ?f] f [of b] f [of c] that dest [OF that(1)] dest [OF that(2)]
    by (cases "b < c") simp_all
  have 4: "\<exists>i. active A i \<and> res_buckets ?M i = b \<and> ptrs ?M b = add_addr A i" if "b \<in> ?B" for b
  proof -
    have "ptrs ?M b \<noteq> ptrs M0 b" using that by (simp add: added_def)
    then show ?thesis by (rule exited_added [OF r e]) (auto simp: active_def)
  qed
  show ?thesis unfolding copy_plan_def using 1 2 3 4 by blast
qed

text \<open>After the copying every bucket has the string the kernel has put into it.\<close>

lemma copied_entries:
  assumes r: "run_ok m A M0 S" and e: "all_exited A S" and ok: "tab_ok m A M0" and nf: "\<not> table_is_full (fst S)"
    and T: "buffer_ok T" "ptrs M0 = tab_pointers T" "table_lens M0 = tab_lens T"
    and inp: "add_input_ok T A"
    and dest: "\<And>b. b \<in> added M0 (fst S) \<Longrightarrow> dest b = str_buf T + (str_buf_sz T + (\<Sum>j<b. new_strings_lens (fst S) j))"
    and fits: "str_buf_sz T + (\<Sum>j<buckets_num A. new_strings_lens (fst S) j) \<le> str_buf_max_sz T"
    and idx: "{..<str_num A} \<subseteq> set is"
    and res: "fold (copy_added A (res_buckets (fst S)) dest) is (m, ptrs (fst S)) = (m', p')"
  shows "entry m' ((fst S)\<lparr>ptrs := p'\<rparr>) b = entry m (fst S) b"
    and "p' b \<noteq> 0 \<Longrightarrow> str_buf T \<le> p' b \<and> p' b + table_lens (fst S) b \<le>
      str_buf T + (str_buf_sz T + (\<Sum>j<buckets_num A. new_strings_lens (fst S) j))"
    and "x < str_buf T \<or> str_buf T + str_buf_max_sz T \<le> x \<Longrightarrow> m' x = m x"
proof -
  let ?M = "fst S" and ?B = "added M0 (fst S)"
  let ?f = "new_strings_lens ?M"
  have plan: "copy_plan A (res_buckets ?M) dest ?B (table_lens ?M) (ptrs ?M)"
    by (rule add_plan [OF r e ok nf T inp dest fits])
  note cr = copy_result [OF plan idx res]
  have lens: "active A i \<Longrightarrow> in_lens A i + 7 < 2 ^ 32" for i using inp by (simp add: add_input_ok_def)
  have f: "?f b = (if b \<in> ?B then pad8 (table_lens ?M b) else 0)" for b by (rule new_lens_eq [OF r e lens])
  have "x < dest c \<or> dest c + pad8 (table_lens ?M c) \<le> x"
    if "x < str_buf T \<or> str_buf T + str_buf_max_sz T \<le> x" "c \<in> ?B" for c
  proof -
    have "c < buckets_num A" using added_bound [OF r e ok] that(2) by auto
    then show ?thesis using that(1) dest [OF that(2)] prefix_sums [of c "buckets_num A" ?f] f [of c] that(2) fits by auto
  qed
  then show "x < str_buf T \<or> str_buf T + str_buf_max_sz T \<le> x \<Longrightarrow> m' x = m x" using cr(4) by blast
  have g: "grows M0 ?M" using r by (simp add: run_ok_def base_ok_def)
  have old: "str_buf T \<le> ptrs ?M b \<and> ptrs ?M b + table_lens ?M b \<le> str_buf T + str_buf_sz T"
    if "b \<notin> ?B" "ptrs ?M b \<noteq> 0" for b
  proof -
    have p: "ptrs ?M b = tab_pointers T b" using that(1) T(2) by (simp add: added_def)
    have "table_lens M0 b \<noteq> 0" using tab_okD(2) [OF ok, of b] that(2) p T(2) by auto
    then have "table_lens ?M b = tab_lens T b" using growsD(2) [OF g, of b] T(3) by simp
    then show ?thesis using T(1) that(2) p unfolding buffer_ok_def by metis
  qed
  show "entry m' (?M\<lparr>ptrs := p'\<rparr>) b = entry m ?M b"
  proof (cases "b \<in> ?B")
    case True
    obtain i where i: "active A i" "ptrs ?M b = add_addr A i" using plan True unfolding copy_plan_def by metis
    then have "dest b \<noteq> ptrs ?M b" using plan True unfolding copy_plan_def by metis
    then have "bytes_at m' (p' b) (table_lens ?M b) = bytes_at m (ptrs ?M b) (table_lens ?M b)"
      using cr(3) [OF True] by simp
    moreover have "p' b \<noteq> 0" using cr(1) [OF True] dest [OF True] T(1) by (simp add: buffer_ok_def)
    moreover have "ptrs ?M b \<noteq> 0" using i(2) inp by (simp add: add_input_ok_def add_addr_def)
    ultimately show ?thesis by (simp add: entry_def)
  next
    case False
    have "m' x = m x" if "ptrs ?M b \<noteq> 0" "ptrs ?M b \<le> x" "x < ptrs ?M b + table_lens ?M b" for x
      using old [OF False that(1)] that dest by (intro cr(4)) (auto simp: add.assoc)
    then have "ptrs ?M b \<noteq> 0 \<Longrightarrow> bytes_at m' (ptrs ?M b) (table_lens ?M b) = bytes_at m (ptrs ?M b) (table_lens ?M b)"
      by (intro bytes_at_cong)
    then show ?thesis using cr(2) [OF False] by (simp add: entry_def)
  qed
  assume nz: "p' b \<noteq> 0"
  show "str_buf T \<le> p' b \<and> p' b + table_lens ?M b \<le> str_buf T + (str_buf_sz T + (\<Sum>j<buckets_num A. ?f j))"
  proof (cases "b \<in> ?B")
    case True
    have "b < buckets_num A" using added_bound [OF r e ok] True by auto
    then show ?thesis using cr(1) [OF True] dest [OF True] prefix_sums [of b "buckets_num A" ?f] f [of b] True
        pad8_ge [of "table_lens ?M b"] by simp
  next
    case False
    then show ?thesis using old [OF False] cr(2) [OF False] nz by simp
  qed
qed

end
