(* ===== verification/Strings_Table_Props.thy ===== *)
theory Strings_Table_Props
  imports Strings_Add_Spec
begin

text \<open>
  Properties of the strings table: \<^verbatim>\<open>addData\<close> inserts a batch of strings into the set of strings of
  the table whatever the interleaving of the device threads, reports a full table exactly when there
  are more strings than buckets, and \<^verbatim>\<open>mergeToOtherTable\<close> computes the union of two tables.
\<close>

section \<open>Putting the kernels together\<close>

definition add_run ::
  "nat list \<Rightarrow> strings_table \<Rightarrow> device \<Rightarrow> add_args \<Rightarrow> (nat \<Rightarrow> nat) \<Rightarrow> add_state" where
  "add_run sched T dev A res = kerAddData (dev_mem dev) A sched (add_mem_of T res (\<lambda>_. 0) (dev_table_is_full dev))"

definition new_strings :: "memory \<Rightarrow> strings_table \<Rightarrow> add_args \<Rightarrow> 8 word list set" where
  "new_strings m T A = str_keys m A - contents m T"

definition new_size :: "memory \<Rightarrow> strings_table \<Rightarrow> add_args \<Rightarrow> nat" where
  "new_size m T A = (\<Sum>s \<in> new_strings m T A. pad8 (length s))"

lemma fill_zero_launch:
  assumes "buffer_ok T" and "schedule (tab_buckets_num T div 256 + 1) 256 order0"
  shows "launch (kerFillZero (tab_buckets_num T)) order0 (buf1 T) = (\<lambda>_. 0)"
proof -
  have n: "tab_buckets_num T < 2 ^ 32" using assms(1) by (simp add: buffer_ok_def)
  have "launch (kerFillZero (tab_buckets_num T)) order0 (buf1 T) =
    (\<lambda>i. if i < tab_buckets_num T then 0 else buf1 T i)"
    by (rule fill_zero.launch_cells [OF assms(2)]) (use grid_256 [OF n] in simp_all)
  then show ?thesis using assms(1) by (auto simp: buffer_ok_def fun_eq_iff)
qed

lemma copy_launch:
  "launch (kerCopyAddedStrings A buckets sz offs sb) order s =
   fold (copy_added A buckets (\<lambda>b. sb + (sz + offs b) mod 2 ^ 32)) (map (\<lambda>(b, t). grid_thread b t) order) s"
  unfolding launch_def kerCopyAddedStrings_def by (simp add: fold_map comp_def case_prod_beta')

lemma grid_indices:
  assumes "n < 2 ^ 32" and "schedule (n div 256 + 1) 256 order"
  shows "{..<n} \<subseteq> set (map (\<lambda>(b, t). grid_thread b t) order)"
proof
  fix i assume "i \<in> {..<n}"
  then have i: "i < n" by simp
  obtain b t where bt: "b < n div 256 + 1" "t < 256" "i = b * 256 + t"
    using index_cover [OF grid_256(1) [OF assms(1)] i] by blast
  then have "(b, t) \<in> set order" using set_schedule [OF assms(2)] by simp
  moreover have "grid_thread b t = i" using bt(3) i assms(1) by (simp add: grid_thread_def)
  ultimately show "i \<in> set (map (\<lambda>(b, t). grid_thread b t) order)" by force
qed

lemma add_run_ok:
  assumes "strings_ok (dev_mem dev) T" and "A = add_args_of T num b offs ls" and "b \<noteq> 0"
  shows "run_ok (dev_mem dev) A (add_mem_of T res (\<lambda>_. 0) (dev_table_is_full dev)) (add_run sched T dev A res)"
    and "tab_ok (dev_mem dev) A (add_mem_of T res (\<lambda>_. 0) (dev_table_is_full dev))"
proof -
  let ?M = "add_mem_of T res (\<lambda>_. 0) (dev_table_is_full dev)"
  have args: "args_ok A" using assms by (simp add: args_ok_def strings_ok_def buffer_ok_def)
  have "tab_ok (dev_mem dev) (tab_args T) (tab_mem T)" and c: "complete ?M"
    using assms(1) by (simp_all add: strings_ok_def complete_def tab_mem_def)
  then show t: "tab_ok (dev_mem dev) A ?M"
    using tab_ok_eq [of A "tab_args T" ?M "tab_mem T" "dev_mem dev" "dev_mem dev"]
    by (simp add: assms(2) tab_args_def tab_mem_def)
  show "run_ok (dev_mem dev) A ?M (add_run sched T dev A res)"
    unfolding add_run_def by (rule kerAddData_ok [OF args t c]) simp
qed

lemma entries_add_mem: "entries m (add_mem_of T r l f) = contents m T"
  by (simp add: entries_def contents_def)

text \<open>\<open>addData\<close> after the zero fill, with the copying as a fold.\<close>

lemma addData_unfold:
  assumes "buffer_ok T" and "schedule (tab_buckets_num T div 256 + 1) 256 order0"
    and A: "A = add_args_of T num b offs ls" and M: "M = fst (add_run sched T dev A res)"
    and mp: "fold (copy_added A (res_buckets M)
        (\<lambda>b. str_buf T + (str_buf_sz T + ExclusiveSum (tab_buckets_num T) (new_strings_lens M) b) mod 2 ^ 32))
      (map (\<lambda>(b, t). grid_thread b t) order1) (dev_mem dev, ptrs M) = (m', p')"
    and tot: "tot = kerCalcTotalAddedLen (tab_buckets_num T)
        (ExclusiveSum (tab_buckets_num T) (new_strings_lens M)) (new_strings_lens M)"
    and T': "T' = T\<lparr>tab_hashes := hashes M, tab_lens := table_lens M, tab_pointers := p',
        buf1 := new_strings_lens M, buf2 := ExclusiveSum (tab_buckets_num T) (new_strings_lens M)\<rparr>"
  shows "addData ExclusiveSum order0 sched order1 T dev num b offs ls res =
    (let dev' = \<lparr>dev_mem = m', dev_table_is_full = table_is_full M\<rparr>
     in if table_is_full M then (Inl TableIsFull, T', dev', res_buckets M)
        else if (str_buf_sz T + tot) mod 2 ^ 32 > str_buf_max_sz T then (Inl StringBufferIsFull, T', dev', res_buckets M)
        else (Inr (), T'\<lparr>str_buf_sz := (str_buf_sz T + tot) mod 2 ^ 32\<rparr>, dev', res_buckets M))"
  unfolding addData_def fill_zero_launch [OF assms(1,2)] copy_launch A [symmetric]
    add_run_def [of sched T dev A res, symmetric] M [symmetric] mp Let_def prod.case tot [symmetric]
  by (simp add: T')

lemma total_added:
  assumes "exclusive_sum_spec E" and "0 < n" and "(\<Sum>j<n. f j) < 2 ^ 32"
  shows "kerCalcTotalAddedLen n (E n f) f = (\<Sum>j<n. f j)" and "b < n \<Longrightarrow> E n f b = (\<Sum>j<b. f j)"
proof -
  have le: "(\<Sum>j<b. f j) + f b \<le> (\<Sum>j<n. f j)" if "b < n" for b using prefix_sums [OF that] .
  show E: "b < n \<Longrightarrow> E n f b = (\<Sum>j<b. f j)" for b
    using assms(1,3) le [of b] by (simp add: exclusive_sum_spec_def)
  obtain k where k: "n = Suc k" using assms(2) by (cases n) auto
  then show "kerCalcTotalAddedLen n (E n f) f = (\<Sum>j<n. f j)"
    using E [of k] assms(3) by (simp add: kerCalcTotalAddedLen_def)
qed

text \<open>What the kernel has done before the copying, in terms of the table.\<close>

lemma add_run_spec:
  assumes ok: "strings_ok (dev_mem dev) T" and A: "A = add_args_of T num b offs ls"
    and inp: "add_input_ok T A" and nf: "\<not> dev_table_is_full dev"
    and e: "all_exited A (add_run sched T dev A res)"
  defines "m \<equiv> dev_mem dev" and "M \<equiv> fst (add_run sched T dev A res)"
  shows "table_is_full M \<longleftrightarrow> tab_buckets_num T < card (contents m T \<union> str_keys m A)"
    and "\<not> table_is_full M \<Longrightarrow> entries m M = contents m T \<union> str_keys m A"
    and "\<not> table_is_full M \<Longrightarrow> (\<Sum>j < tab_buckets_num T. new_strings_lens M j) = new_size m T A"
proof -
  let ?M0 = "add_mem_of T res (\<lambda>_. 0) (dev_table_is_full dev)"
  have "b \<noteq> 0" using inp A by (simp add: add_input_ok_def)
  note run = add_run_ok [OF ok A this, of res, folded m_def]
  show "table_is_full M \<longleftrightarrow> tab_buckets_num T < card (contents m T \<union> str_keys m A)"
    using exited_full_iff [OF run(1) e run(2)] nf unfolding M_def by (simp add: entries_add_mem A)
  assume f: "\<not> table_is_full M"
  have "str_keys m A \<subseteq> entries m M"
    using exited_result [OF run(1) e] f unfolding str_keys_def entries_def M_def by blast
  then show en: "entries m M = contents m T \<union> str_keys m A"
    using exited_entries [OF run(1) e run(2)] unfolding M_def entries_add_mem by blast
  have "(\<Sum>j < tab_buckets_num T. new_strings_lens M j) = (\<Sum>s \<in> entries m M - contents m T. pad8 (length s))"
    using sum_new_lens [OF run(1) e run(2)] inp unfolding M_def entries_add_mem
    by (simp add: A add_input_ok_def)
  then show "(\<Sum>j < tab_buckets_num T. new_strings_lens M j) = new_size m T A"
    unfolding en new_size_def new_strings_def by (simp add: Un_Diff)
qed

definition add_outcome :: "memory \<Rightarrow> strings_table \<Rightarrow> add_args \<Rightarrow> table_error + unit" where
  "add_outcome m T A =
     (if tab_buckets_num T < card (contents m T \<union> str_keys m A) then Inl TableIsFull
      else if str_buf_max_sz T < str_buf_sz T + new_size m T A then Inl StringBufferIsFull
      else Inr ())"

definition inserted ::
  "memory \<Rightarrow> strings_table \<Rightarrow> add_args \<Rightarrow> memory \<Rightarrow> strings_table \<Rightarrow> (nat \<Rightarrow> nat) \<Rightarrow> bool" where
  "inserted m T A m' T' res \<longleftrightarrow> strings_ok m' T' \<and>
     contents m' T' = contents m T \<union> str_keys m A \<and>
     (\<forall>b s. tab_entry m T b = Some s \<longrightarrow> tab_entry m' T' b = Some s) \<and>
     (\<forall>i. active A i \<longrightarrow> tab_entry m' T' (res i) = Some (str_key m A i)) \<and>
     str_buf_sz T' = str_buf_sz T + new_size m T A \<and>
     str_buf T' = str_buf T \<and> str_buf_max_sz T' = str_buf_max_sz T \<and> tab_buckets_num T' = tab_buckets_num T \<and>
     tab_offsets T' = tab_offsets T \<and>
     (\<forall>x. x < str_buf T \<or> str_buf T + str_buf_max_sz T \<le> x \<longrightarrow> m' x = m x)"

lemma inserted_intro:
  assumes ok: "strings_ok (dev_mem dev) T" and A: "A = add_args_of T num b offs ls"
    and inp: "add_input_ok T A" and nf: "\<not> dev_table_is_full dev"
    and e: "all_exited A (add_run sched T dev A res)" and M: "M = fst (add_run sched T dev A res)"
    and f: "\<not> table_is_full M" and m: "m = dev_mem dev"
    and fits: "str_buf_sz T + new_size m T A \<le> str_buf_max_sz T"
    and en: "\<And>b. entry m' (M\<lparr>ptrs := p'\<rparr>) b = entry m M b"
    and bnd: "\<And>b. p' b \<noteq> 0 \<Longrightarrow> str_buf T \<le> p' b \<and> p' b + table_lens M b \<le> str_buf T + (str_buf_sz T + new_size m T A)"
    and T': "T' = T\<lparr>tab_hashes := hashes M, tab_lens := table_lens M, tab_pointers := p',
        buf1 := new_strings_lens M, buf2 := x, str_buf_sz := str_buf_sz T + new_size m T A\<rparr>"
    and frame: "\<And>x. x < str_buf T \<or> str_buf T + str_buf_max_sz T \<le> x \<Longrightarrow> m' x = m x"
  shows "inserted m T A m' T' (res_buckets M)"
proof -
  let ?M0 = "add_mem_of T res (\<lambda>_. 0) (dev_table_is_full dev)"
  have "b \<noteq> 0" using inp A by (simp add: add_input_ok_def)
  note run = add_run_ok [OF ok A this, of res, folded m]
  have okM: "tab_ok m A M" and g: "grows ?M0 M" using run(1) by (simp_all add: run_ok_def base_ok_def M)
  have ent: "tab_entry m' T' b = entry m M b" for b
    unfolding en [symmetric] by (simp add: T' tab_entry_simp entry_def)
  have "new_strings_lens M b = 0" if "tab_buckets_num T \<le> b" for b
    using new_lens_eq [OF run(1) e, of b] added_bound [OF run(1) e run(2)] that inp
    by (auto simp: M A add_input_ok_def)
  moreover have "8 dvd new_size m T A" unfolding new_size_def by (rule dvd_sum) simp
  ultimately have "buffer_ok T'"
    using ok bnd fits unfolding strings_ok_def buffer_ok_def T' by (auto intro!: dvd_add)
  moreover have "tab_ok m' (tab_args T') (tab_mem T') = tab_ok m A M"
    by (rule tab_ok_eq) (simp_all add: tab_args_def tab_mem_def A ent, simp_all add: T')
  moreover have "complete (tab_mem T')"
  proof -
    have "ptrs M b \<noteq> 0 \<longleftrightarrow> p' b \<noteq> 0" for b using en [of b] by (auto simp: entry_def split: if_splits)
    moreover have "complete M" unfolding M by (rule exited_complete [OF run(1) e])
    ultimately show ?thesis by (simp add: complete_def tab_mem_def T' add_mem_of_def)
  qed
  ultimately have "strings_ok m' T'" using okM by (simp add: strings_ok_def)
  moreover have "contents m' T' = contents m T \<union> str_keys m A"
    using add_run_spec(2) [OF ok A inp nf e, folded M m, OF f] unfolding contents_def entries_def ent by simp
  moreover have "tab_entry m' T' b = Some s" if "tab_entry m T b = Some s" for b s
    unfolding ent by (rule entry_stable [OF g run(2)]) (simp add: that)
  moreover have "tab_entry m' T' (res_buckets M i) = Some (str_key m A i)" if "active A i" for i
    unfolding ent using exited_result [OF run(1) e] f that by (simp add: M active_def)
  ultimately show ?thesis using frame by (simp add: inserted_def T')
qed

lemma addData_spec:
  assumes ok: "strings_ok (dev_mem dev) T" and A: "A = add_args_of T num b offs ls"
    and inp: "add_input_ok T A" and nf: "\<not> dev_table_is_full dev" and E: "exclusive_sum_spec E"
    and o0: "schedule (tab_buckets_num T div 256 + 1) 256 order0" and o1: "schedule (num div 256 + 1) 256 order1"
    and e: "all_exited A (add_run sched T dev A res)"
    and small: "str_buf_sz T + new_size (dev_mem dev) T A < 2 ^ 32"
    and r: "addData E order0 sched order1 T dev num b offs ls res = (r, T', dev', res')"
  shows "r = add_outcome (dev_mem dev) T A"
    and "r = Inr () \<Longrightarrow> inserted (dev_mem dev) T A (dev_mem dev') T' res' \<and> \<not> dev_table_is_full dev'"
proof -
  define m where "m = dev_mem dev"
  define M where "M = fst (add_run sched T dev A res)"
  let ?n = "tab_buckets_num T" and ?f = "new_strings_lens M"
  let ?dest = "\<lambda>b. str_buf T + (str_buf_sz T + E ?n ?f b) mod 2 ^ 32"
  define tot where "tot = kerCalcTotalAddedLen ?n (E ?n ?f) ?f"
  obtain m' p' where mp: "fold (copy_added A (res_buckets M) ?dest)
      (map (\<lambda>(b, t). grid_thread b t) order1) (m, ptrs M) = (m', p')" by fastforce
  have buf: "buffer_ok T" and n: "0 < ?n" using ok by (simp_all add: strings_ok_def buffer_ok_def)
  note un = addData_unfold [where ExclusiveSum = E, OF buf o0 A M_def mp [unfolded m_def] tot_def refl, unfolded r Let_def]
  note spec = add_run_spec [OF ok A inp nf e, folded m_def M_def]
  have tot: "tot = new_size m T A" and off: "b < ?n \<Longrightarrow> E ?n ?f b = (\<Sum>j<b. ?f j)" if "\<not> table_is_full M" for b
    using total_added [OF E n, of ?f] spec(3) [OF that] small by (simp_all add: tot_def m_def)
  show r': "r = add_outcome (dev_mem dev) T A"
  proof (cases "table_is_full M")
    case True
    then show ?thesis using un spec(1) by (simp add: add_outcome_def m_def)
  next
    case False
    then show ?thesis using un spec(1) tot [OF False] small
      by (simp add: add_outcome_def m_def split: if_splits)
  qed
  assume "r = Inr ()"
  then have f: "\<not> table_is_full M" and fits: "str_buf_sz T + new_size m T A \<le> str_buf_max_sz T"
    using r' spec(1) by (auto simp: add_outcome_def m_def split: if_splits)
  have res: "T' = T\<lparr>tab_hashes := hashes M, tab_lens := table_lens M, tab_pointers := p',
        buf1 := ?f, buf2 := E ?n ?f, str_buf_sz := str_buf_sz T + new_size m T A\<rparr>"
      "dev' = \<lparr>dev_mem = m', dev_table_is_full = False\<rparr>" "res' = res_buckets M"
    using un f fits tot [OF f] small by (simp_all add: m_def split: if_splits)
  have b0: "b \<noteq> 0" and num: "num < 2 ^ 32" using inp A by (simp_all add: add_input_ok_def)
  note run = add_run_ok [OF ok A b0, of res, folded m_def]
  have dest: "?dest b = str_buf T + (str_buf_sz T + (\<Sum>j<b. ?f j))"
    if "b \<in> added (add_mem_of T res (\<lambda>_. 0) (dev_table_is_full dev)) M" for b
  proof -
    have "b < ?n" using added_bound [OF run(1) e run(2)] that by (auto simp: M_def A)
    then show ?thesis using off [OF f] prefix_sums [of b ?n ?f] spec(3) [OF f] small by (simp add: m_def)
  qed
  have M: "M = fst (add_run sched T dev A res)" by (simp add: M_def)
  have idx: "{..<str_num A} \<subseteq> set (map (\<lambda>(b, t). grid_thread b t) order1)"
    using grid_indices [OF num o1] by (simp add: A)
  note ce = copied_entries [OF run(1) e run(2) _ buf _ _ inp, folded M, OF f _ _ dest _ idx mp]
  have "inserted m T A m' T' (res_buckets M)"
    by (rule inserted_intro [OF ok A inp nf e M f m_def fits _ _ res(1)])
      (use ce spec(3) [OF f] fits in \<open>simp_all add: A\<close>)
  then show "inserted (dev_mem dev) T A (dev_mem dev') T' res' \<and> \<not> dev_table_is_full dev'"
    by (simp add: res m_def)
qed

section \<open>Fair schedules\<close>

text \<open>Every thread gets as many turns as it can need.\<close>

definition fair :: "add_args \<Rightarrow> nat list \<Rightarrow> bool" where
  "fair A sched \<longleftrightarrow> (\<forall>i < add_threads A. 9 * buckets_num A + 1 \<le> count_list sched i)"

lemma add_run_exits:
  assumes ok: "strings_ok (dev_mem dev) T" and A: "A = add_args_of T num b offs ls" and "b \<noteq> 0" and "fair A sched"
  shows "all_exited A (add_run sched T dev A res)"
proof -
  have "args_ok A" using assms by (simp add: args_ok_def strings_ok_def buffer_ok_def)
  moreover have "complete (add_mem_of T res (\<lambda>_. 0) (dev_table_is_full dev))"
    using ok by (simp add: strings_ok_def complete_def tab_mem_def)
  ultimately show ?thesis
    unfolding add_run_def using add_run_ok(2) [OF ok A assms(3)] assms(4)
    by (intro kerAddData_exits) (simp_all add: fair_def)
qed

lemma count_rounds: "count_list (concat (replicate k [0..<n])) i = (if i < n then k else 0)"
proof -
  have "count_list [0..<n] i = (if i < n then 1 else 0)" by (induction n) (auto simp: count_list_append)
  then show ?thesis by (induction k) (auto simp: count_list_append)
qed

section \<open>Strings that are not inserted\<close>

lemma idle_res:
  assumes "base_ok m A M0 S" and "\<not> active A i"
  shows "res_buckets (fst (fold (add_turn m A) sched S)) i = res_buckets (fst S) i"
  using assms(1)
proof (induction sched arbitrary: S)
  case (Cons j sched)
  have t: "thread_ok m A j (fst S) (snd S j)" using Cons.prems by (simp add: base_ok_def)
  have "res_buckets (fst (add_step m A j (fst S) (snd S j))) i = res_buckets (fst S) i"
    using t assms(2) by (cases "thread_at (snd S j)") (auto simp: add_step.simps thread_ok_def Let_def active_def)
  then have "res_buckets (fst (add_turn m A j S)) i = res_buckets (fst S) i" by (simp add: add_turn_def Let_def)
  then show ?case using Cons.IH [OF base_ok_turn [OF Cons.prems]] by simp
qed simp

lemma addData_res:
  assumes ok: "strings_ok (dev_mem dev) T" and A: "A = add_args_of T num b offs ls" and b: "b \<noteq> 0"
    and o0: "schedule (tab_buckets_num T div 256 + 1) 256 order0"
    and r: "addData E order0 sched order1 T dev num b offs ls res = (r, T', dev', res')" and i: "\<not> active A i"
  shows "res' i = res i"
proof -
  define M where "M = fst (add_run sched T dev A res)"
  obtain m' p' where mp: "fold (copy_added A (res_buckets M)
      (\<lambda>b. str_buf T + (str_buf_sz T + E (tab_buckets_num T) (new_strings_lens M) b) mod 2 ^ 32))
      (map (\<lambda>(b, t). grid_thread b t) order1) (dev_mem dev, ptrs M) = (m', p')" by fastforce
  have buf: "buffer_ok T" using ok by (simp add: strings_ok_def)
  have "res' = res_buckets M"
    using addData_unfold [where ExclusiveSum = E, OF buf o0 A M_def mp refl refl] r by (simp add: Let_def split: if_splits)
  moreover have "base_ok (dev_mem dev) A (add_mem_of T res (\<lambda>_. 0) (dev_table_is_full dev))
      (add_mem_of T res (\<lambda>_. 0) (dev_table_is_full dev), \<lambda>_. thread_init)"
  proof -
    have "args_ok A" using ok A b by (simp add: args_ok_def strings_ok_def buffer_ok_def)
    moreover have "complete (add_mem_of T res (\<lambda>_. 0) (dev_table_is_full dev))"
      using ok by (simp add: strings_ok_def complete_def tab_mem_def)
    ultimately show ?thesis using run_ok_init add_run_ok(2) [OF ok A b] by (simp add: run_ok_def)
  qed
  from idle_res [OF this i, of sched] have "res_buckets M i = res i"
    by (simp add: M_def add_run_def kerAddData_def add_mem_of_def)
  ultimately show ?thesis by simp
qed

section \<open>Merging tables\<close>

definition merge_args :: "strings_table \<Rightarrow> strings_table \<Rightarrow> (nat \<times> nat) list \<Rightarrow> add_args" where
  "merge_args T other order =
     add_args_of other (tab_buckets_num T) (str_buf T) (tab_offsets (calcOffsets order T)) (tab_lens T)"

text \<open>The string buffers of the two tables do not overlap.\<close>

definition apart :: "strings_table \<Rightarrow> strings_table \<Rightarrow> bool" where
  "apart T T' \<longleftrightarrow> str_buf T + str_buf_max_sz T \<le> str_buf T' \<or> str_buf T' + str_buf_max_sz T' \<le> str_buf T"

lemma calcOffsets_eq:
  assumes "buffer_ok T" and "schedule (tab_buckets_num T div 256 + 1) 256 order" and "b < tab_buckets_num T"
    and "tab_pointers T b \<noteq> 0"
  shows "str_buf T + tab_offsets (calcOffsets order T) b = tab_pointers T b"
proof -
  have n: "tab_buckets_num T < 2 ^ 32" using assms(1) by (simp add: buffer_ok_def)
  have p: "str_buf T \<le> tab_pointers T b" "tab_pointers T b \<le> str_buf T + str_buf_sz T"
    "str_buf_sz T \<le> str_buf_max_sz T" "str_buf_max_sz T < 2 ^ 32" "str_buf T + str_buf_max_sz T < 2 ^ 64"
    using assms(1,4) unfolding buffer_ok_def by (auto dest: spec [of _ b])
  have "tab_offsets (calcOffsets order T) b = sub64 (tab_pointers T b) (str_buf T) mod 2 ^ 32"
    using calc_offsets.launch_cells [OF assms(2), of "tab_buckets_num T" "str_buf T" "tab_pointers T" "tab_offsets T"]
      grid_256 [OF n] assms(3) by (simp add: calcOffsets_def)
  also have "\<dots> = tab_pointers T b - str_buf T"
    using p by (simp add: sub64_exact)
  finally show ?thesis using p by simp
qed

lemma tab_entry_None: "tab_entry m T b = None \<longleftrightarrow> tab_pointers T b = 0"
  by (simp add: tab_entry_simp)

lemma merge_args_active:
  assumes ok: "strings_ok m T" and o: "schedule (tab_buckets_num T div 256 + 1) 256 order"
  shows "active (merge_args T other order) b \<longleftrightarrow> tab_entry m T b \<noteq> None"
    and "tab_entry m T b = Some s \<Longrightarrow> str_key m (merge_args T other order) b = s"
    and "tab_entry m T b \<noteq> None \<Longrightarrow> add_addr (merge_args T other order) b = tab_pointers T b"
proof -
  have buf: "buffer_ok T" and t: "tab_ok m (tab_args T) (tab_mem T)" and c: "complete (tab_mem T)"
    using ok by (simp_all add: strings_ok_def)
  have lt: "b < tab_buckets_num T" if "tab_entry m T b = Some s" for s
    using entry_bound [OF t] that by (simp add: tab_entry_def tab_args_def)
  show addr: "add_addr (merge_args T other order) b = tab_pointers T b" if en: "tab_entry m T b \<noteq> None"
  proof -
    have "b < tab_buckets_num T" using en lt by blast
    moreover have "tab_pointers T b \<noteq> 0" using en by (simp add: tab_entry_None)
    ultimately show ?thesis using calcOffsets_eq [OF buf o] by (simp add: add_addr_def merge_args_def)
  qed
  show "tab_entry m T b = Some s \<Longrightarrow> str_key m (merge_args T other order) b = s"
    using addr by (auto simp: str_key_def merge_args_def tab_entry_simp split: if_splits)
  have "tab_lens T b \<noteq> 0 \<longleftrightarrow> tab_pointers T b \<noteq> 0"
  proof
    assume "tab_lens T b \<noteq> 0"
    then have "tab_hashes T b \<noteq> 0" using tab_okD(1) [OF t, of b] by (auto simp: tab_mem_def)
    then show "tab_pointers T b \<noteq> 0" using c by (simp add: complete_def tab_mem_def)
  next
    assume "tab_pointers T b \<noteq> 0"
    then show "tab_lens T b \<noteq> 0" using tab_okD(2) [OF t, of b] by (auto simp: tab_mem_def)
  qed
  then show "active (merge_args T other order) b \<longleftrightarrow> tab_entry m T b \<noteq> None"
    using lt by (cases "tab_entry m T b") (simp_all add: active_def merge_args_def tab_entry_simp split: if_splits)
qed

lemma merge_args_keys:
  assumes "strings_ok m T" and "schedule (tab_buckets_num T div 256 + 1) 256 order"
  shows "str_keys m (merge_args T other order) = contents m T"
proof -
  note ma = merge_args_active [OF assms, where other = other]
  have "str_keys m (merge_args T other order) = {str_key m (merge_args T other order) b | b. tab_entry m T b \<noteq> None}"
    unfolding str_keys_def ma(1) [symmetric] active_def ..
  also have "\<dots> = contents m T" unfolding contents_def using ma(2) by force
  finally show ?thesis .
qed

lemma merge_input_ok:
  assumes ok: "strings_ok m T" and o: "schedule (tab_buckets_num T div 256 + 1) 256 order" and ap: "apart T other"
  shows "add_input_ok other (merge_args T other order)"
proof -
  have buf: "buffer_ok T" using ok by (simp add: strings_ok_def)
  have "in_lens (merge_args T other order) b + 7 < 2 ^ 32 \<and>
      (add_addr (merge_args T other order) b + in_lens (merge_args T other order) b \<le> str_buf other \<or>
       str_buf other + str_buf_max_sz other \<le> add_addr (merge_args T other order) b)"
    if "active (merge_args T other order) b" for b
  proof -
    have e: "tab_entry m T b \<noteq> None" using merge_args_active(1) [OF ok o] that by simp
    then have a: "add_addr (merge_args T other order) b = tab_pointers T b" and nz: "tab_pointers T b \<noteq> 0"
      using merge_args_active(3) [OF ok o e] by (simp_all add: tab_entry_None)
    then have p: "str_buf T \<le> tab_pointers T b" "tab_pointers T b + tab_lens T b \<le> str_buf T + str_buf_sz T"
      "str_buf_sz T \<le> str_buf_max_sz T" "str_buf_max_sz T < 2 ^ 32" "8 dvd str_buf_sz T"
      using buf unfolding buffer_ok_def by blast+
    have "str_buf_sz T + 7 < 2 ^ 32"
    proof -
      obtain k where k: "str_buf_sz T = 8 * k" using p(5) by (auto elim: dvdE)
      then have "8 * k < 2 ^ 32" using p(3,4) by linarith
      then have "k < 2 ^ 29" by simp
      then show ?thesis using k by simp
    qed
    then show ?thesis using p ap unfolding a apart_def by (auto simp: merge_args_def)
  qed
  then show ?thesis using buf by (simp add: add_input_ok_def merge_args_def buffer_ok_def)
qed

section \<open>Properties\<close>

text \<open>
  (C23) \<^verbatim>\<open>addData\<close> inserts a batch of strings.  Whatever the interleaving of the device threads, as long
  as every thread gets its turns, the call throws \<^verbatim>\<open>table is full\<close> exactly when the old and the new
  strings together are more than the buckets, and \<^verbatim>\<open>table string buffer is full\<close> exactly when the new
  strings, rounded up to eight bytes, do not fit.  Otherwise the table then holds the old and the new strings,
  no bucket has lost its string, the bucket reported for a string of the batch holds it, and no byte outside
  the string buffer of the table has changed.
\<close>

theorem addData_inserts:
  assumes "strings_ok (dev_mem dev) T" and "A = add_args_of T num b offs ls"
    and "add_input_ok T A" and "\<not> dev_table_is_full dev" and "exclusive_sum_spec E"
    and "schedule (tab_buckets_num T div 256 + 1) 256 order0" and "schedule (num div 256 + 1) 256 order1"
    and "fair A sched" and "str_buf_sz T + new_size (dev_mem dev) T A < 2 ^ 32"
    and "addData E order0 sched order1 T dev num b offs ls res = (r, T', dev', res')"
  shows "r = add_outcome (dev_mem dev) T A \<and>
    (r = Inr () \<longrightarrow> inserted (dev_mem dev) T A (dev_mem dev') T' res' \<and> \<not> dev_table_is_full dev')"
proof -
  have "b \<noteq> 0" using assms(2,3) by (simp add: add_input_ok_def)
  with addData_spec [OF assms(1-7) add_run_exits [OF assms(1,2) _ assms(8)] assms(9,10)]
  show ?thesis by blast
qed

text \<open>
  (C24) Grouping is correct: after a successful \<^verbatim>\<open>addData\<close> two strings of the batch are in the same bucket
  if and only if they are equal, although the threads compare hashes first and take no lock.
\<close>

theorem addData_groups:
  assumes "strings_ok (dev_mem dev) T" and "A = add_args_of T num b offs ls"
    and "add_input_ok T A" and "\<not> dev_table_is_full dev" and "exclusive_sum_spec E"
    and "schedule (tab_buckets_num T div 256 + 1) 256 order0" and "schedule (num div 256 + 1) 256 order1"
    and "fair A sched" and "str_buf_sz T + new_size (dev_mem dev) T A < 2 ^ 32"
    and "addData E order0 sched order1 T dev num b offs ls res = (Inr (), T', dev', res')"
    and "active A i" and "active A j"
  shows "res' i = res' j \<longleftrightarrow> str_key (dev_mem dev) A i = str_key (dev_mem dev) A j"
proof -
  have "b \<noteq> 0" using assms(2,3) by (simp add: add_input_ok_def)
  with addData_spec(2) [OF assms(1-7) add_run_exits [OF assms(1,2) _ assms(8)] assms(9,10)]
  have ins: "inserted (dev_mem dev) T A (dev_mem dev') T' res'" by blast
  then have "tab_entry (dev_mem dev') T' (res' i) = Some (str_key (dev_mem dev) A i)"
    "tab_entry (dev_mem dev') T' (res' j) = Some (str_key (dev_mem dev) A j)" "strings_ok (dev_mem dev') T'"
    using assms(11,12) by (simp_all add: inserted_def)
  then show ?thesis using strings_ok_unique by fastforce
qed

text \<open>
  (C25) The lock-free insertion terminates: on any consistent table every thread of \<^verbatim>\<open>kerAddData\<close>
  has returned once it has had nine turns per bucket and one more, in whatever order the turns come,
  also when the table is full.
\<close>

theorem kerAddData_returns:
  assumes "strings_ok m T" and "A = add_args_of T num b offs ls" and "b \<noteq> 0"
    and "\<forall>i < add_threads A. 9 * tab_buckets_num T + 1 \<le> count_list sched i"
  shows "all_exited A (kerAddData m A sched (add_mem_of T res (\<lambda>_. 0) full))"
proof -
  let ?dev = "\<lparr>dev_mem = m, dev_table_is_full = full\<rparr>"
  have "fair A sched" using assms(2,4) by (simp add: fair_def)
  then show ?thesis using add_run_exits [of ?dev T A num b offs ls sched res] assms(1-3) by (simp add: add_run_def)
qed

text \<open>
  (C26) \<^verbatim>\<open>mergeToOtherTable\<close> makes the other table the union of both.  The result maps every bucket of
  this table that has a string to the bucket of the other table that holds the same string, and every
  empty bucket to the reserved number \<^verbatim>\<open>~0\<close>.
\<close>

theorem mergeToOtherTable_union:
  assumes "strings_ok (dev_mem dev) T" and "strings_ok (dev_mem dev) other" and "apart T other"
    and "\<not> dev_table_is_full dev" and "exclusive_sum_spec E"
    and "schedule (tab_buckets_num T div 256 + 1) 256 order"
    and "schedule (tab_buckets_num other div 256 + 1) 256 order0"
    and "fair (merge_args T other order) sched"
    and "str_buf_sz other + new_size (dev_mem dev) other (merge_args T other order) < 2 ^ 32"
    and "mergeToOtherTable E order order0 sched order T other dev res = (r, T', other', dev', res')"
  shows "(r = Inl TableIsFull \<longleftrightarrow> tab_buckets_num other < card (contents (dev_mem dev) other \<union> contents (dev_mem dev) T)) \<and>
    (r = Inr () \<longrightarrow> strings_ok (dev_mem dev') other' \<and>
       contents (dev_mem dev') other' = contents (dev_mem dev) other \<union> contents (dev_mem dev) T \<and>
       (\<forall>b s. tab_entry (dev_mem dev) T b = Some s \<longrightarrow> tab_entry (dev_mem dev') other' (res' b) = Some s) \<and>
       (\<forall>b < tab_buckets_num T. tab_entry (dev_mem dev) T b = None \<longrightarrow> res' b = 2 ^ 32 - 1))"
proof -
  let ?m = "dev_mem dev" and ?A = "merge_args T other order" and ?n = "tab_buckets_num T"
  let ?res0 = "launch (kerFillEmptyResBucket ?n) order res"
  have buf: "buffer_ok T" using assms(1) by (simp add: strings_ok_def)
  then have n: "?n < 2 ^ 32" and sb: "str_buf T \<noteq> 0" by (simp_all add: buffer_ok_def)
  have inp: "add_input_ok other ?A" by (rule merge_input_ok [OF assms(1,6,3)])
  have add: "addData E order0 sched order other dev ?n (str_buf T) (tab_offsets (calcOffsets order T)) (tab_lens T) ?res0
      = (r, other', dev', res')"
    using assms(10) by (simp add: mergeToOtherTable_def Let_def calcOffsets_def split: prod.splits)
  note ad = addData_spec [OF assms(2) merge_args_def inp assms(4,5,7,6)
      add_run_exits [OF assms(2) merge_args_def sb assms(8)] assms(9) add]
  have fe: "?res0 b = 2 ^ 32 - 1" if "b < ?n" for b
    using fill_empty.launch_cells [OF assms(6), of ?n res] grid_256 [OF n] that by simp
  have "res' b = 2 ^ 32 - 1" if "b < ?n" "tab_entry ?m T b = None" for b
    using addData_res [OF assms(2) merge_args_def sb assms(7) add, of b] fe [OF that(1)]
      merge_args_active(1) [OF assms(1,6), where other = other and b = b] that(2) by simp
  then show ?thesis
    using ad merge_args_keys [OF assms(1,6), where other = other] merge_args_active(1,2) [OF assms(1,6), where other = other]
    by (auto simp: add_outcome_def inserted_def)
qed

text \<open>
  (C27) The flag \<^verbatim>\<open>table_is_full\<close> is a global variable of the device that no code resets: once it has
  been set, every later \<^verbatim>\<open>addData\<close> throws, also on another or an erased table and for an empty batch.
\<close>

theorem table_is_full_sticks:
  assumes "dev_table_is_full dev"
  shows "fst (addData E order0 sched order1 T dev num b offs ls res) = Inl TableIsFull \<and>
    dev_table_is_full (fst (snd (snd (addData E order0 sched order1 T dev num b offs ls res))))"
proof -
  have turn: "table_is_full (fst S) \<Longrightarrow> table_is_full (fst (add_turn m A i S))" for m A i S
    by (cases "thread_at (snd S i)") (simp_all add: add_turn_def add_step.simps Let_def)
  have run: "table_is_full (fst S) \<Longrightarrow> table_is_full (fst (fold (add_turn m A) sched S))" for m A S
    by (induction sched arbitrary: S) (simp_all add: turn)
  show ?thesis
    using run [of "(add_mem_of T res x True, \<lambda>_. thread_init)" for x] assms
    unfolding addData_def kerAddData_def by (simp add: Let_def split: prod.split)
qed

section \<open>Examples\<close>

text \<open>An erased table of two buckets, and two strings of one byte each.\<close>

definition demo_table :: "nat \<Rightarrow> strings_table" where
  "demo_table addr = erase (thread_ids 1 256) (strings_table_new 2 1024
     \<lparr>tab_buckets_num = 0, str_buf_sz = 0, str_buf_max_sz = 0, tab_hashes = \<lambda>_. 0, tab_lens = \<lambda>_. 0,
      tab_offsets = \<lambda>_. 0, tab_pointers = \<lambda>_. 0, buf1 = \<lambda>_. 0, buf2 = \<lambda>_. 0, str_buf = addr\<rparr>)"

definition demo_sched :: "nat list" where
  "demo_sched = concat (replicate 19 [0..<256])"

definition demo_sum :: "nat \<Rightarrow> (nat \<Rightarrow> nat) \<Rightarrow> nat \<Rightarrow> nat" where
  "demo_sum n f i = (\<Sum>j<i. f j) mod 2 ^ 32"

definition demo_dev :: device where
  "demo_dev = \<lparr>dev_mem = word_of_nat, dev_table_is_full = False\<rparr>"

lemma demo_table_fields [simp]:
  "tab_buckets_num (demo_table a) = 2" "str_buf (demo_table a) = a" "str_buf_max_sz (demo_table a) = 1024"
  "str_buf_sz (demo_table a) = 0"
  by (simp_all add: demo_table_def erase_def strings_table_new_def split: prod.split)

lemma demo_table_ok:
  assumes "a \<noteq> 0" and "8 dvd a" and "a < 2 ^ 32"
  shows "strings_ok m (demo_table a)" and "contents m (demo_table a) = {}"
proof -
  have "raw_ok (strings_table_new 2 1024
     \<lparr>tab_buckets_num = 0, str_buf_sz = 0, str_buf_max_sz = 0, tab_hashes = \<lambda>_. 0, tab_lens = \<lambda>_. 0,
      tab_offsets = \<lambda>_. 0, tab_pointers = \<lambda>_. 0, buf1 = \<lambda>_. 0, buf2 = \<lambda>_. 0, str_buf = a\<rparr>)"
    using assms by (simp add: raw_ok_def strings_table_new_def)
  from erase_spec [OF this, of "thread_ids 1 256" m]
  show "strings_ok m (demo_table a)" and "contents m (demo_table a) = {}"
    by (simp_all add: demo_table_def strings_table_new_def schedule_def)
qed

lemma demo_schedule [simp]: "schedule (Suc 0) 256 (thread_ids (Suc 0) 256)"
  by (simp add: schedule_def)

lemma demo_fair: "add_threads A = 256 \<Longrightarrow> buckets_num A \<le> 2 \<Longrightarrow> fair A demo_sched"
  by (simp add: fair_def demo_sched_def count_rounds)

lemma demo_sum_spec [simp]: "exclusive_sum_spec demo_sum"
  by (simp add: exclusive_sum_spec_def demo_sum_def)

definition demo_args :: "nat \<Rightarrow> add_args" where
  "demo_args a = add_args_of (demo_table a) 2 128 (\<lambda>i. 8 * i) (\<lambda>_. 1)"

lemma bytes_at_one [simp]: "bytes_at m a (Suc 0) = [m a]"
  by (simp add: bytes_at_def)

lemma demo_key: "str_key word_of_nat (demo_args a) i = [word_of_nat (128 + 8 * i)]"
  by (simp add: str_key_def demo_args_def add_addr_def)

lemma demo_keys: "str_keys word_of_nat (demo_args a) = {[128], [136]}"
proof -
  have "{i. i < str_num (demo_args a) \<and> in_lens (demo_args a) i \<noteq> 0} = {0, 1}"
    by (auto simp: demo_args_def)
  then have "str_keys word_of_nat (demo_args a) = (\<lambda>i. [word_of_nat (128 + 8 * i)]) ` {0, 1}"
    unfolding str_keys_def demo_key setcompr_eq_image by simp
  then show ?thesis by simp
qed

lemma demo_pre:
  shows "add_input_ok (demo_table 4096) (demo_args 4096)" and "fair (demo_args 4096) demo_sched"
    and "new_size word_of_nat (demo_table 4096) (demo_args 4096) = 16"
    and "add_outcome word_of_nat (demo_table 4096) (demo_args 4096) = Inr ()"
proof -
  show "add_input_ok (demo_table 4096) (demo_args 4096)"
    by (simp add: add_input_ok_def demo_args_def active_def add_addr_def)
  show "fair (demo_args 4096) demo_sched" by (rule demo_fair) (simp_all add: demo_args_def add_threads_def)
  have c: "contents word_of_nat (demo_table 4096) = {}" by (rule demo_table_ok) simp_all
  show sz: "new_size word_of_nat (demo_table 4096) (demo_args 4096) = 16"
    by (simp add: new_size_def new_strings_def demo_keys c pad8_def)
  show "add_outcome word_of_nat (demo_table 4096) (demo_args 4096) = Inr ()"
    by (simp add: add_outcome_def sz demo_keys c)
qed

theorem addData_inserts_witness:
  "\<exists>T' dev' res'. addData demo_sum (thread_ids 1 256) demo_sched (thread_ids 1 256) (demo_table 4096) demo_dev
       2 128 (\<lambda>i. 8 * i) (\<lambda>_. 1) (\<lambda>_. 0) = (Inr (), T', dev', res') \<and>
     contents (dev_mem dev') T' = {[128], [136]} \<and> str_buf_sz T' = 16"
proof -
  obtain r T' dev' res' where r: "addData demo_sum (thread_ids 1 256) demo_sched (thread_ids 1 256) (demo_table 4096) demo_dev
       2 128 (\<lambda>i. 8 * i) (\<lambda>_. 1) (\<lambda>_. 0) = (r, T', dev', res')" by (cases rule: prod_cases4)
  have "r = Inr () \<and> inserted (dev_mem demo_dev) (demo_table 4096) (demo_args 4096) (dev_mem dev') T' res'"
    using addData_inserts [OF _ demo_args_def demo_pre(1) _ demo_sum_spec _ _ demo_pre(2) _ r] demo_pre(3,4)
      demo_table_ok(1) [of 4096 word_of_nat] by (simp add: demo_dev_def)
  then show ?thesis using r demo_table_ok(2) [of 4096 word_of_nat]
    by (auto simp: inserted_def demo_dev_def demo_keys demo_pre(3))
qed

theorem addData_groups_witness:
  "\<exists>T' dev' res'. addData demo_sum (thread_ids 1 256) demo_sched (thread_ids 1 256) (demo_table 4096) demo_dev
       2 128 (\<lambda>i. 8 * i) (\<lambda>_. 1) (\<lambda>_. 0) = (Inr (), T', dev', res') \<and> res' 0 \<noteq> res' 1"
proof -
  obtain r T' dev' res' where r: "addData demo_sum (thread_ids 1 256) demo_sched (thread_ids 1 256) (demo_table 4096) demo_dev
       2 128 (\<lambda>i. 8 * i) (\<lambda>_. 1) (\<lambda>_. 0) = (r, T', dev', res')" by (cases rule: prod_cases4)
  have ok: "strings_ok (dev_mem demo_dev) (demo_table 4096)" by (rule demo_table_ok) simp_all
  have "all_exited (demo_args 4096) (add_run demo_sched (demo_table 4096) demo_dev (demo_args 4096) (\<lambda>_. 0))"
    by (rule add_run_exits [OF ok demo_args_def _ demo_pre(2)]) simp
  then have i: "r = Inr ()"
    using addData_spec(1) [OF ok demo_args_def demo_pre(1) _ demo_sum_spec _ _ _ _ r] demo_pre(3,4)
    by (simp add: demo_dev_def)
  have "res' 0 = res' 1 \<longleftrightarrow> str_key (dev_mem demo_dev) (demo_args 4096) 0 = str_key (dev_mem demo_dev) (demo_args 4096) 1"
    by (rule addData_groups [OF ok demo_args_def demo_pre(1) _ demo_sum_spec _ _ demo_pre(2) _ r [unfolded i]])
      (use demo_pre(3) in \<open>simp_all add: demo_dev_def active_def\<close>, simp_all add: demo_args_def)
  then show ?thesis using r i by (auto simp: demo_dev_def demo_key)
qed

theorem kerAddData_returns_witness:
  "all_exited (demo_args 4096) (kerAddData word_of_nat (demo_args 4096) demo_sched (add_mem_of (demo_table 4096) (\<lambda>_. 0) (\<lambda>_. 0) False))"
  using kerAddData_returns [OF demo_table_ok(1) demo_args_def, of 4096 demo_sched]
    demo_pre(2) by (simp add: fair_def) (simp add: demo_args_def)

text \<open>A table with one bucket that holds the string of the byte 7.\<close>

definition demo_one :: strings_table where
  "demo_one = \<lparr>tab_buckets_num = 1, str_buf_sz = 8, str_buf_max_sz = 16,
     tab_hashes = (\<lambda>_. 0)(0 := no_empty_hash (MurmurHash64A [7] 0)), tab_lens = (\<lambda>_. 0)(0 := 1),
     tab_offsets = \<lambda>_. 0, tab_pointers = (\<lambda>_. 0)(0 := 8), buf1 = \<lambda>_. 0, buf2 = \<lambda>_. 0, str_buf = 8\<rparr>"

definition seven_dev :: device where
  "seven_dev = \<lparr>dev_mem = \<lambda>_. 7, dev_table_is_full = False\<rparr>"

lemma demo_one_entry: "tab_entry (\<lambda>_. 7) demo_one b = (if b = 0 then Some [7] else None)"
  by (simp add: tab_entry_simp demo_one_def bytes_at_def)

lemma demo_one_ok: "strings_ok (\<lambda>_. 7) demo_one" and demo_one_contents: "contents (\<lambda>_. 7) demo_one = {[7]}"
proof -
  have e: "entry (\<lambda>_. 7) (tab_mem demo_one) b = (if b = 0 then Some [7] else None)" for b
    using demo_one_entry [of b] by (simp add: tab_entry_def)
  have "tab_ok (\<lambda>_. 7) (tab_args demo_one) (tab_mem demo_one)"
    unfolding tab_ok_def e
    by (auto simp: reached_def probe_def hash_of_def tab_args_def tab_mem_def demo_one_def no_empty_hash_def split: if_splits)
  then show "strings_ok (\<lambda>_. 7) demo_one"
    by (auto simp: strings_ok_def buffer_ok_def complete_def tab_mem_def demo_one_def no_empty_hash_def)
  show "contents (\<lambda>_. 7) demo_one = {[7]}" by (auto simp: contents_def demo_one_entry split: if_splits)
qed

theorem mergeToOtherTable_union_witness:
  "\<exists>T' other' dev' res'. mergeToOtherTable demo_sum (thread_ids 1 256) (thread_ids 1 256) demo_sched (thread_ids 1 256)
       demo_one (demo_table 4096) seven_dev (\<lambda>_. 0) = (Inr (), T', other', dev', res') \<and>
     contents (dev_mem dev') other' = {[7]} \<and> tab_entry (dev_mem dev') other' (res' 0) = Some [7]"
proof -
  let ?A = "merge_args demo_one (demo_table 4096) (thread_ids 1 256)"
  obtain r T' other' dev' res' where r: "mergeToOtherTable demo_sum (thread_ids 1 256) (thread_ids 1 256) demo_sched
      (thread_ids 1 256) demo_one (demo_table 4096) seven_dev (\<lambda>_. 0) = (r, T', other', dev', res')"
    by (cases rule: prod_cases5)
  have ok: "strings_ok (dev_mem seven_dev) demo_one" "strings_ok (dev_mem seven_dev) (demo_table 4096)"
    "contents (dev_mem seven_dev) (demo_table 4096) = {}"
    using demo_one_ok demo_table_ok [of 4096] by (simp_all add: seven_dev_def)
  have sch: "schedule (tab_buckets_num demo_one div 256 + 1) 256 (thread_ids 1 256)"
    "schedule (tab_buckets_num (demo_table 4096) div 256 + 1) 256 (thread_ids 1 256)"
    by (simp_all add: demo_one_def)
  have ap: "apart demo_one (demo_table 4096)" by (simp add: apart_def demo_one_def)
  have fair: "fair ?A demo_sched" by (rule demo_fair) (simp_all add: merge_args_def add_threads_def demo_one_def)
  have keys: "str_keys (dev_mem seven_dev) ?A = {[7]}"
    using merge_args_keys [OF ok(1) sch(1), where other = "demo_table 4096"] demo_one_contents by (simp add: seven_dev_def)
  then have sz: "new_size (dev_mem seven_dev) (demo_table 4096) ?A = 8"
    by (simp add: new_size_def new_strings_def ok(3) pad8_def)
  note un = mergeToOtherTable_union [OF ok(1,2) ap _ demo_sum_spec sch fair _ r]
  have "r = Inr ()"
  proof -
    have sb: "str_buf demo_one \<noteq> 0" by (simp add: demo_one_def)
    have "addData demo_sum (thread_ids 1 256) demo_sched (thread_ids 1 256) (demo_table 4096) seven_dev 1 (str_buf demo_one)
        (tab_offsets (calcOffsets (thread_ids 1 256) demo_one)) (tab_lens demo_one)
        (launch (kerFillEmptyResBucket 1) (thread_ids 1 256) (\<lambda>_. 0)) = (r, other', dev', res')"
      using r by (simp add: mergeToOtherTable_def Let_def calcOffsets_def demo_one_def split: prod.splits)
    from addData_spec(1) [OF ok(2) _ merge_input_ok [OF ok(1) sch(1) ap] _ demo_sum_spec sch(2) _
        add_run_exits [OF ok(2) merge_args_def sb fair] _ this]
    have "r = add_outcome (dev_mem seven_dev) (demo_table 4096) ?A"
      using sz by (simp add: merge_args_def seven_dev_def) (simp add: demo_one_def)
    then show ?thesis unfolding add_outcome_def sz keys ok(3) by simp
  qed
  then show ?thesis using un r sz demo_one_contents demo_one_entry [of 0] ok(3) by (auto simp: seven_dev_def)
qed

theorem table_is_full_sticks_witness:
  "fst (addData demo_sum [] [] [] (demo_table 4096) (demo_dev\<lparr>dev_table_is_full := True\<rparr>) 0 128 (\<lambda>_. 0) (\<lambda>_. 0) (\<lambda>_. 0)) =
     Inl TableIsFull"
  using table_is_full_sticks [of "demo_dev\<lparr>dev_table_is_full := True\<rparr>" demo_sum "[]" "[]" "[]" "demo_table 4096" 0 128
      "\<lambda>_. 0" "\<lambda>_. 0" "\<lambda>_. 0"]
  by simp

end
