(* ===== verification/Strings_Aggregator.thy ===== *)
theory Strings_Aggregator
  imports Cuda_Aggfun Strings_Table_Props
begin

text \<open>
  The aggregation of string columns on the device (\<^verbatim>\<open>CudaStringsAggregator\<close>).  One thread fills the
  buffers of several chunks in turn, and every chunk has a thread of its own that groups the rows of its
  buffer.  A chunk is handed over by the flag \<^verbatim>\<open>cuda_processing_state\<close> under its mutex, so a step of the
  model is what a thread does while it holds a mutex, and a thread that waits for a condition variable has
  no step as long as its condition is false.
\<close>

section \<open>The aggregate function\<close>

text \<open>
  The orders in which the threads of the kernels run: \<open>grid_order od k n\<close> for the \<open>k\<close>-th launch of an operation
  with a grid for \<open>n\<close> elements, \<open>add_sched\<close> for the interleaving of \<^verbatim>\<open>kerAddData\<close>.
\<close>

record orders =
  grid_order :: "nat \<Rightarrow> nat \<Rightarrow> (nat \<times> nat) list"
  add_sched :: "add_args \<Rightarrow> nat list"

definition orders_ok :: "orders \<Rightarrow> bool" where
  "orders_ok od \<longleftrightarrow> (\<forall>k n. n < 2 ^ 32 \<longrightarrow> schedule (n div 256 + 1) 256 (grid_order od k n)) \<and>
     (\<forall>A. fair A (add_sched od A))"

text \<open>The virtual functions of \<^verbatim>\<open>ICudaAggregateFunction\<close>.\<close>

record 's agg_function =
  isDataNeeded :: bool
  cudaInitAggregateData :: "orders \<Rightarrow> nat \<Rightarrow> (nat \<Rightarrow> 's) \<Rightarrow> nat \<Rightarrow> 's"
  cudaAddBulk :: "orders \<Rightarrow> memory \<Rightarrow> cuda_column \<Rightarrow> nat \<Rightarrow> (nat \<Rightarrow> nat) \<Rightarrow> (nat \<Rightarrow> u64) \<Rightarrow> (nat \<Rightarrow> 's) \<Rightarrow> nat \<Rightarrow> 's"
  cudaMergeBulk :: "orders \<Rightarrow> nat \<Rightarrow> (nat \<Rightarrow> 's) \<Rightarrow> (nat \<Rightarrow> nat) \<Rightarrow> (nat \<Rightarrow> 's) \<Rightarrow> nat \<Rightarrow> 's"
  getResult :: "'s \<Rightarrow> nat"

definition CudaAggregateFunctionCount :: "64 word agg_function" where
  "CudaAggregateFunctionCount =
     \<lparr>isDataNeeded = count_isDataNeeded,
      cudaInitAggregateData = (\<lambda>od. count_cudaInitAggregateData),
      cudaAddBulk = (\<lambda>od m str_column n res tmp_buf. count_cudaAddBulk (grid_order od 0 n) n res),
      cudaMergeBulk = (\<lambda>od n. count_cudaMergeBulk (grid_order od 0 n) n),
      getResult = count_getResult\<rparr>"

definition CudaAggregateFunctionUniq :: "uniq_set agg_function" where
  "CudaAggregateFunctionUniq =
     \<lparr>isDataNeeded = uniq_isDataNeeded,
      cudaInitAggregateData = (\<lambda>od n. uniq_cudaInitAggregateData (grid_order od 0 n) n),
      cudaAddBulk = (\<lambda>od m str_column n. uniq_cudaAddBulk (grid_order od 0 n) (grid_order od 1 n) m str_column n),
      cudaMergeBulk = (\<lambda>od n. uniq_cudaMergeBulk (grid_order od 0 n) n),
      getResult = uniq_getResult\<rparr>"

section \<open>The state\<close>

datatype worker = Started | Waiting | Returned

record 's chunk =
  cuda_processing_state :: bool
  cuda_buffer_keys :: cuda_column
  cuda_buffer_vals :: cuda_column
  cuda_hash_table :: strings_table
  group_nums :: "nat \<Rightarrow> nat"
  group_agg_res :: "nat \<Rightarrow> 's"
  agg_tmp_buf :: "nat \<Rightarrow> u64"
  worker :: worker

record 's strings_aggregator =
  chunks :: "'s chunk list"
  curr_filling_chunk :: nat
  is_vals_needed :: bool
  agg_dev :: device

datatype agg_error = NotEnoughSpace | BufferNotEmpty | MergeFailed table_error | DuplicatesInTable

text \<open>
  The constructor.  For every chunk it is given what the allocations return: those of the two columns, whether
  all the other ones succeed, and the memory as it was.
\<close>

datatype construct_error = ColumnFailed "column_error \<times> nat list" | AllocationFailed

type_synonym 's chunk_alloc = "(nat \<Rightarrow> nat option) \<times> (nat \<Rightarrow> nat option) \<times> bool \<times> 's chunk"

definition new_chunk :: "nat \<Rightarrow> nat \<Rightarrow> nat \<Rightarrow> nat \<Rightarrow> 's chunk_alloc \<Rightarrow> construct_error + 's chunk" where
  "new_chunk hash_table_max_size hash_table_str_buffer_max_size buffer_max_str_num buffer_max_size =
     (\<lambda>(keys_malloc, vals_malloc, others_ok, raw).
       case CudaColumnString keys_malloc buffer_max_str_num buffer_max_size (cuda_buffer_keys raw) of
         Inl e \<Rightarrow> Inl (ColumnFailed e)
       | Inr ks \<Rightarrow>
           (case CudaColumnString vals_malloc buffer_max_str_num buffer_max_size (cuda_buffer_vals raw) of
              Inl e \<Rightarrow> Inl (ColumnFailed e)
            | Inr vs \<Rightarrow>
                if \<not> others_ok then Inl AllocationFailed
                else Inr (raw\<lparr>cuda_hash_table :=
                                strings_table_new hash_table_max_size hash_table_str_buffer_max_size (cuda_hash_table raw),
                              cuda_buffer_keys := ks, cuda_buffer_vals := vs\<rparr>)))"

fun new_chunks :: "('a \<Rightarrow> 'e + 'c) \<Rightarrow> 'a list \<Rightarrow> 'e + 'c list" where
  "new_chunks new [] = Inr []"
| "new_chunks new (a # as) =
     (case new a of
        Inl e \<Rightarrow> Inl e
      | Inr c \<Rightarrow> (case new_chunks new as of Inl e \<Rightarrow> Inl e | Inr cs \<Rightarrow> Inr (c # cs)))"

definition CudaStringsAggregator ::
  "nat \<Rightarrow> nat \<Rightarrow> nat \<Rightarrow> nat \<Rightarrow> 's chunk_alloc list \<Rightarrow> 's strings_aggregator \<Rightarrow> construct_error + 's strings_aggregator" where
  "CudaStringsAggregator hash_table_max_size hash_table_str_buffer_max_size buffer_max_str_num buffer_max_size allocs raw =
     (case new_chunks (new_chunk hash_table_max_size hash_table_str_buffer_max_size buffer_max_str_num buffer_max_size) allocs of
        Inl e \<Rightarrow> Inl e
      | Inr cs \<Rightarrow> Inr (raw\<lparr>chunks := cs\<rparr>))"

definition startProcessing :: "'s agg_function \<Rightarrow> 's strings_aggregator \<Rightarrow> 's strings_aggregator" where
  "startProcessing F S =
     S\<lparr>chunks := map (\<lambda>c. c\<lparr>cuda_processing_state := False, worker := Started\<rparr>) (chunks S),
       curr_filling_chunk := 0, is_vals_needed := isDataNeeded F\<rparr>"

section \<open>Filling the buffers\<close>

record queue_args =
  q_str_num :: size_t
  q_str_buf_sz :: size_t
  q_str_buf :: nat
  q_offsets :: "nat \<Rightarrow> nat"
  q_vals_str_buf_sz :: size_t
  q_vals_str_buf :: nat
  q_vals_offsets :: "nat \<Rightarrow> nat"

abbreviation curr_chunk :: "'s strings_aggregator \<Rightarrow> 's chunk" where
  "curr_chunk S \<equiv> chunks S ! curr_filling_chunk S"

definition set_chunk :: "nat \<Rightarrow> 's chunk \<Rightarrow> 's strings_aggregator \<Rightarrow> 's strings_aggregator" where
  "set_chunk i c S = S\<lparr>chunks := (chunks S)[i := c]\<rparr>"

text \<open>\<open>tryQueueData\<close> once \<^verbatim>\<open>cuda_processing_state\<close> of the current chunk is false.\<close>

definition tryQueueData ::
  "memory \<Rightarrow> queue_args \<Rightarrow> 's strings_aggregator \<Rightarrow> agg_error + bool \<times> 's strings_aggregator" where
  "tryQueueData host q S =
     (let c = curr_chunk S
      in if hasSpace (cuda_buffer_keys c) (q_str_num q) (q_str_buf_sz q) \<and>
            hasSpace (cuda_buffer_vals c) (q_str_num q) (q_vals_str_buf_sz q)
         then
           (let (m, ks) = column_addData (q_str_num q) (q_str_buf_sz q) host (q_str_buf q) (q_offsets q)
                            (dev_mem (agg_dev S), cuda_buffer_keys c);
                (m, vs) = (if is_vals_needed S
                           then column_addData (q_str_num q) (q_vals_str_buf_sz q) host (q_vals_str_buf q)
                                  (q_vals_offsets q) (m, cuda_buffer_vals c)
                           else (m, cuda_buffer_vals c))
            in Inr (True, set_chunk (curr_filling_chunk S) (c\<lparr>cuda_buffer_keys := ks, cuda_buffer_vals := vs\<rparr>)
                            (S\<lparr>agg_dev := (agg_dev S)\<lparr>dev_mem := m\<rparr>\<rparr>)))
         else if column_empty (cuda_buffer_keys c) then Inl NotEnoughSpace
         else Inr (False, (set_chunk (curr_filling_chunk S) (c\<lparr>cuda_processing_state := True\<rparr>) S)
                            \<lparr>curr_filling_chunk := (curr_filling_chunk S + 1) mod length (chunks S)\<rparr>))"

text \<open>The critical sections of \<open>waitProcessed\<close>.\<close>

definition waitProcessed_flush :: "'s strings_aggregator \<Rightarrow> 's strings_aggregator" where
  "waitProcessed_flush S =
     (let c = curr_chunk S
      in if \<not> column_empty (cuda_buffer_keys c)
         then set_chunk (curr_filling_chunk S) (c\<lparr>cuda_processing_state := True\<rparr>) S else S)"

definition waitProcessed_signal :: "nat \<Rightarrow> 's strings_aggregator \<Rightarrow> agg_error + 's strings_aggregator" where
  "waitProcessed_signal i S =
     (let c = chunks S ! i
      in if \<not> column_empty (cuda_buffer_keys c) then Inl BufferNotEmpty
         else Inr (set_chunk i (c\<lparr>cuda_processing_state := True\<rparr>) S))"

text \<open>The thread that calls \<^verbatim>\<open>queueData\<close> for a sequence of blocks and then \<^verbatim>\<open>waitProcessed\<close>.\<close>

datatype producer = Queueing "queue_args list" | Flushing | Signalling nat | Joining nat | Joined | Thrown agg_error

fun producer_step ::
  "memory \<Rightarrow> producer \<Rightarrow> 's strings_aggregator \<Rightarrow> (producer \<times> 's strings_aggregator) option" where
  "producer_step host (Queueing []) S = Some (Flushing, S)"
| "producer_step host (Queueing (q # qs)) S =
     (if cuda_processing_state (curr_chunk S) then None
      else case tryQueueData host q S of
             Inl e \<Rightarrow> Some (Thrown e, S)
           | Inr (queued, S) \<Rightarrow> Some (Queueing (if queued then qs else q # qs), S))"
| "producer_step host Flushing S =
     (if cuda_processing_state (curr_chunk S) then None else Some (Signalling 0, waitProcessed_flush S))"
| "producer_step host (Signalling i) S =
     (if \<not> i < length (chunks S) then Some (Joining 0, S)
      else if cuda_processing_state (chunks S ! i) then None
      else case waitProcessed_signal i S of
             Inl e \<Rightarrow> Some (Thrown e, S)
           | Inr S \<Rightarrow> Some (Signalling (Suc i), S))"
| "producer_step host (Joining i) S =
     (if \<not> i < length (chunks S) then Some (Joined, S)
      else if worker (chunks S ! i) = Returned then Some (Joining (Suc i), S) else None)"
| "producer_step host Joined S = None"
| "producer_step host (Thrown e) S = None"

text \<open>The constructor leaves every chunk with empty buffers.\<close>

lemma new_chunks_all:
  "new_chunks new as = Inr cs \<Longrightarrow> c \<in> set cs \<Longrightarrow> \<exists>a \<in> set as. new a = Inr c"
  by (induction as arbitrary: cs) (auto split: sum.splits)

lemma CudaColumnString_holds:
  assumes "CudaColumnString malloc n z raw = Inr C" and "n < 2 ^ 32" and "z < 2 ^ 32"
  shows "column_holds m C [] \<and> col_max_str_num C = n \<and> col_max_sz C = z"
  using assms by (auto simp: CudaColumnString_def column_holds_def block_bytes_def bytes_at_def split: if_splits option.splits)

lemma CudaStringsAggregator_fresh:
  assumes "CudaStringsAggregator t s n z allocs raw = Inr S" and "n < 2 ^ 32" and "z < 2 ^ 32" and "c \<in> set (chunks S)"
  shows "column_holds m (cuda_buffer_keys c) []" and "column_holds m (cuda_buffer_vals c) []"
    and "tab_buckets_num (cuda_hash_table c) = t" and "str_buf_max_sz (cuda_hash_table c) = s"
proof -
  obtain a where a: "new_chunk t s n z a = Inr c"
    using assms(1,4) new_chunks_all by (fastforce simp: CudaStringsAggregator_def split: sum.splits)
  then show "column_holds m (cuda_buffer_keys c) []" "column_holds m (cuda_buffer_vals c) []"
    "tab_buckets_num (cuda_hash_table c) = t" "str_buf_max_sz (cuda_hash_table c) = s"
    using CudaColumnString_holds [OF _ assms(2,3), of _ _ _ m]
    by (auto simp: new_chunk_def strings_table_new_def split: sum.splits if_splits prod.splits)
qed

section \<open>Processing a chunk\<close>

type_synonym prefix_sum = "nat \<Rightarrow> (nat \<Rightarrow> nat) \<Rightarrow> nat \<Rightarrow> nat"

definition processChunk_begin :: "orders \<Rightarrow> 's agg_function \<Rightarrow> 's chunk \<Rightarrow> 's chunk" where
  "processChunk_begin od F c =
     (let T = cuda_hash_table c
      in c\<lparr>cuda_hash_table := erase (grid_order od 0 (tab_buckets_num T)) T,
           group_agg_res := cudaInitAggregateData F od (tab_buckets_num T) (group_agg_res c), worker := Waiting\<rparr>)"

definition column_orders :: "orders \<Rightarrow> cuda_column \<Rightarrow> nat \<Rightarrow> (nat \<times> nat) list" where
  "column_orders od C k = grid_order od k (blocks_sizes C ! k)"

definition processChunk_batch ::
  "prefix_sum \<Rightarrow> orders \<Rightarrow> 's agg_function \<Rightarrow> bool \<Rightarrow> 's chunk \<Rightarrow> device \<Rightarrow> table_error + 's chunk \<times> device" where
  "processChunk_batch E od F vals_needed c dev =
     (let ks = calcLengths (column_orders od (cuda_buffer_keys c)) (cuda_buffer_keys c);
          vs = (if vals_needed then calcLengths (column_orders od (cuda_buffer_vals c)) (cuda_buffer_vals c)
                else cuda_buffer_vals c);
          str_num = col_str_num ks mod 2 ^ 32;
          T = cuda_hash_table c;
          (r, T, dev, res) = addData E (grid_order od 0 (tab_buckets_num T))
             (add_sched od (add_args_of T str_num (col_buf ks) (col_offsets ks) (col_lens ks)))
             (grid_order od 1 str_num) T dev str_num (col_buf ks) (col_offsets ks) (col_lens ks) (group_nums c)
      in case r of
           Inl e \<Rightarrow> Inl e
         | Inr u \<Rightarrow>
             Inr (c\<lparr>cuda_buffer_keys := column_reset ks, cuda_buffer_vals := column_reset vs, cuda_hash_table := T,
                    group_nums := res,
                    group_agg_res := cudaAddBulk F od (dev_mem dev) vs str_num res (agg_tmp_buf c) (group_agg_res c),
                    cuda_processing_state := False\<rparr>, dev))"

definition processChunk_end :: "orders \<Rightarrow> 's chunk \<Rightarrow> 's chunk" where
  "processChunk_end od c =
     (let T = cuda_hash_table c
      in c\<lparr>cuda_hash_table := calcOffsets (grid_order od 0 (tab_buckets_num T)) T, worker := Returned\<rparr>)"

text \<open>The thread of the chunk \<open>i\<close>; an exception in it ends the program.\<close>

definition processChunk_step ::
  "prefix_sum \<Rightarrow> orders \<Rightarrow> 's agg_function \<Rightarrow> nat \<Rightarrow> 's strings_aggregator \<Rightarrow> (table_error + 's strings_aggregator) option" where
  "processChunk_step E od F i S =
     (let c = chunks S ! i
      in case worker c of
           Started \<Rightarrow> Some (Inr (set_chunk i (processChunk_begin od F c) S))
         | Waiting \<Rightarrow>
             (if \<not> cuda_processing_state c then None
              else if column_empty (cuda_buffer_keys c) then Some (Inr (set_chunk i (processChunk_end od c) S))
              else case processChunk_batch E od F (is_vals_needed S) c (agg_dev S) of
                     Inl e \<Rightarrow> Some (Inl e)
                   | Inr (c, dev) \<Rightarrow> Some (Inr (set_chunk i c (S\<lparr>agg_dev := dev\<rparr>))))
         | Returned \<Rightarrow> None)"

datatype 's program = Program producer "'s strings_aggregator" | Terminated table_error

inductive agg_step :: "prefix_sum \<Rightarrow> 's agg_function \<Rightarrow> memory \<Rightarrow> 's program \<Rightarrow> 's program \<Rightarrow> bool"
  for E F host where
  produce: "producer_step host p S = Some (p', S') \<Longrightarrow> agg_step E F host (Program p S) (Program p' S')"
| process: "orders_ok od \<Longrightarrow> i < length (chunks S) \<Longrightarrow> processChunk_step E od F i S = Some (Inr S') \<Longrightarrow>
    agg_step E F host (Program p S) (Program p S')"
| terminate: "orders_ok od \<Longrightarrow> i < length (chunks S) \<Longrightarrow> processChunk_step E od F i S = Some (Inl e) \<Longrightarrow>
    agg_step E F host (Program p S) (Terminated e)"

inductive_cases agg_stepE: "agg_step E F host (Program p S) X"

inductive_simps agg_step_terminated [simp]: "agg_step E F host (Terminated e) X"

section \<open>Collecting the result\<close>

text \<open>The loop that merges the tables and states of the other chunks into those of the chunk 0.\<close>

definition merge_chunk ::
  "prefix_sum \<Rightarrow> orders \<Rightarrow> 's agg_function \<Rightarrow> nat \<Rightarrow> 's strings_aggregator \<Rightarrow> agg_error + 's strings_aggregator" where
  "merge_chunk E od F i S =
     (let c = chunks S ! i; c0 = chunks S ! 0; T = cuda_hash_table c; T0 = cuda_hash_table c0;
          order = grid_order od 0 (tab_buckets_num T);
          (r, T, T0, dev, res) = mergeToOtherTable E order (grid_order od 1 (tab_buckets_num T0))
             (add_sched od (merge_args T T0 order)) order T T0 (agg_dev S) (group_nums c)
      in case r of
           Inl e \<Rightarrow> Inl (MergeFailed e)
         | Inr u \<Rightarrow> Inr (set_chunk 0 (c0\<lparr>cuda_hash_table := T0,
               group_agg_res := cudaMergeBulk F od (tab_buckets_num T) (group_agg_res c) res (group_agg_res c0)\<rparr>)
             (set_chunk i (c\<lparr>cuda_hash_table := T, group_nums := res\<rparr>) (S\<lparr>agg_dev := dev\<rparr>))))"

fun merge_chunks ::
  "prefix_sum \<Rightarrow> orders \<Rightarrow> 's agg_function \<Rightarrow> nat list \<Rightarrow> 's strings_aggregator \<Rightarrow> agg_error + 's strings_aggregator" where
  "merge_chunks E od F [] S = Inr S"
| "merge_chunks E od F (i # is) S =
     (case merge_chunk E od F i S of Inl e \<Rightarrow> Inl e | Inr S \<Rightarrow> merge_chunks E od F is S)"

definition cudaMemcpyDeviceToHost :: "memory \<Rightarrow> nat \<Rightarrow> memory \<Rightarrow> nat \<Rightarrow> size_t \<Rightarrow> memory" where
  "cudaMemcpyDeviceToHost host dst dev src n =
     (\<lambda>x. if dst \<le> x \<and> x < dst + n then dev (src + (x - dst)) else host x)"

type_synonym 's result = "8 word list \<rightharpoonup> 's"

text \<open>The loop over the buckets; \<open>b\<close> is the address of the host buffer with the strings.\<close>

fun place_results ::
  "memory \<Rightarrow> nat \<Rightarrow> (nat \<Rightarrow> nat) \<Rightarrow> (nat \<Rightarrow> nat) \<Rightarrow> (nat \<Rightarrow> 's) \<Rightarrow> nat list \<Rightarrow> 's result \<Rightarrow> agg_error + 's result" where
  "place_results host b lens offsets agg [] agg_result = Inr agg_result"
| "place_results host b lens offsets agg (j # js) agg_result =
     (let len = lens j; offset = offsets j
      in if len = 0 then place_results host b lens offsets agg js agg_result
         else
           (let key_str = bytes_at host (b + offset) (len - 1)
            in case agg_result key_str of
                 None \<Rightarrow> place_results host b lens offsets agg js (agg_result(key_str \<mapsto> agg j))
               | Some x \<Rightarrow> Inl DuplicatesInTable))"

definition collect :: "memory \<Rightarrow> nat \<Rightarrow> 's strings_aggregator \<Rightarrow> agg_error + 's result" where
  "collect host b S =
     (let c0 = chunks S ! 0; T = cuda_hash_table c0;
          host = cudaMemcpyDeviceToHost host b (dev_mem (agg_dev S)) (str_buf T) (str_buf_sz T)
      in place_results host b (tab_lens T) (tab_offsets T) (group_agg_res c0) [0..<tab_buckets_num T] Map.empty)"

text \<open>What \<open>waitProcessed\<close> does after it has joined the threads.\<close>

definition waitProcessed ::
  "prefix_sum \<Rightarrow> orders \<Rightarrow> 's agg_function \<Rightarrow> memory \<Rightarrow> nat \<Rightarrow> 's strings_aggregator \<Rightarrow>
   agg_error + 's strings_aggregator \<times> 's result" where
  "waitProcessed E od F host b S =
     (case merge_chunks E od F [1..<length (chunks S)] S of
        Inl e \<Rightarrow> Inl e
      | Inr S \<Rightarrow> (case collect host b S of Inl e \<Rightarrow> Inl e | Inr r \<Rightarrow> Inr (S, r)))"

end
