(* ===== verification/Aggregator_Chunk.thy ===== *)
theory Aggregator_Chunk
  imports Strings_Aggregator
begin

text \<open>
  What the operations on one chunk do to the rows it stands for: the rows in its buffer, and the rows that
  have been grouped into its table.  The aggregate function enters by its contract, a locale that is
  interpreted for \<^verbatim>\<open>count\<close> and \<^verbatim>\<open>uniq\<close>.
\<close>

section \<open>The contract of an aggregate function\<close>

definition values_ok :: "memory \<Rightarrow> cuda_column \<Rightarrow> nat \<Rightarrow> (nat \<Rightarrow> 8 word list) \<Rightarrow> bool" where
  "values_ok m C n val \<longleftrightarrow> (\<forall>i < n. 0 < col_lens C i \<and> col_lens C i < 2 ^ 32 \<and> col_offsets C i < 2 ^ 32 \<and>
     bytes_at m (col_buf C + col_offsets C i) (col_lens C i) = val i)"

locale agg_contract =
  fixes F :: "'s agg_function" and rep :: "8 word list multiset \<Rightarrow> 's \<Rightarrow> bool"
  assumes init_rep: "orders_ok od \<Longrightarrow> n < 2 ^ 32 \<Longrightarrow> b < n \<Longrightarrow> rep {#} (cudaInitAggregateData F od n places b)"
    and add_rep: "orders_ok od \<Longrightarrow> n < 2 ^ 32 \<Longrightarrow> rep V (places b) \<Longrightarrow>
      (isDataNeeded F \<Longrightarrow> values_ok m C n val) \<Longrightarrow>
      rep (image_mset val (group_of n res b) + V) (cudaAddBulk F od m C n res tmp places b)"

interpretation count_contract: agg_contract CudaAggregateFunctionCount count_rep
proof
  fix od and n b :: nat and places :: "nat \<Rightarrow> 64 word"
  assume "orders_ok od" "n < 2 ^ 32" "b < n"
  then show "count_rep {#} (cudaInitAggregateData CudaAggregateFunctionCount od n places b)"
    by (simp add: CudaAggregateFunctionCount_def count_cudaInitAggregateData_def count_rep_def)
next
  fix od V m C val res tmp and n b :: nat and places :: "nat \<Rightarrow> 64 word"
  assume "orders_ok od" "n < 2 ^ 32" "count_rep (V :: 8 word list multiset) (places b)"
  then have "count_rep (group_of n res b + replicate_mset (size V) (0 :: nat))
      (count_cudaAddBulk (grid_order od 0 n) n res places b)"
    by (intro count_cudaAddBulk_rep) (auto simp: orders_ok_def count_rep_def)
  then show "count_rep (image_mset val (group_of n res b) + V) (cudaAddBulk CudaAggregateFunctionCount od m C n res tmp places b)"
    by (simp add: count_rep_def CudaAggregateFunctionCount_def)
qed

text \<open>The hash of a value, a string with its terminating zero.\<close>

definition value_hash :: "8 word list \<Rightarrow> u64" where
  "value_hash v = no_empty (CityHash64 (\<lambda>x. if x < length v then v ! x else 0) 0 (length v - 1))"

definition uniq_values :: "8 word list multiset \<Rightarrow> uniq_set \<Rightarrow> bool" where
  "uniq_values V s \<longleftrightarrow> uniq_rep (image_mset value_hash V) s"

lemma uniq_hash_value:
  assumes "values_ok m C n val" and "i < n"
  shows "uniq_hash m C i = value_hash (val i)"
proof -
  have v: "bytes_at m (col_buf C + col_offsets C i) (col_lens C i) = val i" using assms by (simp add: values_ok_def)
  then have l: "length (val i) = col_lens C i" by (metis length_bytes_at)
  have "m (col_buf C + col_offsets C i + k) = val i ! k" if "k < col_lens C i" for k
    unfolding v [symmetric] using that by (simp add: bytes_at_def)
  then have "CityHash64 m (col_buf C + col_offsets C i) (col_lens C i - 1) =
      CityHash64 (\<lambda>x. if x < length (val i) then val i ! x else 0) 0 (col_lens C i - 1)"
    by (intro CityHash64_agree) (auto simp: agree_def l)
  then show ?thesis by (simp add: uniq_hash_def value_hash_def l)
qed

interpretation uniq_contract: agg_contract CudaAggregateFunctionUniq uniq_values
proof
  fix od and n b :: nat and places :: "nat \<Rightarrow> uniq_set"
  assume "orders_ok od" "n < 2 ^ 32" "b < n"
  then show "uniq_values {#} (cudaInitAggregateData CudaAggregateFunctionUniq od n places b)"
    using uniq_cudaInitAggregateData_eq [of n "grid_order od 0 n" places] uniq.rep_init
    by (simp add: CudaAggregateFunctionUniq_def orders_ok_def uniq_values_def)
next
  fix od V m C val res tmp and n b :: nat and places :: "nat \<Rightarrow> uniq_set"
  assume a: "orders_ok od" "n < 2 ^ 32" "uniq_values V (places b)"
    and "isDataNeeded CudaAggregateFunctionUniq \<Longrightarrow> values_ok m C n val"
  then have v: "values_ok m C n val" by (simp add: CudaAggregateFunctionUniq_def uniq_isDataNeeded_def)
  have "image_mset (uniq_hash m C) (group_of n res b) = image_mset (value_hash \<circ> val) (group_of n res b)"
    by (rule image_mset_cong) (simp add: set_group_of uniq_hash_value [OF v])
  moreover have "uniq_rep (image_mset (uniq_hash m C) (group_of n res b) + image_mset value_hash V)
      (uniq_cudaAddBulk (grid_order od 0 n) (grid_order od 1 n) m C n res tmp places b)"
    using a v by (intro uniq_cudaAddBulk_rep) (auto simp: orders_ok_def uniq_values_def values_ok_def)
  ultimately show "uniq_values (image_mset val (group_of n res b) + V) (cudaAddBulk CudaAggregateFunctionUniq od m C n res tmp places b)"
    by (simp add: uniq_values_def CudaAggregateFunctionUniq_def multiset.map_comp)
qed

section \<open>Rows\<close>

type_synonym row = "8 word list \<times> 8 word list"

definition row_ok :: "row \<Rightarrow> bool" where
  "row_ok r \<longleftrightarrow> fst r \<noteq> [] \<and> snd r \<noteq> []"

definition keys_of :: "row list \<Rightarrow> 8 word list set" where
  "keys_of rs = fst ` set rs"

definition keys_size :: "8 word list set \<Rightarrow> nat" where
  "keys_size K = (\<Sum>s \<in> K. pad8 (length s))"

definition values_of :: "row list \<Rightarrow> 8 word list \<Rightarrow> 8 word list multiset" where
  "values_of rs k = image_mset snd {#r \<in># mset rs. fst r = k#}"

lemma values_of_append [simp]: "values_of (xs @ ys) k = values_of xs k + values_of ys k"
  by (simp add: values_of_def)

lemma keys_of_append [simp]: "keys_of (xs @ ys) = keys_of xs \<union> keys_of ys"
  by (auto simp: keys_of_def)

lemma values_of_None: "k \<notin> keys_of rs \<Longrightarrow> values_of rs k = {#}"
  by (induction rs) (auto simp: values_of_def keys_of_def)

lemma values_of_perm: "mset xs = mset ys \<Longrightarrow> values_of xs k = values_of ys k"
  by (simp add: values_of_def)

lemma finite_keys [simp]: "finite (keys_of rs)"
  by (simp add: keys_of_def)

text \<open>The table and the states of its buckets stand for a list of rows.\<close>

definition table_state ::
  "(8 word list multiset \<Rightarrow> 's \<Rightarrow> bool) \<Rightarrow> memory \<Rightarrow> strings_table \<Rightarrow> (nat \<Rightarrow> 's) \<Rightarrow> row list \<Rightarrow> bool" where
  "table_state rep m T agg rs \<longleftrightarrow> strings_ok m T \<and> contents m T = keys_of rs \<and>
     str_buf_sz T = keys_size (keys_of rs) \<and>
     (\<forall>b < tab_buckets_num T. rep (case tab_entry m T b of None \<Rightarrow> {#} | Some k \<Rightarrow> values_of rs k) (agg b))"

lemma tab_entry_frame:
  assumes "buffer_ok T" and "\<And>x. str_buf T \<le> x \<Longrightarrow> x < str_buf T + str_buf_max_sz T \<Longrightarrow> m' x = m x"
  shows "tab_entry m' T b = tab_entry m T b"
proof (cases "tab_pointers T b = 0")
  case False
  then have "str_buf T \<le> tab_pointers T b" "tab_pointers T b + tab_lens T b \<le> str_buf T + str_buf_max_sz T"
    using assms(1) unfolding buffer_ok_def by (metis add_left_mono le_trans)+
  then have "bytes_at m' (tab_pointers T b) (tab_lens T b) = bytes_at m (tab_pointers T b) (tab_lens T b)"
    using assms(2) by (intro bytes_at_cong) auto
  then show ?thesis by (simp add: tab_entry_simp)
qed (simp add: tab_entry_simp)

lemma table_state_frame:
  assumes "table_state rep m T agg rs" and "\<And>x. str_buf T \<le> x \<Longrightarrow> x < str_buf T + str_buf_max_sz T \<Longrightarrow> m' x = m x"
  shows "table_state rep m' T agg rs"
proof -
  have "buffer_ok T" using assms(1) by (simp add: table_state_def strings_ok_def)
  then have e: "tab_entry m' T = tab_entry m T" using tab_entry_frame assms(2) by blast
  have "tab_ok m' (tab_args T) (tab_mem T) = tab_ok m (tab_args T) (tab_mem T)"
    by (rule tab_ok_eq) (simp_all add: e tab_entry_def [symmetric])
  then show ?thesis using assms(1) by (simp add: table_state_def strings_ok_def contents_def e)
qed

section \<open>Reading the buffers\<close>

lemma calcLengths_fields [simp]:
  "col_buf (calcLengths os C) = col_buf C" "col_str_num (calcLengths os C) = col_str_num C"
  "col_max_str_num (calcLengths os C) = col_max_str_num C" "col_max_sz (calcLengths os C) = col_max_sz C"
  by (simp_all add: calcLengths_def split: prod.split)

lemma column_orders_ok:
  assumes "orders_ok od" and h: "column_holds m C (map (map f) bs)"
  shows "\<forall>j < length (map (map f) bs). schedule (length (map (map f) bs ! j) div 256 + 1) 256 (column_orders od C j)"
proof (intro allI impI)
  fix j assume j: "j < length (map (map f) bs)"
  have "length (map (map f) bs ! j) \<le> length (concat (map (map f) bs))"
    using concat_nth_part(2) [of j "map (map f) bs"] j by simp
  then have "length (map (map f) bs ! j) < 2 ^ 32" using h by (simp add: column_holds_def)
  moreover have "blocks_sizes C ! j = length (map (map f) bs ! j)" using h j by (simp add: column_holds_def)
  ultimately show "schedule (length (map (map f) bs ! j) div 256 + 1) 256 (column_orders od C j)"
    using assms(1) by (simp only: column_orders_def orders_ok_def)
qed

lemma column_values:
  assumes "orders_ok od" and h: "column_holds m C (map (map f) bs)" and i: "i < length (concat bs)"
  defines "C' \<equiv> calcLengths (column_orders od C) C"
  shows "bytes_at m (col_buf C + col_offsets C' i) (col_lens C' i) = f (concat bs ! i)"
    and "col_lens C' i = length (f (concat bs ! i))" and "col_offsets C' i + col_lens C' i \<le> col_sz C"
proof -
  have cc: "concat (map (map f) bs) = map f (concat bs)" by (simp add: map_concat)
  have n: "col_str_num C = length (concat bs)" using h cc by (simp add: column_holds_def)
  note cs = calcLengths_strings [OF h column_orders_ok [OF assms(1) h], folded C'_def]
  have "column_strings m C' ! i = f (concat bs ! i)" using cs(1) i unfolding cc by simp
  then show b: "bytes_at m (col_buf C + col_offsets C' i) (col_lens C' i) = f (concat bs ! i)"
    using i n by (simp add: column_strings_def C'_def)
  show "col_lens C' i = length (f (concat bs ! i))" using b by (metis length_bytes_at)
  show "col_offsets C' i + col_lens C' i \<le> col_sz C" using cs(2) [of i] i cc by simp
qed

text \<open>The sizes and addresses of the buffers of a chunk.\<close>

definition chunk_config :: "'s chunk \<Rightarrow> bool" where
  "chunk_config c \<longleftrightarrow>
     (let ks = cuda_buffer_keys c; vs = cuda_buffer_vals c; T = cuda_hash_table c
      in col_buf ks \<noteq> 0 \<and>
         col_max_sz ks + 7 * col_max_str_num ks + str_buf_max_sz T < 2 ^ 32 \<and>
         (col_buf ks + col_max_sz ks \<le> str_buf T \<or> str_buf T + str_buf_max_sz T \<le> col_buf ks) \<and>
         (col_buf vs + col_max_sz vs \<le> str_buf T \<or> str_buf T + str_buf_max_sz T \<le> col_buf vs) \<and>
         (col_buf ks + col_max_sz ks \<le> col_buf vs \<or> col_buf vs + col_max_sz vs \<le> col_buf ks))"

definition batch_args :: "orders \<Rightarrow> 's chunk \<Rightarrow> add_args" where
  "batch_args od c =
     (let ks = calcLengths (column_orders od (cuda_buffer_keys c)) (cuda_buffer_keys c)
      in add_args_of (cuda_hash_table c) (col_str_num ks) (col_buf ks) (col_offsets ks) (col_lens ks))"

lemma pad8_sum_le:
  assumes "finite K" and "K \<subseteq> set ss"
  shows "(\<Sum>s \<in> K. pad8 (length s)) \<le> length (concat ss) + 7 * length ss"
proof -
  have "(\<Sum>s \<in> K. pad8 (length s)) \<le> (\<Sum>s \<in> set ss. pad8 (length s))" using assms by (intro sum_mono2) auto
  also have "\<dots> \<le> sum_list (map (\<lambda>s. pad8 (length s)) ss)"
  proof (induction ss)
    case (Cons s ss)
    then show ?case by (cases "s \<in> set ss") (auto simp: insert_absorb)
  qed simp
  also have "\<dots> \<le> length (concat ss) + 7 * length ss"
  proof (induction ss)
    case (Cons s ss)
    have "pad8 (length s) \<le> length s + 7" by (simp add: pad8_def)
    with Cons show ?case by simp
  qed simp
  finally show ?thesis .
qed

lemma batch_args_keys:
  assumes od: "orders_ok od" and keys: "column_holds m (cuda_buffer_keys c) (map (map fst) bs)"
    and rows: "\<forall>r \<in> set (concat bs). row_ok r"
  shows "str_num (batch_args od c) = length (concat bs)"
    and "active (batch_args od c) i \<longleftrightarrow> i < length (concat bs)"
    and "i < length (concat bs) \<Longrightarrow> str_key m (batch_args od c) i = fst (concat bs ! i)"
    and "str_keys m (batch_args od c) = keys_of (concat bs)"
    and "i < length (concat bs) \<Longrightarrow> add_addr (batch_args od c) i + in_lens (batch_args od c) i \<le>
      col_buf (cuda_buffer_keys c) + col_sz (cuda_buffer_keys c) \<and>
      col_buf (cuda_buffer_keys c) \<le> add_addr (batch_args od c) i"
proof -
  let ?A = "batch_args od c" and ?n = "length (concat bs)"
  note cv = column_values [OF od keys]
  show n: "str_num ?A = ?n"
    using keys by (simp add: batch_args_def column_holds_def Let_def map_concat [symmetric])
  have nz: "in_lens ?A i \<noteq> 0" if "i < ?n" for i
    using cv(2) [OF that] bspec [OF rows nth_mem [OF that]] by (simp add: batch_args_def Let_def row_ok_def)
  show act: "active ?A i \<longleftrightarrow> i < ?n" for i using nz n by (auto simp: active_def)
  show key: "i < ?n \<Longrightarrow> str_key m ?A i = fst (concat bs ! i)" for i
    using cv(1) by (simp add: str_key_def add_addr_def batch_args_def Let_def)
  show "str_keys m ?A = keys_of (concat bs)"
  proof -
    have "str_keys m ?A = (\<lambda>i. fst (concat bs ! i)) ` {..<?n}"
      unfolding str_keys_def active_def [symmetric] act using key by force
    also have "\<dots> = keys_of (concat bs)"
      unfolding keys_of_def by (simp add: set_conv_nth image_image [symmetric] image_Collect lessThan_def)
    finally show ?thesis .
  qed
  show "i < ?n \<Longrightarrow> add_addr ?A i + in_lens ?A i \<le> col_buf (cuda_buffer_keys c) + col_sz (cuda_buffer_keys c) \<and>
      col_buf (cuda_buffer_keys c) \<le> add_addr ?A i"
    using cv(3) by (simp add: add_addr_def batch_args_def Let_def)
qed

lemma batch_input_ok:
  assumes od: "orders_ok od" and keys: "column_holds m (cuda_buffer_keys c) (map (map fst) bs)"
    and rows: "\<forall>r \<in> set (concat bs). row_ok r" and cfg: "chunk_config c"
    and ok: "strings_ok m (cuda_hash_table c)"
  shows "add_input_ok (cuda_hash_table c) (batch_args od c)"
    and "str_buf_sz (cuda_hash_table c) + new_size m (cuda_hash_table c) (batch_args od c) < 2 ^ 32"
    and "length (concat bs) < 2 ^ 32"
proof -
  let ?A = "batch_args od c" and ?T = "cuda_hash_table c" and ?ks = "cuda_buffer_keys c"
  note ba = batch_args_keys [OF od keys rows]
  have sz: "col_sz ?ks \<le> col_max_sz ?ks" "col_max_sz ?ks < 2 ^ 32" "length (concat bs) < 2 ^ 32"
    "length (concat bs) \<le> col_max_str_num ?ks" "col_sz ?ks = length (concat (map fst (concat bs)))"
    using keys by (auto simp: column_holds_def block_bytes_def map_concat [symmetric])
  show "length (concat bs) < 2 ^ 32" by fact
  have cf: "col_buf ?ks \<noteq> 0" "col_max_sz ?ks + 7 * col_max_str_num ?ks + str_buf_max_sz ?T < 2 ^ 32"
    "col_buf ?ks + col_max_sz ?ks \<le> str_buf ?T \<or> str_buf ?T + str_buf_max_sz ?T \<le> col_buf ?ks"
    using cfg by (simp_all add: chunk_config_def Let_def)
  have "in_lens ?A i + 7 < 2 ^ 32 \<and>
      (add_addr ?A i + in_lens ?A i \<le> str_buf ?T \<or> str_buf ?T + str_buf_max_sz ?T \<le> add_addr ?A i)" if "active ?A i" for i
  proof -
    have i: "i < length (concat bs)" using ba(2) that by simp
    have "0 < col_max_str_num ?ks" using i sz(4) by linarith
    then show ?thesis using ba(5) [OF i] sz(1) cf(2,3) by linarith
  qed
  moreover have "buf ?A = col_buf ?ks" by (simp add: batch_args_def Let_def)
  ultimately show "add_input_ok ?T ?A" using ba(1) sz(3) cf(1) unfolding add_input_ok_def by simp
  have "new_strings m ?T ?A \<subseteq> set (map fst (concat bs))"
    using ba(4) by (auto simp: new_strings_def keys_of_def)
  from pad8_sum_le [OF finite_subset [OF this finite_set] this]
  have "new_size m ?T ?A \<le> col_sz ?ks + 7 * length (concat bs)" unfolding new_size_def sz(5) by simp
  moreover have "str_buf_sz ?T \<le> str_buf_max_sz ?T" using ok by (simp add: strings_ok_def buffer_ok_def)
  ultimately show "str_buf_sz ?T + new_size m ?T ?A < 2 ^ 32" using cf(2) sz(1,4) by linarith
qed

lemma batch_values_ok:
  assumes od: "orders_ok od" and vals: "column_holds m C (map (map snd) bs)"
    and rows: "\<forall>r \<in> set (concat bs). row_ok r"
    and frame: "\<And>x. col_buf C \<le> x \<Longrightarrow> x < col_buf C + col_max_sz C \<Longrightarrow> m' x = m x"
  shows "values_ok m' (calcLengths (column_orders od C) C) (length (concat bs)) (\<lambda>i. snd (concat bs ! i))"
  unfolding values_ok_def
proof (intro allI impI)
  let ?C = "calcLengths (column_orders od C) C"
  fix i assume i: "i < length (concat bs)"
  note cv = column_values [OF od vals i]
  have "col_sz C \<le> col_max_sz C" "col_max_sz C < 2 ^ 32" using vals by (auto simp: column_holds_def)
  then have lim: "col_offsets ?C i + col_lens ?C i \<le> col_max_sz C" "col_offsets ?C i + col_lens ?C i < 2 ^ 32"
    using cv(3) by auto
  moreover have "bytes_at m' (col_buf C + col_offsets ?C i) (col_lens ?C i) = bytes_at m (col_buf C + col_offsets ?C i) (col_lens ?C i)"
    using lim by (intro bytes_at_cong frame) auto
  moreover have "0 < col_lens ?C i" using cv(2) bspec [OF rows nth_mem [OF i]] by (simp add: row_ok_def)
  ultimately show "0 < col_lens ?C i \<and> col_lens ?C i < 2 ^ 32 \<and> col_offsets ?C i < 2 ^ 32 \<and>
      bytes_at m' (col_buf ?C + col_offsets ?C i) (col_lens ?C i) = snd (concat bs ! i)"
    using cv(1) by simp
qed

section \<open>Grouping the rows of a buffer\<close>

lemma values_of_nth:
  "image_mset (\<lambda>i. snd (xs ! i)) {#i \<in># mset [0..<length xs]. fst (xs ! i) = k#} = values_of xs k"
proof -
  have "mset xs = image_mset ((!) xs) (mset [0..<length xs])" by (metis map_nth mset_map)
  then have "{#r \<in># mset xs. fst r = k#} = image_mset ((!) xs) {#i \<in># mset [0..<length xs]. fst (xs ! i) = k#}"
    by (simp only: filter_mset_image_mset)
  then show ?thesis by (simp add: values_of_def multiset.map_comp comp_def)
qed

lemma keys_size_union:
  "finite K \<Longrightarrow> finite L \<Longrightarrow> keys_size (K \<union> L) = keys_size K + keys_size (L - K)"
  unfolding keys_size_def by (metis Un_Diff_cancel sum.union_disjoint Diff_disjoint finite_Diff)

text \<open>The rows of a bucket after the insertion of a batch.\<close>

lemma inserted_values:
  assumes ins: "inserted m T A m' T' res" and ok: "strings_ok m T" and c: "contents m T = keys_of rs"
    and act: "\<And>i. active A i \<longleftrightarrow> i < length xs" and key: "\<forall>i < length xs. str_key m A i = fst (xs ! i)"
  shows "(case tab_entry m' T' b of None \<Rightarrow> {#} | Some k \<Rightarrow> values_of (rs @ xs) k) =
    image_mset (\<lambda>i. snd (xs ! i)) (group_of (length xs) res b) + (case tab_entry m T b of None \<Rightarrow> {#} | Some k \<Rightarrow> values_of rs k)"
proof -
  have ok': "strings_ok m' T'" and keep: "\<And>b s. tab_entry m T b = Some s \<Longrightarrow> tab_entry m' T' b = Some s"
    and at: "\<And>i. i < length xs \<Longrightarrow> tab_entry m' T' (res i) = Some (fst (xs ! i))"
    using ins act key by (simp_all add: inserted_def)
  show ?thesis
  proof (cases "tab_entry m' T' b")
    case None
    then have "tab_entry m T b = None" using keep by (cases "tab_entry m T b") auto
    moreover have "res i \<noteq> b" if "i < length xs" for i using at [OF that] None by auto
    then have "group_of (length xs) res b = {#}"
      using set_group_of [of "length xs" res b] by (auto simp: set_mset_eq_empty_iff [symmetric])
    ultimately show ?thesis using None by simp
  next
    case (Some k)
    have "res i = b \<longleftrightarrow> fst (xs ! i) = k" if "i < length xs" for i
      using at [OF that] Some strings_ok_unique [OF ok'] by auto
    then have "group_of (length xs) res b = {#i \<in># mset [0..<length xs]. fst (xs ! i) = k#}"
      unfolding group_of_def by (intro filter_mset_cong) auto
    then have "image_mset (\<lambda>i. snd (xs ! i)) (group_of (length xs) res b) = values_of xs k"
      by (simp only: values_of_nth)
    moreover have "(case tab_entry m T b of None \<Rightarrow> {#} | Some k \<Rightarrow> values_of rs k) = values_of rs k"
    proof (cases "tab_entry m T b")
      case None
      have "k \<notin> keys_of rs"
      proof
        assume "k \<in> keys_of rs"
        then obtain d where d: "tab_entry m T d = Some k" using c by (auto simp: contents_def)
        have "d = b" by (rule strings_ok_unique [OF ok' keep [OF d] Some])
        then show False using d None by simp
      qed
      then show ?thesis using None by (simp add: values_of_None)
    qed (use keep Some in auto)
    ultimately show ?thesis using Some by simp
  qed
qed

context agg_contract
begin

lemma batch_spec:
  assumes od: "orders_ok od" and E: "exclusive_sum_spec E" and m: "m = dev_mem dev"
    and keys: "column_holds m (cuda_buffer_keys c) (map (map fst) bs)"
    and vals: "isDataNeeded F \<longrightarrow> column_holds m (cuda_buffer_vals c) (map (map snd) bs)"
    and rows: "\<forall>r \<in> set (concat bs). row_ok r" and cfg: "chunk_config c"
    and tab: "table_state rep m (cuda_hash_table c) (group_agg_res c) rs" and nf: "\<not> dev_table_is_full dev"
    and cap: "card (keys_of (rs @ concat bs)) \<le> tab_buckets_num (cuda_hash_table c)"
      "keys_size (keys_of (rs @ concat bs)) \<le> str_buf_max_sz (cuda_hash_table c)"
  obtains ks vs T' res agg' dev' where
    "processChunk_batch E od F (isDataNeeded F) c dev =
       Inr (c\<lparr>cuda_buffer_keys := column_reset ks, cuda_buffer_vals := column_reset vs, cuda_hash_table := T',
              group_nums := res, group_agg_res := agg', cuda_processing_state := False\<rparr>, dev')"
    and "\<exists>os. ks = calcLengths os (cuda_buffer_keys c)"
    and "vs = cuda_buffer_vals c \<or> (\<exists>os. vs = calcLengths os (cuda_buffer_vals c))"
    and "table_state rep (dev_mem dev') T' agg' (rs @ concat bs)" and "\<not> dev_table_is_full dev'"
    and "inserted m (cuda_hash_table c) (batch_args od c) (dev_mem dev') T' res"
proof -
  let ?T = "cuda_hash_table c" and ?A = "batch_args od c" and ?n = "length (concat bs)"
  let ?ks = "calcLengths (column_orders od (cuda_buffer_keys c)) (cuda_buffer_keys c)"
  let ?vs = "if isDataNeeded F then calcLengths (column_orders od (cuda_buffer_vals c)) (cuda_buffer_vals c)
    else cuda_buffer_vals c"
  have ok: "strings_ok m ?T" and con: "contents m ?T = keys_of rs" and bsz: "str_buf_sz ?T = keys_size (keys_of rs)"
    and rp: "\<And>b. b < tab_buckets_num ?T \<Longrightarrow>
      rep (case tab_entry m ?T b of None \<Rightarrow> {#} | Some k \<Rightarrow> values_of rs k) (group_agg_res c b)"
    using tab by (simp_all add: table_state_def)
  note ba = batch_args_keys [OF od keys rows] and bi = batch_input_ok [OF od keys rows cfg ok]
  have n: "col_str_num ?ks mod 2 ^ 32 = ?n" using ba(1) bi(3) by (simp add: batch_args_def Let_def)
  have A: "?A = add_args_of ?T ?n (col_buf ?ks) (col_offsets ?ks) (col_lens ?ks)"
    using ba(1) by (simp add: batch_args_def Let_def)
  obtain r T' dev' res where r: "addData E (grid_order od 0 (tab_buckets_num ?T)) (add_sched od ?A) (grid_order od 1 ?n) ?T dev ?n
      (col_buf ?ks) (col_offsets ?ks) (col_lens ?ks) (group_nums c) = (r, T', dev', res)"
    by (cases rule: prod_cases4)
  have nT: "tab_buckets_num ?T < 2 ^ 32" using ok by (simp add: strings_ok_def buffer_ok_def)
  have o: "schedule (tab_buckets_num ?T div 256 + 1) 256 (grid_order od 0 (tab_buckets_num ?T))"
    "schedule (?n div 256 + 1) 256 (grid_order od 1 ?n)" "fair ?A (add_sched od ?A)"
    using od nT bi(3) unfolding orders_ok_def by blast+
  have b0: "col_buf ?ks \<noteq> 0" using bi(1) by (simp add: add_input_ok_def A)
  note spec = addData_spec [OF ok [unfolded m] A bi(1) nf E o(1,2) add_run_exits [OF ok [unfolded m] A b0 o(3)]
      bi(2) [unfolded m] r, folded m]
  have nsz: "new_size m ?T ?A = keys_size (keys_of (concat bs) - keys_of rs)"
    by (simp add: new_size_def new_strings_def keys_size_def con ba(4))
  then have tot: "str_buf_sz ?T + new_size m ?T ?A = keys_size (keys_of (rs @ concat bs))"
    using bsz keys_size_union by simp
  then have "r = Inr ()" using spec(1) cap by (simp add: add_outcome_def con ba(4))
  then have ins: "inserted m ?T ?A (dev_mem dev') T' res" and nf': "\<not> dev_table_is_full dev'" using spec(2) by simp_all
  let ?agg = "cudaAddBulk F od (dev_mem dev') ?vs ?n res (agg_tmp_buf c) (group_agg_res c)"
  have frame: "\<And>x. x < str_buf ?T \<or> str_buf ?T + str_buf_max_sz ?T \<le> x \<Longrightarrow> dev_mem dev' x = m x"
    using ins unfolding inserted_def by blast
  have v: "values_ok (dev_mem dev') ?vs ?n (\<lambda>i. snd (concat bs ! i))" if "isDataNeeded F"
    using batch_values_ok [OF od _ rows, of m "cuda_buffer_vals c" "dev_mem dev'"] vals that cfg frame
    by (auto simp: chunk_config_def Let_def)
  have key: "\<forall>i < ?n. str_key m ?A i = fst (concat bs ! i)" using ba(3) by blast
  have "rep (case tab_entry (dev_mem dev') T' b of None \<Rightarrow> {#} | Some k \<Rightarrow> values_of (rs @ concat bs) k) (?agg b)"
    if "b < tab_buckets_num ?T" for b
    unfolding inserted_values [OF ins ok con ba(2) key] by (rule add_rep [where places = "group_agg_res c" and b = b, OF od bi(3) rp [OF that] v])
  then have "table_state rep (dev_mem dev') T' ?agg (rs @ concat bs)"
    using ins con ba(4) tot by (simp add: table_state_def inserted_def)
  moreover have "processChunk_batch E od F (isDataNeeded F) c dev =
      Inr (c\<lparr>cuda_buffer_keys := column_reset ?ks, cuda_buffer_vals := column_reset ?vs, cuda_hash_table := T',
              group_nums := res, group_agg_res := ?agg, cuda_processing_state := False\<rparr>, dev')"
    using r \<open>r = Inr ()\<close> unfolding processChunk_batch_def Let_def n A [symmetric] by simp
  moreover have "?vs = cuda_buffer_vals c \<or> (\<exists>os. ?vs = calcLengths os (cuda_buffer_vals c))" by auto
  ultimately show ?thesis using nf' ins by (intro that [where ks = ?ks and vs = ?vs and T' = T' and res = res and agg' = ?agg and dev' = dev']) blast+
qed

end

end
