(* ===== verification/Aggregator_Run.thy ===== *)
theory Aggregator_Run
  imports Aggregator_Chunk
begin

text \<open>
  Runs of the aggregator: the invariant of the threads that fill and process the chunks.  It says where
  every row is, in a block that is still to be queued, in the buffer of a chunk, or in its table.
\<close>

section \<open>Chunks\<close>

definition chunk_shape :: "'s chunk \<Rightarrow> (nat \<times> nat \<times> nat) \<times> (nat \<times> nat \<times> nat) \<times> (nat \<times> nat \<times> nat)" where
  "chunk_shape c =
     ((col_buf (cuda_buffer_keys c), col_max_sz (cuda_buffer_keys c), col_max_str_num (cuda_buffer_keys c)),
      (col_buf (cuda_buffer_vals c), col_max_sz (cuda_buffer_vals c), col_max_str_num (cuda_buffer_vals c)),
      (str_buf (cuda_hash_table c), str_buf_max_sz (cuda_hash_table c), tab_buckets_num (cuda_hash_table c)))"

text \<open>The device memory of a chunk.\<close>

definition chunk_region :: "'s chunk \<Rightarrow> nat set" where
  "chunk_region c =
     {col_buf (cuda_buffer_keys c)..<col_buf (cuda_buffer_keys c) + col_max_sz (cuda_buffer_keys c)} \<union>
     {col_buf (cuda_buffer_vals c)..<col_buf (cuda_buffer_vals c) + col_max_sz (cuda_buffer_vals c)} \<union>
     {str_buf (cuda_hash_table c)..<str_buf (cuda_hash_table c) + str_buf_max_sz (cuda_hash_table c)}"

text \<open>The table of the chunk is large enough for a set of keys, an empty buffer large enough for a block.\<close>

definition capacity_ok :: "8 word list set \<Rightarrow> 's chunk \<Rightarrow> bool" where
  "capacity_ok K c \<longleftrightarrow> card K \<le> tab_buckets_num (cuda_hash_table c) \<and> keys_size K \<le> str_buf_max_sz (cuda_hash_table c)"

definition chunk_fits :: "queue_args \<Rightarrow> 's chunk \<Rightarrow> bool" where
  "chunk_fits q c \<longleftrightarrow>
     q_str_num q \<le> col_max_str_num (cuda_buffer_keys c) \<and> q_str_buf_sz q \<le> col_max_sz (cuda_buffer_keys c) \<and>
     q_str_num q \<le> col_max_str_num (cuda_buffer_vals c) \<and> q_vals_str_buf_sz q \<le> col_max_sz (cuda_buffer_vals c)"

lemma shape_same:
  assumes "chunk_shape c = chunk_shape c'"
  shows "chunk_config c = chunk_config c'" and "chunk_region c = chunk_region c'"
    and "capacity_ok K c = capacity_ok K c'" and "chunk_fits q c = chunk_fits q c'"
  using assms
  by (simp_all add: chunk_shape_def chunk_config_def chunk_region_def capacity_ok_def chunk_fits_def Let_def)

definition chunk_state ::
  "(8 word list multiset \<Rightarrow> 's \<Rightarrow> bool) \<Rightarrow> bool \<Rightarrow> memory \<Rightarrow> 's chunk \<Rightarrow> row list list \<Rightarrow> row list \<Rightarrow> bool" where
  "chunk_state rep need m c bs rs \<longleftrightarrow> chunk_config c \<and>
     column_holds m (cuda_buffer_keys c) (map (map fst) bs) \<and>
     column_holds m (cuda_buffer_vals c) (if need then map (map snd) bs else []) \<and>
     (\<forall>r \<in> set (concat bs). row_ok r) \<and>
     (if worker c = Started then rs = [] \<and> raw_ok (cuda_hash_table c)
      else table_state rep m (cuda_hash_table c) (group_agg_res c) rs) \<and>
     (worker c = Returned \<longrightarrow> (\<forall>b < tab_buckets_num (cuda_hash_table c). tab_offsets (cuda_hash_table c) b =
        sub64 (tab_pointers (cuda_hash_table c) b) (str_buf (cuda_hash_table c)) mod 2 ^ 32))"

lemma column_holds_frame:
  assumes "column_holds m C bs" and "\<And>x. col_buf C \<le> x \<Longrightarrow> x < col_buf C + col_max_sz C \<Longrightarrow> m' x = m x"
  shows "column_holds m' C bs"
proof -
  have "col_sz C \<le> col_max_sz C" using assms(1) by (simp add: column_holds_def)
  then have e: "bytes_at m' (col_buf C) (col_sz C) = bytes_at m (col_buf C) (col_sz C)"
    using assms(2) by (intro bytes_at_cong) auto
  show ?thesis using assms(1) unfolding column_holds_def e .
qed

lemma chunk_state_frame:
  assumes "chunk_state rep need m c bs rs" and "\<And>x. x \<in> chunk_region c \<Longrightarrow> m' x = m x"
  shows "chunk_state rep need m' c bs rs"
proof -
  have keys: "column_holds m (cuda_buffer_keys c) (map (map fst) bs)"
    and vals: "column_holds m (cuda_buffer_vals c) (if need then map (map snd) bs else [])"
    using assms(1) unfolding chunk_state_def by blast+
  have "column_holds m' (cuda_buffer_keys c) (map (map fst) bs)"
    by (rule column_holds_frame [OF keys]) (rule assms(2), simp add: chunk_region_def)
  moreover have "column_holds m' (cuda_buffer_vals c) (if need then map (map snd) bs else [])"
    by (rule column_holds_frame [OF vals]) (rule assms(2), simp add: chunk_region_def)
  moreover have "table_state rep m' (cuda_hash_table c) (group_agg_res c) rs" if "worker c \<noteq> Started"
  proof -
    have "table_state rep m (cuda_hash_table c) (group_agg_res c) rs" using assms(1) that by (simp add: chunk_state_def)
    then show ?thesis by (rule table_state_frame) (rule assms(2), simp add: chunk_region_def)
  qed
  ultimately show ?thesis using assms(1) by (simp add: chunk_state_def)
qed

lemma column_empty_rows:
  assumes "column_holds m C (map (map fst) bs)" and "\<forall>r \<in> set (concat bs). row_ok r"
  shows "column_empty C \<longleftrightarrow> concat bs = []"
proof -
  have n: "col_str_num C = length (concat bs)" "col_sz C = length (concat (map fst (concat bs)))"
    using assms(1) by (simp_all add: column_holds_def block_bytes_def map_concat [symmetric])
  have "concat (map fst (concat bs)) \<noteq> []" if "concat bs \<noteq> []"
  proof -
    from that obtain r where r: "r \<in> set (concat bs)" by (meson list.set_sel(1))
    then have "row_ok r" using assms(2) by blast
    then have "fst r \<in> set (map fst (concat bs))" "fst r \<noteq> []" using r by (auto simp: row_ok_def)
    then show ?thesis unfolding concat_eq_Nil_conv by blast
  qed
  then show ?thesis by (auto simp: column_empty_def n)
qed

lemma chunk_state_processing [simp]:
  "chunk_state rep need m (c\<lparr>cuda_processing_state := p\<rparr>) bs rs = chunk_state rep need m c bs rs"
  by (simp add: chunk_state_def chunk_config_def)

lemma chunk_shape_simps [simp]:
  "chunk_shape (c\<lparr>cuda_processing_state := p\<rparr>) = chunk_shape c"
  "chunk_shape (c\<lparr>worker := w\<rparr>) = chunk_shape c"
  by (simp_all add: chunk_shape_def)

subsection \<open>The operations of the thread of a chunk\<close>

lemma erase_fields [simp]:
  "str_buf (erase order T) = str_buf T" "str_buf_max_sz (erase order T) = str_buf_max_sz T"
  "tab_buckets_num (erase order T) = tab_buckets_num T" "str_buf_sz (erase order T) = 0"
  by (simp_all add: erase_def split: prod.split)

lemma calcOffsets_fields [simp]:
  "str_buf (calcOffsets order T) = str_buf T" "str_buf_max_sz (calcOffsets order T) = str_buf_max_sz T"
  "tab_buckets_num (calcOffsets order T) = tab_buckets_num T" "str_buf_sz (calcOffsets order T) = str_buf_sz T"
  "tab_pointers (calcOffsets order T) = tab_pointers T" "tab_lens (calcOffsets order T) = tab_lens T"
  "tab_hashes (calcOffsets order T) = tab_hashes T" "buf1 (calcOffsets order T) = buf1 T"
  by (simp_all add: calcOffsets_def)

lemma table_state_calcOffsets: "table_state rep m (calcOffsets order T) agg rs = table_state rep m T agg rs"
proof -
  have e: "tab_entry m (calcOffsets order T) = tab_entry m T" by (rule ext) (simp add: tab_entry_simp)
  have "tab_mem (calcOffsets order T) = tab_mem T" "tab_args (calcOffsets order T) = tab_args T"
    by (simp_all add: tab_mem_def add_mem_of_def tab_args_def add_args_of_def)
  then show ?thesis by (simp add: table_state_def strings_ok_def buffer_ok_def contents_def e)
qed

lemma processChunk_end_state:
  assumes "chunk_state rep need m c bs rs" and "worker c = Waiting" and "orders_ok od"
  shows "chunk_state rep need m (processChunk_end od c) bs rs \<and> chunk_shape (processChunk_end od c) = chunk_shape c \<and>
    worker (processChunk_end od c) = Returned \<and>
    cuda_processing_state (processChunk_end od c) = cuda_processing_state c"
proof -
  let ?T = "cuda_hash_table c" and ?o = "grid_order od 0 (tab_buckets_num (cuda_hash_table c))"
  have t: "table_state rep m ?T (group_agg_res c) rs" using assms by (simp add: chunk_state_def)
  then have n: "tab_buckets_num ?T < 2 ^ 32" by (simp add: table_state_def strings_ok_def buffer_ok_def)
  then have "schedule (tab_buckets_num ?T div 256 + 1) 256 ?o" using assms(3) by (simp add: orders_ok_def)
  then have "tab_offsets (calcOffsets ?o ?T) b = sub64 (tab_pointers ?T b) (str_buf ?T) mod 2 ^ 32"
    if "b < tab_buckets_num ?T" for b
    using calc_offsets.launch_cells [of _ ?o "tab_buckets_num ?T" "str_buf ?T" "tab_pointers ?T" "tab_offsets ?T"] grid_256 [OF n]
      that by (simp add: calcOffsets_def)
  then show ?thesis using assms(1,2) t
    by (simp add: chunk_state_def processChunk_end_def Let_def chunk_shape_def chunk_config_def table_state_calcOffsets)
qed

lemma column_reset_shape [simp]:
  "col_buf (column_reset C) = col_buf C" "col_max_sz (column_reset C) = col_max_sz C"
  "col_max_str_num (column_reset C) = col_max_str_num C"
  by (simp_all add: column_reset_def)

context agg_contract
begin

lemma processChunk_begin_state:
  assumes "chunk_state rep need m c bs rs" and "worker c = Started" and "orders_ok od"
  shows "chunk_state rep need m (processChunk_begin od F c) bs rs \<and>
    chunk_shape (processChunk_begin od F c) = chunk_shape c \<and> worker (processChunk_begin od F c) = Waiting \<and>
    cuda_processing_state (processChunk_begin od F c) = cuda_processing_state c"
proof -
  let ?T = "cuda_hash_table c" and ?o = "grid_order od 0 (tab_buckets_num (cuda_hash_table c))"
  have raw: "raw_ok ?T" "rs = []" using assms by (simp_all add: chunk_state_def)
  then have n: "tab_buckets_num ?T < 2 ^ 32" by (simp add: raw_ok_def)
  then have o: "schedule (tab_buckets_num ?T div 256 + 1) 256 ?o" using assms(3) by (simp add: orders_ok_def)
  have en: "tab_entry m (erase ?o ?T) b = None" for b
    using erase_spec(2) [OF raw(1) o, of m] by (cases "tab_entry m (erase ?o ?T) b") (auto simp: contents_def)
  have "table_state rep m (erase ?o ?T) (cudaInitAggregateData F od (tab_buckets_num ?T) (group_agg_res c)) []"
    using erase_spec [OF raw(1) o, of m] init_rep [OF assms(3) n] en
    by (simp add: table_state_def keys_of_def keys_size_def)
  then show ?thesis using assms(1,2) raw(2)
    by (simp add: chunk_state_def processChunk_begin_def Let_def chunk_shape_def chunk_config_def)
qed

lemma processChunk_batch_state:
  assumes st: "chunk_state rep (isDataNeeded F) (dev_mem dev) c bs rs" and w: "worker c = Waiting" and od: "orders_ok od"
    and E: "exclusive_sum_spec E" and nf: "\<not> dev_table_is_full dev" and cap: "capacity_ok K c"
    and K: "finite K" "keys_of (rs @ concat bs) \<subseteq> K"
  obtains c' dev' where "processChunk_batch E od F (isDataNeeded F) c dev = Inr (c', dev')"
    and "chunk_state rep (isDataNeeded F) (dev_mem dev') c' [] (rs @ concat bs)" and "\<not> dev_table_is_full dev'"
    and "chunk_shape c' = chunk_shape c" and "worker c' = Waiting" and "\<not> cuda_processing_state c'"
    and "\<forall>x. x \<notin> chunk_region c \<longrightarrow> dev_mem dev' x = dev_mem dev x"
proof -
  let ?T = "cuda_hash_table c"
  have cfg: "chunk_config c" and keys: "column_holds (dev_mem dev) (cuda_buffer_keys c) (map (map fst) bs)"
    and vals: "column_holds (dev_mem dev) (cuda_buffer_vals c) (if isDataNeeded F then map (map snd) bs else [])"
    and rows: "\<forall>r \<in> set (concat bs). row_ok r"
    and tab: "table_state rep (dev_mem dev) ?T (group_agg_res c) rs"
    using st w by (simp_all add: chunk_state_def)
  have cap1: "card (keys_of (rs @ concat bs)) \<le> tab_buckets_num ?T"
    using cap card_mono [OF K] by (simp add: capacity_ok_def)
  have cap2: "keys_size (keys_of (rs @ concat bs)) \<le> str_buf_max_sz ?T"
    using cap sum_mono2 [OF K, of "\<lambda>s. pad8 (length s)"] by (simp add: capacity_ok_def keys_size_def)
  have vals': "isDataNeeded F \<longrightarrow> column_holds (dev_mem dev) (cuda_buffer_vals c) (map (map snd) bs)"
    using vals by (cases "isDataNeeded F") simp_all
  obtain ks vs T' res agg' dev' where
    r: "processChunk_batch E od F (isDataNeeded F) c dev =
       Inr (c\<lparr>cuda_buffer_keys := column_reset ks, cuda_buffer_vals := column_reset vs, cuda_hash_table := T',
              group_nums := res, group_agg_res := agg', cuda_processing_state := False\<rparr>, dev')" (is "_ = Inr (?c, _)")
    and ks: "\<exists>os. ks = calcLengths os (cuda_buffer_keys c)"
    and vs: "vs = cuda_buffer_vals c \<or> (\<exists>os. vs = calcLengths os (cuda_buffer_vals c))"
    and tab': "table_state rep (dev_mem dev') T' agg' (rs @ concat bs)" and nf': "\<not> dev_table_is_full dev'"
    and ins: "inserted (dev_mem dev) ?T (batch_args od c) (dev_mem dev') T' res"
    by (rule batch_spec [OF od E refl keys vals' rows cfg tab nf cap1 cap2])
  have sh: "chunk_shape ?c = chunk_shape c"
    using ks vs ins by (auto simp: chunk_shape_def inserted_def)
  have "column_holds (dev_mem dev') (column_reset ks) []" "column_holds (dev_mem dev') (column_reset vs) []"
  proof -
    have lim: "col_max_str_num C < 2 ^ 32 \<and> col_max_sz C < 2 ^ 32" if "column_holds (dev_mem dev) C xs" for C xs
      using that by (simp add: column_holds_def)
    have "col_max_str_num ks < 2 ^ 32 \<and> col_max_sz ks < 2 ^ 32" using lim [OF keys] ks by auto
    moreover have "col_max_str_num vs < 2 ^ 32 \<and> col_max_sz vs < 2 ^ 32" using lim [OF vals] vs by auto
    ultimately show "column_holds (dev_mem dev') (column_reset ks) []" "column_holds (dev_mem dev') (column_reset vs) []"
      using column_reset_holds by blast+
  qed
  then have st': "chunk_state rep (isDataNeeded F) (dev_mem dev') ?c [] (rs @ concat bs)"
    using tab' w cfg shape_same(1) [OF sh] by (simp add: chunk_state_def)
  have "dev_mem dev' x = dev_mem dev x" if "x \<notin> chunk_region c" for x
  proof -
    have "x < str_buf ?T \<or> str_buf ?T + str_buf_max_sz ?T \<le> x" using that by (auto simp: chunk_region_def)
    then show ?thesis using ins unfolding inserted_def by blast
  qed
  then show ?thesis using that [OF r st' nf' sh] w by simp
qed

end

section \<open>Blocks of rows\<close>

text \<open>The strings of a block in host memory, from the ends of its strings.\<close>

definition block_start :: "(nat \<Rightarrow> nat) \<Rightarrow> nat \<Rightarrow> nat" where
  "block_start offs i = (if i = 0 then 0 else offs (i - 1))"

definition block_of :: "memory \<Rightarrow> nat \<Rightarrow> (nat \<Rightarrow> nat) \<Rightarrow> nat \<Rightarrow> 8 word list list" where
  "block_of host a offs n = map (\<lambda>i. bytes_at host (a + block_start offs i) (offs i - block_start offs i)) [0..<n]"

definition block_wf :: "(nat \<Rightarrow> nat) \<Rightarrow> nat \<Rightarrow> nat \<Rightarrow> bool" where
  "block_wf offs n sz \<longleftrightarrow> (\<forall>i < n. block_start offs i < offs i) \<and> block_start offs n = sz \<and> n < 2 ^ 63 \<and> sz < 2 ^ 63"

lemma block_of_take:
  assumes "block_wf offs n sz" and "k \<le> n"
  shows "concat (take k (block_of host a offs n)) = bytes_at host a (block_start offs k)"
  using assms(2)
proof (induction k)
  case (Suc k)
  then have k: "k < n" by simp
  have "block_start offs k < offs k" using assms(1) k by (simp add: block_wf_def)
  then have "block_start offs (Suc k) = block_start offs k + (offs k - block_start offs k)" by (simp add: block_start_def)
  moreover have "take (Suc k) (block_of host a offs n) = take k (block_of host a offs n) @
      [bytes_at host (a + block_start offs k) (offs k - block_start offs k)]"
    using k by (simp add: block_of_def take_Suc_conv_app_nth)
  ultimately show ?case using Suc by (simp only: bytes_at_append concat_append concat.simps append_Nil2 Suc_leD)
qed (simp add: block_start_def bytes_at_def)

lemma block_of_ok:
  assumes "block_wf offs n sz"
  shows "length (block_of host a offs n) = n" and "block_bytes (block_of host a offs n) = sz"
    and "bytes_at host a sz = concat (block_of host a offs n)"
    and "\<forall>i < n. offs i = block_offsets (block_of host a offs n) i"
    and "[] \<notin> set (block_of host a offs n)"
proof -
  show l: "length (block_of host a offs n) = n" by (simp add: block_of_def)
  show c: "bytes_at host a sz = concat (block_of host a offs n)"
    using block_of_take [OF assms, of n host a] assms l by (simp add: block_wf_def)
  show "block_bytes (block_of host a offs n) = sz" unfolding block_bytes_def c [symmetric] by simp
  show "\<forall>i < n. offs i = block_offsets (block_of host a offs n) i"
    using block_of_take [OF assms, of "Suc i" host a for i] by (simp add: block_offsets_def block_start_def)
  show "[] \<notin> set (block_of host a offs n)"
    using assms by (auto simp: block_of_def block_wf_def bytes_at_def)
qed

definition queue_ok :: "queue_args \<Rightarrow> bool" where
  "queue_ok q \<longleftrightarrow> block_wf (q_offsets q) (q_str_num q) (q_str_buf_sz q) \<and>
     block_wf (q_vals_offsets q) (q_str_num q) (q_vals_str_buf_sz q)"

definition rows_of :: "memory \<Rightarrow> queue_args \<Rightarrow> row list" where
  "rows_of host q = zip (block_of host (q_str_buf q) (q_offsets q) (q_str_num q))
     (block_of host (q_vals_str_buf q) (q_vals_offsets q) (q_str_num q))"

lemma rows_of_ok:
  assumes "queue_ok q"
  shows "map fst (rows_of host q) = block_of host (q_str_buf q) (q_offsets q) (q_str_num q)"
    and "map snd (rows_of host q) = block_of host (q_vals_str_buf q) (q_vals_offsets q) (q_str_num q)"
    and "length (rows_of host q) = q_str_num q" and "\<forall>r \<in> set (rows_of host q). row_ok r"
proof -
  have w: "block_wf (q_offsets q) (q_str_num q) (q_str_buf_sz q)" "block_wf (q_vals_offsets q) (q_str_num q) (q_vals_str_buf_sz q)"
    using assms by (simp_all add: queue_ok_def)
  note k = block_of_ok [OF w(1), of host "q_str_buf q"] and v = block_of_ok [OF w(2), of host "q_vals_str_buf q"]
  show "map fst (rows_of host q) = block_of host (q_str_buf q) (q_offsets q) (q_str_num q)"
    "map snd (rows_of host q) = block_of host (q_vals_str_buf q) (q_vals_offsets q) (q_str_num q)"
    "length (rows_of host q) = q_str_num q"
    using k(1) v(1) by (simp_all add: rows_of_def)
  show "\<forall>r \<in> set (rows_of host q). row_ok r"
    using k(5) v(5) by (auto simp: rows_of_def row_ok_def dest: set_zip_leftD set_zip_rightD)
qed

subsection \<open>Filling a buffer\<close>

text \<open>One column of a block.\<close>

lemma addData_block:
  assumes h: "column_holds m C bs" and w: "block_wf offs n sz" and sp: "hasSpace C n sz"
    and r: "column_addData n sz host a offs (m, C) = (m', C')"
  shows "column_holds m' C' (bs @ [block_of host a offs n])"
    and "x < col_buf C \<or> col_buf C + col_max_sz C \<le> x \<Longrightarrow> m' x = m x"
    and "col_buf C' = col_buf C" and "col_max_sz C' = col_max_sz C" and "col_max_str_num C' = col_max_str_num C"
proof -
  note b = block_of_ok [OF w, of host a]
  have sp': "hasSpace C (length (block_of host a offs n)) (block_bytes (block_of host a offs n))" using sp b by simp
  have r': "column_addData (length (block_of host a offs n)) (block_bytes (block_of host a offs n)) host a offs (m, C) = (m', C')"
    using r b by simp
  have lim: "length (block_of host a offs n) < 2 ^ 63" "block_bytes (block_of host a offs n) < 2 ^ 63"
    using w b by (simp_all add: block_wf_def)
  have src: "bytes_at host a (block_bytes (block_of host a offs n)) = concat (block_of host a offs n)"
    "\<forall>i < length (block_of host a offs n). offs i = block_offsets (block_of host a offs n) i"
    using b by simp_all
  note ad = column_addData_holds [OF h sp' lim src r']
  show "column_holds m' C' (bs @ [block_of host a offs n])" "col_buf C' = col_buf C" "col_max_sz C' = col_max_sz C"
    "col_max_str_num C' = col_max_str_num C" by (rule ad)+
  show "x < col_buf C \<or> col_buf C + col_max_sz C \<le> x \<Longrightarrow> m' x = m x" using ad(2) [of x] by auto
qed

lemma queue_state:
  assumes st: "chunk_state rep need m c bs rs" and q: "queue_ok q"
    and sp: "hasSpace (cuda_buffer_keys c) (q_str_num q) (q_str_buf_sz q)"
      "hasSpace (cuda_buffer_vals c) (q_str_num q) (q_vals_str_buf_sz q)"
    and r1: "column_addData (q_str_num q) (q_str_buf_sz q) host (q_str_buf q) (q_offsets q) (m, cuda_buffer_keys c) = (m1, ks)"
    and r2: "(if need then column_addData (q_str_num q) (q_vals_str_buf_sz q) host (q_vals_str_buf q) (q_vals_offsets q)
        (m1, cuda_buffer_vals c) else (m1, cuda_buffer_vals c)) = (m2, vs)"
    and c': "c' = c\<lparr>cuda_buffer_keys := ks, cuda_buffer_vals := vs\<rparr>"
  shows "chunk_state rep need m2 c' (bs @ [rows_of host q]) rs" and "chunk_shape c' = chunk_shape c"
    and "x \<notin> chunk_region c \<Longrightarrow> m2 x = m x"
proof -
  let ?K = "cuda_buffer_keys c" and ?V = "cuda_buffer_vals c" and ?T = "cuda_hash_table c"
  have w: "block_wf (q_offsets q) (q_str_num q) (q_str_buf_sz q)" "block_wf (q_vals_offsets q) (q_str_num q) (q_vals_str_buf_sz q)"
    using q by (simp_all add: queue_ok_def)
  have keys: "column_holds m ?K (map (map fst) bs)" and vals: "column_holds m ?V (if need then map (map snd) bs else [])"
    and cfg: "chunk_config c" using st unfolding chunk_state_def by blast+
  have ap: "col_buf ?K + col_max_sz ?K \<le> str_buf ?T \<or> str_buf ?T + str_buf_max_sz ?T \<le> col_buf ?K"
    "col_buf ?V + col_max_sz ?V \<le> str_buf ?T \<or> str_buf ?T + str_buf_max_sz ?T \<le> col_buf ?V"
    "col_buf ?K + col_max_sz ?K \<le> col_buf ?V \<or> col_buf ?V + col_max_sz ?V \<le> col_buf ?K"
    using cfg by (simp_all add: chunk_config_def Let_def)
  note k = addData_block [OF keys w(1) sp(1) r1]
  have vals1: "column_holds m1 ?V (if need then map (map snd) bs else [])"
    by (rule column_holds_frame [OF vals], rule k(2)) (use ap in auto)
  have "column_holds m2 vs (if need then map (map snd) bs @ [map snd (rows_of host q)] else []) \<and>
      (\<forall>x. x < col_buf ?V \<or> col_buf ?V + col_max_sz ?V \<le> x \<longrightarrow> m2 x = m1 x) \<and>
      col_buf vs = col_buf ?V \<and> col_max_sz vs = col_max_sz ?V \<and> col_max_str_num vs = col_max_str_num ?V"
  proof (cases need)
    case True
    have h: "column_holds m1 ?V (map (map snd) bs)" using vals1 True by simp
    have r: "column_addData (q_str_num q) (q_vals_str_buf_sz q) host (q_vals_str_buf q) (q_vals_offsets q) (m1, ?V) = (m2, vs)"
      using r2 True by simp
    show ?thesis unfolding rows_of_ok(2) [OF q] using addData_block [OF h w(2) sp(2) r] True by simp
  qed (use r2 vals1 in simp)
  then have v: "column_holds m2 vs (if need then map (map snd) bs @ [map snd (rows_of host q)] else [])"
    "\<And>x. x < col_buf ?V \<or> col_buf ?V + col_max_sz ?V \<le> x \<Longrightarrow> m2 x = m1 x"
    "col_buf vs = col_buf ?V" "col_max_sz vs = col_max_sz ?V" "col_max_str_num vs = col_max_str_num ?V"
    by blast+
  have k1: "column_holds m2 ks (map (map fst) bs @ [map fst (rows_of host q)])"
    unfolding rows_of_ok(1) [OF q] by (rule column_holds_frame [OF k(1)], rule v(2)) (use ap k(3,4) in auto)
  show sh: "chunk_shape c' = chunk_shape c" using k v by (simp add: chunk_shape_def c')
  show frame: "x \<notin> chunk_region c \<Longrightarrow> m2 x = m x" for x
    using k(2) [of x] v(2) [of x] by (auto simp: chunk_region_def)
  have same: "m2 x = m x" if "str_buf ?T \<le> x" "x < str_buf ?T + str_buf_max_sz ?T" for x
    using k(2) [of x] v(2) [of x] ap that by auto
  have t: "table_state rep m2 ?T (group_agg_res c) rs" if "worker c \<noteq> Started"
  proof -
    have "table_state rep m ?T (group_agg_res c) rs" using st that by (simp add: chunk_state_def)
    then show ?thesis by (rule table_state_frame) (rule same)
  qed
  have "chunk_config c'" using cfg shape_same(1) [OF sh] by simp
  moreover have "\<forall>r \<in> set (concat (bs @ [rows_of host q])). row_ok r"
    using st rows_of_ok(4) [OF q, of host] unfolding chunk_state_def by auto
  moreover have "column_holds m2 vs (if need then map (map snd) (bs @ [rows_of host q]) else [])" using v(1) by (cases need) simp_all
  moreover have "column_holds m2 ks (map (map fst) (bs @ [rows_of host q]))" using k1 by simp
  ultimately show "chunk_state rep need m2 c' (bs @ [rows_of host q]) rs"
    using st t by (simp only: chunk_state_def c' chunk.simps) simp
qed

text \<open>An empty buffer takes every block that is not larger than it.\<close>

lemma empty_has_space:
  assumes st: "chunk_state rep need m c bs rs" and e: "column_empty (cuda_buffer_keys c)" and q: "queue_ok q" and f: "chunk_fits q c"
  shows "hasSpace (cuda_buffer_keys c) (q_str_num q) (q_str_buf_sz q)"
    "hasSpace (cuda_buffer_vals c) (q_str_num q) (q_vals_str_buf_sz q)"
proof -
  let ?K = "cuda_buffer_keys c" and ?V = "cuda_buffer_vals c"
  have keys: "column_holds m ?K (map (map fst) bs)" and vals: "column_holds m ?V (if need then map (map snd) bs else [])"
    and rows: "\<forall>r \<in> set (concat bs). row_ok r" using st unfolding chunk_state_def by blast+
  have "concat bs = []" using column_empty_rows [OF keys rows] e by simp
  then have z: "concat (map (map fst) bs) = []" "concat (if need then map (map snd) bs else []) = []"
    by (simp_all add: map_concat [symmetric] del: concat_eq_Nil_conv)
  have "col_str_num C = 0 \<and> col_sz C = 0" if "column_holds m C xs" "concat xs = []" for C xs
    using that by (simp add: column_holds_def block_bytes_def del: concat_eq_Nil_conv)
  from this [OF keys z(1)] this [OF vals z(2)]
  have "col_str_num ?K = 0" "col_sz ?K = 0" "col_str_num ?V = 0" "col_sz ?V = 0" by simp_all
  moreover have "q_str_num q < 2 ^ 63" "q_str_buf_sz q < 2 ^ 63" "q_vals_str_buf_sz q < 2 ^ 63"
    using q by (simp_all add: queue_ok_def block_wf_def)
  ultimately show "hasSpace ?K (q_str_num q) (q_str_buf_sz q)" "hasSpace ?V (q_str_num q) (q_vals_str_buf_sz q)"
    using f by (simp_all add: hasSpace_def chunk_fits_def add64_exact)
qed

end
