(* ===== verification/Aggregator_Inv.thy ===== *)
theory Aggregator_Inv
  imports Aggregator_Run
begin

text \<open>
  Every step of the threads of the aggregator keeps its invariant and reduces the work that is left, and as
  long as the threads have not been joined some thread has a step.
\<close>

section \<open>The invariant\<close>

definition static_ok :: "'s chunk list \<Rightarrow> queue_args list \<Rightarrow> 8 word list set \<Rightarrow> bool" where
  "static_ok cs qs K \<longleftrightarrow> cs \<noteq> [] \<and> finite K \<and> (\<forall>q \<in> set qs. queue_ok q) \<and>
     (\<forall>c \<in> set cs. capacity_ok K c \<and> (\<forall>q \<in> set qs. chunk_fits q c)) \<and>
     (\<forall>i < length cs. \<forall>j < length cs. i \<noteq> j \<longrightarrow> chunk_region (cs ! i) \<inter> chunk_region (cs ! j) = {})"

definition chunk_flags :: "bool \<Rightarrow> bool \<Rightarrow> 's chunk \<Rightarrow> row list \<Rightarrow> bool" where
  "chunk_flags signalled filling c buffered \<longleftrightarrow>
     (if signalled then cuda_processing_state c \<and> buffered = []
      else worker c \<noteq> Returned \<and> (if cuda_processing_state c then buffered \<noteq> [] else filling \<or> buffered = []))"

fun pending :: "memory \<Rightarrow> producer \<Rightarrow> row list" where
  "pending host (Queueing qs) = concat (map (rows_of host) qs)"
| "pending host p = []"

fun signalled :: "nat \<Rightarrow> producer \<Rightarrow> nat" where
  "signalled n (Signalling i) = i"
| "signalled n (Joining i) = n"
| "signalled n Joined = n"
| "signalled n p = 0"

fun filling :: "producer \<Rightarrow> bool" where
  "filling (Queueing qs) = True"
| "filling Flushing = True"
| "filling p = False"

fun producer_ok :: "queue_args list \<Rightarrow> 's chunk list \<Rightarrow> producer \<Rightarrow> bool" where
  "producer_ok qs cs (Queueing rest) \<longleftrightarrow> set rest \<subseteq> set qs"
| "producer_ok qs cs Flushing \<longleftrightarrow> True"
| "producer_ok qs cs (Signalling i) \<longleftrightarrow> i \<le> length cs"
| "producer_ok qs cs (Joining i) \<longleftrightarrow> i \<le> length cs \<and> (\<forall>j < i. worker (cs ! j) = Returned)"
| "producer_ok qs cs Joined \<longleftrightarrow> (\<forall>j < length cs. worker (cs ! j) = Returned)"
| "producer_ok qs cs (Thrown e) \<longleftrightarrow> False"

definition rows_in :: "nat \<Rightarrow> (nat \<Rightarrow> row list list) \<Rightarrow> (nat \<Rightarrow> row list) \<Rightarrow> row multiset" where
  "rows_in n bs rs = (\<Sum>i < n. mset (concat (bs i)) + mset (rs i))"

definition agg_inv ::
  "(8 word list multiset \<Rightarrow> 's \<Rightarrow> bool) \<Rightarrow> 's agg_function \<Rightarrow> memory \<Rightarrow> queue_args list \<Rightarrow> row list \<Rightarrow>
   producer \<Rightarrow> 's strings_aggregator \<Rightarrow> (nat \<Rightarrow> row list list) \<Rightarrow> (nat \<Rightarrow> row list) \<Rightarrow> bool" where
  "agg_inv rep F host qs R p S bs rs \<longleftrightarrow>
     static_ok (chunks S) qs (keys_of R) \<and> is_vals_needed S = isDataNeeded F \<and> \<not> dev_table_is_full (agg_dev S) \<and>
     curr_filling_chunk S < length (chunks S) \<and> producer_ok qs (chunks S) p \<and>
     mset R = mset (pending host p) + rows_in (length (chunks S)) bs rs \<and>
     (\<forall>i < length (chunks S). chunk_state rep (isDataNeeded F) (dev_mem (agg_dev S)) (chunks S ! i) (bs i) (rs i) \<and>
        chunk_flags (i < signalled (length (chunks S)) p) (filling p \<and> i = curr_filling_chunk S) (chunks S ! i)
          (concat (bs i)))"

lemma rows_in_upd:
  assumes "i < n"
  shows "rows_in n (bs(i := b)) (rs(i := r)) + (mset (concat (bs i)) + mset (rs i)) =
    rows_in n bs rs + (mset (concat b) + mset r)"
proof -
  have s: "(\<Sum>j < n. g j) = g i + (\<Sum>j \<in> {..<n} - {i}. g j)" for g :: "nat \<Rightarrow> row multiset"
    using assms by (simp add: sum.remove)
  have "(\<Sum>j \<in> {..<n} - {i}. mset (concat ((bs(i := b)) j)) + mset ((rs(i := r)) j)) =
      (\<Sum>j \<in> {..<n} - {i}. mset (concat (bs j)) + mset (rs j))"
    by (rule sum.cong) auto
  then show ?thesis unfolding rows_in_def s [of "\<lambda>j. mset (concat ((bs(i := b)) j)) + mset ((rs(i := r)) j)"]
      s [of "\<lambda>j. mset (concat (bs j)) + mset (rs j)"] by (simp add: ac_simps)
qed

lemma balance:
  fixes R :: "'a multiset"
  assumes "R = p + n" and "n' + a = n + a'" and "p + a = p' + a'"
  shows "R = p' + n'"
proof -
  have "R + a' = p + (n' + a)" by (simp add: assms(1,2) add.assoc)
  also have "\<dots> = p' + n' + a'" using assms(3) by (metis add.assoc add.commute)
  finally show ?thesis by simp
qed

lemma static_ok_upd:
  assumes "static_ok cs qs K" and "i < length cs" and "chunk_shape c = chunk_shape (cs ! i)"
  shows "static_ok (cs[i := c]) qs K"
proof -
  have s: "chunk_shape (cs[i := c] ! j) = chunk_shape (cs ! j)" if "j < length cs" for j
    using assms that by (cases "j = i") simp_all
  have "capacity_ok K (cs[i := c] ! j) \<and> (\<forall>q \<in> set qs. chunk_fits q (cs[i := c] ! j))" if "j < length cs" for j
    using assms(1) that shape_same(3,4) [OF s [OF that]] by (simp add: static_ok_def)
  moreover have "chunk_region (cs[i := c] ! j) = chunk_region (cs ! j)" if "j < length cs" for j
    by (rule shape_same(2) [OF s [OF that]])
  moreover have "\<forall>d \<in> set (cs[i := c]). capacity_ok K d \<and> (\<forall>q \<in> set qs. chunk_fits q d)"
    unfolding all_set_conv_all_nth [of "cs[i := c]"] using calculation(1) by simp
  ultimately show ?thesis using assms(1) by (simp add: static_ok_def)
qed

lemma chunk_states_upd:
  assumes "\<And>j. j < length cs \<Longrightarrow> chunk_state rep need m (cs ! j) (bs j) (rs j)" and "static_ok cs qs K" and "i < length cs"
    and "chunk_state rep need m' c b r" and "\<And>x. x \<notin> chunk_region (cs ! i) \<Longrightarrow> m' x = m x" and "j < length cs"
  shows "chunk_state rep need m' (cs[i := c] ! j) ((bs(i := b)) j) ((rs(i := r)) j)"
proof (cases "j = i")
  case False
  have "chunk_state rep need m' (cs ! j) (bs j) (rs j)"
  proof (rule chunk_state_frame [OF assms(1) [OF assms(6)]])
    fix x assume "x \<in> chunk_region (cs ! j)"
    then have "x \<notin> chunk_region (cs ! i)" using assms(2,3,6) False unfolding static_ok_def by blast
    then show "m' x = m x" by (rule assms(5))
  qed
  then show ?thesis using False by simp
qed (use assms in simp)

lemma agg_inv_update:
  assumes inv: "agg_inv rep F host qs R p S bs rs" and i: "i < length (chunks S)" and k: "k < length (chunks S)"
    and shape: "chunk_shape c' = chunk_shape (chunks S ! i)"
    and state: "chunk_state rep (isDataNeeded F) (dev_mem dev') c' b r" and nf: "\<not> dev_table_is_full dev'"
    and frame: "\<And>x. x \<notin> chunk_region (chunks S ! i) \<Longrightarrow> dev_mem dev' x = dev_mem (agg_dev S) x"
    and rows: "mset (pending host p) + (mset (concat (bs i)) + mset (rs i)) = mset (pending host p') + (mset (concat b) + mset r)"
    and prod: "producer_ok qs ((chunks S)[i := c']) p'"
    and fi: "chunk_flags (i < signalled (length (chunks S)) p') (filling p' \<and> i = k) c' (concat b)"
    and fj: "\<And>j. j < length (chunks S) \<Longrightarrow> j \<noteq> i \<Longrightarrow>
      chunk_flags (j < signalled (length (chunks S)) p) (filling p \<and> j = curr_filling_chunk S) (chunks S ! j) (concat (bs j)) \<Longrightarrow>
      chunk_flags (j < signalled (length (chunks S)) p') (filling p' \<and> j = k) (chunks S ! j) (concat (bs j))"
    and S': "S' = S\<lparr>chunks := (chunks S)[i := c'], agg_dev := dev', curr_filling_chunk := k\<rparr>"
  shows "agg_inv rep F host qs R p' S' (bs(i := b)) (rs(i := r))"
proof -
  let ?n = "length (chunks S)"
  have st: "static_ok (chunks S) qs (keys_of R)" and R: "mset R = mset (pending host p) + rows_in ?n bs rs"
    and cs: "\<And>j. j < ?n \<Longrightarrow> chunk_state rep (isDataNeeded F) (dev_mem (agg_dev S)) (chunks S ! j) (bs j) (rs j)"
    and fl: "\<And>j. j < ?n \<Longrightarrow> chunk_flags (j < signalled ?n p) (filling p \<and> j = curr_filling_chunk S) (chunks S ! j) (concat (bs j))"
    and nd: "is_vals_needed S = isDataNeeded F"
    using inv by (simp_all add: agg_inv_def)
  have "mset R = mset (pending host p') + rows_in ?n (bs(i := b)) (rs(i := r))"
    by (rule balance [OF R rows_in_upd [OF i] rows])
  moreover have "chunk_flags (j < signalled ?n p') (filling p' \<and> j = k) ((chunks S)[i := c'] ! j) (concat ((bs(i := b)) j))"
    if "j < ?n" for j
    using fi fj [OF that _ fl [OF that]] i by (cases "j = i") simp_all
  moreover note static_ok_upd [OF st i shape]
    chunk_states_upd [of "chunks S" rep "isDataNeeded F" "dev_mem (agg_dev S)" bs rs, OF cs st i state frame]
  ultimately show ?thesis using nd nf k prod by (simp add: agg_inv_def S')
qed

section \<open>Steps of the threads\<close>

text \<open>The number of steps that are left.\<close>

definition chunk_work :: "'s chunk \<Rightarrow> nat" where
  "chunk_work c = (if cuda_processing_state c then 1 else if column_empty (cuda_buffer_keys c) then 0 else 2) +
     (case worker c of Started \<Rightarrow> 2 | Waiting \<Rightarrow> 1 | Returned \<Rightarrow> 0)"

fun producer_work :: "nat \<Rightarrow> producer \<Rightarrow> nat" where
  "producer_work n (Queueing qs) = 3 * length qs + 3 * n + 5"
| "producer_work n Flushing = 3 * n + 4"
| "producer_work n (Signalling i) = 2 * (n - i) + n + 3"
| "producer_work n (Joining i) = n - i + 2"
| "producer_work n Joined = 0"
| "producer_work n (Thrown e) = 0"

definition work :: "producer \<Rightarrow> 's strings_aggregator \<Rightarrow> nat" where
  "work p S = producer_work (length (chunks S)) p + (\<Sum>c \<leftarrow> chunks S. chunk_work c)"

lemma work_upd:
  assumes "i < length (chunks S)"
    and "S' = S\<lparr>chunks := (chunks S)[i := c'], agg_dev := dev', curr_filling_chunk := k\<rparr>"
    and "producer_work (length (chunks S)) p' + chunk_work c' < producer_work (length (chunks S)) p + chunk_work (chunks S ! i)"
  shows "work p' S' < work p S"
proof -
  have "(\<Sum>c \<leftarrow> (chunks S)[i := c']. chunk_work c) + chunk_work (chunks S ! i) = (\<Sum>c \<leftarrow> chunks S. chunk_work c) + chunk_work c'"
    using sum_list_update [of i "map chunk_work (chunks S)" "chunk_work c'"] elem_le_sum_list [of i "map chunk_work (chunks S)"]
      assms(1) by (simp add: map_update)
  then show ?thesis using assms(3) by (simp add: work_def assms(2))
qed

context agg_contract
begin

lemma process_inv:
  assumes inv: "agg_inv rep F host qs R p S bs rs" and E: "exclusive_sum_spec E" and od: "orders_ok od"
    and i: "i < length (chunks S)" and r: "processChunk_step E od F i S = Some X"
  shows "\<exists>S' bs' rs'. X = Inr S' \<and> agg_inv rep F host qs R p S' bs' rs' \<and> work p S' < work p S"
proof -
  let ?c = "chunks S ! i" and ?n = "length (chunks S)"
  have st: "static_ok (chunks S) qs (keys_of R)" and k: "curr_filling_chunk S < ?n" and nf: "\<not> dev_table_is_full (agg_dev S)"
    and cs: "chunk_state rep (isDataNeeded F) (dev_mem (agg_dev S)) ?c (bs i) (rs i)"
    and fl: "chunk_flags (i < signalled ?n p) (filling p \<and> i = curr_filling_chunk S) ?c (concat (bs i))"
    and pr: "producer_ok qs (chunks S) p" and nd: "is_vals_needed S = isDataNeeded F"
    and R: "mset R = mset (pending host p) + rows_in ?n bs rs"
    using inv i by (simp_all add: agg_inv_def)
  have upd: ?thesis
    if X: "X = Inr (S\<lparr>chunks := (chunks S)[i := c'], agg_dev := dev', curr_filling_chunk := curr_filling_chunk S\<rparr>)"
      and sh: "chunk_shape c' = chunk_shape ?c" and stt: "chunk_state rep (isDataNeeded F) (dev_mem dev') c' b r'"
      and nf': "\<not> dev_table_is_full dev'" and fr: "\<And>x. x \<notin> chunk_region ?c \<Longrightarrow> dev_mem dev' x = dev_mem (agg_dev S) x"
      and rw: "mset (concat (bs i)) + mset (rs i) = mset (concat b) + mset r'"
      and wk: "worker ?c \<noteq> Returned"
      and fl': "chunk_flags (i < signalled ?n p) (filling p \<and> i = curr_filling_chunk S) c' (concat b)"
      and dec: "chunk_work c' < chunk_work ?c" for c' dev' b r'
  proof -
    have "producer_ok qs ((chunks S)[i := c']) p"
      using pr wk by (cases p) (auto simp: nth_list_update i)
    then have "agg_inv rep F host qs R p (S\<lparr>chunks := (chunks S)[i := c'], agg_dev := dev', curr_filling_chunk := curr_filling_chunk S\<rparr>)
        (bs(i := b)) (rs(i := r'))"
      using rw by (intro agg_inv_update [OF inv i k sh stt nf' fr _ _ fl' _ refl]) simp_all
    moreover have "work p (S\<lparr>chunks := (chunks S)[i := c'], agg_dev := dev', curr_filling_chunk := curr_filling_chunk S\<rparr>) < work p S"
      using dec by (intro work_upd [OF i refl]) simp
    ultimately show ?thesis using X by blast
  qed
  have em: "column_empty (cuda_buffer_keys ?c) \<longleftrightarrow> concat (bs i) = []"
    using cs unfolding chunk_state_def by (intro column_empty_rows) blast+
  show ?thesis
  proof (cases "worker ?c")
    case Started
    note b = processChunk_begin_state [OF cs Started od]
    have "chunk_work (processChunk_begin od F ?c) < chunk_work ?c"
      using b Started by (simp add: chunk_work_def processChunk_begin_def Let_def)
    then show ?thesis using r Started b nf fl
      by (intro upd [where c' = "processChunk_begin od F ?c" and dev' = "agg_dev S" and b = "bs i" and r' = "rs i"])
        (simp_all add: processChunk_step_def set_chunk_def chunk_flags_def split: if_splits)
  next
    case Waiting
    show ?thesis
    proof (cases "column_empty (cuda_buffer_keys ?c)")
      case True
      have pg: "cuda_processing_state ?c" and X: "X = Inr (set_chunk i (processChunk_end od ?c) S)"
        using r Waiting True by (auto simp: processChunk_step_def Let_def split: if_splits)
      note b = processChunk_end_state [OF cs Waiting od]
      have "chunk_work (processChunk_end od ?c) < chunk_work ?c"
        using b Waiting by (simp add: chunk_work_def processChunk_end_def Let_def)
      moreover have "chunk_flags (i < signalled ?n p) (filling p \<and> i = curr_filling_chunk S) (processChunk_end od ?c) (concat (bs i))"
        using fl pg em True b by (simp add: chunk_flags_def split: if_splits)
      ultimately show ?thesis using X b nf Waiting
        by (intro upd [where c' = "processChunk_end od ?c" and dev' = "agg_dev S" and b = "bs i" and r' = "rs i"])
          (simp_all add: set_chunk_def)
    next
      case False
      have K: "keys_of (rs i @ concat (bs i)) \<subseteq> keys_of R"
      proof -
        have "mset (rs i) + mset (concat (bs i)) \<subseteq># rows_in ?n bs rs"
          unfolding rows_in_def using i by (subst sum.remove [of _ i]) (simp_all add: add.commute)
        then have "mset (rs i @ concat (bs i)) \<subseteq># mset R" unfolding R mset_append by (simp add: subset_mset.add_increasing)
        then have "set (rs i @ concat (bs i)) \<subseteq> set R" by (metis set_mset_mono set_mset_mset)
        then show ?thesis unfolding keys_of_def by (rule image_mono)
      qed
      have cap: "capacity_ok (keys_of R) ?c" using st i by (simp add: static_ok_def)
      obtain c' dev' where b: "processChunk_batch E od F (isDataNeeded F) ?c (agg_dev S) = Inr (c', dev')"
        and stt: "chunk_state rep (isDataNeeded F) (dev_mem dev') c' [] (rs i @ concat (bs i))" and nf': "\<not> dev_table_is_full dev'"
        and sh: "chunk_shape c' = chunk_shape ?c" and w: "worker c' = Waiting" and pg': "\<not> cuda_processing_state c'"
        and fr: "\<forall>x. x \<notin> chunk_region ?c \<longrightarrow> dev_mem dev' x = dev_mem (agg_dev S) x"
        by (rule processChunk_batch_state [OF cs Waiting od E nf cap finite_keys K])
      have pg: "cuda_processing_state ?c" and X: "X = Inr (set_chunk i c' (S\<lparr>agg_dev := dev'\<rparr>))"
        using r Waiting False b nd by (auto simp: processChunk_step_def Let_def split: if_splits)
      have e: "column_empty (cuda_buffer_keys c')"
      proof -
        have "column_holds (dev_mem dev') (cuda_buffer_keys c') []" using stt by (simp add: chunk_state_def)
        then show ?thesis by (simp add: column_holds_def column_empty_def)
      qed
      have "chunk_work c' < chunk_work ?c" using e w pg pg' Waiting by (simp add: chunk_work_def)
      moreover have "chunk_flags (i < signalled ?n p) (filling p \<and> i = curr_filling_chunk S) c' (concat [])"
        using fl em False w pg' by (simp add: chunk_flags_def split: if_splits)
      ultimately show ?thesis using X Waiting
        by (intro upd [OF _ sh stt nf']) (simp_all add: set_chunk_def add.commute fr)
    qed
  next
    case Returned
    then show ?thesis using r by (simp add: processChunk_step_def)
  qed
qed

end

lemma try_queue_inv:
  assumes inv: "agg_inv rep F host qs R (Queueing (q # rest)) S bs rs" and pg: "\<not> cuda_processing_state (curr_chunk S)"
  shows "\<exists>queued S' bs' rs'. tryQueueData host q S = Inr (queued, S') \<and>
    agg_inv rep F host qs R (Queueing (if queued then rest else q # rest)) S' bs' rs' \<and>
    work (Queueing (if queued then rest else q # rest)) S' < work (Queueing (q # rest)) S"
proof -
  let ?k = "curr_filling_chunk S" and ?n = "length (chunks S)"
  let ?c = "chunks S ! ?k"
  have k: "?k < ?n" and st: "static_ok (chunks S) qs (keys_of R)" and nf: "\<not> dev_table_is_full (agg_dev S)"
    and cs: "chunk_state rep (isDataNeeded F) (dev_mem (agg_dev S)) ?c (bs ?k) (rs ?k)" and nd: "is_vals_needed S = isDataNeeded F"
    and fl: "chunk_flags False True ?c (concat (bs ?k))" and sub: "q \<in> set qs" "set rest \<subseteq> set qs"
    using inv by (auto simp: agg_inv_def)
  have q: "queue_ok q" and fits: "chunk_fits q ?c" using st sub k by (auto simp: static_ok_def)
  have em: "column_empty (cuda_buffer_keys ?c) \<longleftrightarrow> concat (bs ?k) = []"
    using cs unfolding chunk_state_def by (intro column_empty_rows) blast+
  show ?thesis
  proof (cases "hasSpace (cuda_buffer_keys ?c) (q_str_num q) (q_str_buf_sz q) \<and>
      hasSpace (cuda_buffer_vals ?c) (q_str_num q) (q_vals_str_buf_sz q)")
    case True
    obtain m1 ks where r1: "column_addData (q_str_num q) (q_str_buf_sz q) host (q_str_buf q) (q_offsets q)
        (dev_mem (agg_dev S), cuda_buffer_keys ?c) = (m1, ks)" by fastforce
    obtain m2 vs where r2: "(if isDataNeeded F then column_addData (q_str_num q) (q_vals_str_buf_sz q) host (q_vals_str_buf q)
        (q_vals_offsets q) (m1, cuda_buffer_vals ?c) else (m1, cuda_buffer_vals ?c)) = (m2, vs)" by fastforce
    define c' where "c' = ?c\<lparr>cuda_buffer_keys := ks, cuda_buffer_vals := vs\<rparr>"
    define S' where "S' = S\<lparr>chunks := (chunks S)[?k := c'], agg_dev := (agg_dev S)\<lparr>dev_mem := m2\<rparr>, curr_filling_chunk := ?k\<rparr>"
    note qs = queue_state [OF cs q conjunct1 [OF True] conjunct2 [OF True] r1 r2 c'_def]
    have t: "tryQueueData host q S = Inr (True, S')"
      using True r1 r2 nd by (simp add: tryQueueData_def Let_def set_chunk_def S'_def c'_def)
    have "agg_inv rep F host qs R (Queueing rest) S' (bs(?k := bs ?k @ [rows_of host q])) (rs(?k := rs ?k))"
    proof (rule agg_inv_update [OF inv k k qs(2) _ _ _ _ _ _ _ S'_def])
      show "chunk_flags (?k < signalled ?n (Queueing rest)) (filling (Queueing rest) \<and> ?k = ?k) c'
          (concat (bs ?k @ [rows_of host q]))"
        using fl pg by (simp add: chunk_flags_def c'_def)
    qed (use qs nf sub in \<open>simp_all add: ac_simps\<close>)
    moreover have "work (Queueing rest) S' < work (Queueing (q # rest)) S"
      by (rule work_upd [OF k S'_def]) (use pg in \<open>simp add: chunk_work_def c'_def\<close>)
    ultimately have "tryQueueData host q S = Inr (True, S') \<and>
        agg_inv rep F host qs R (Queueing (if True then rest else q # rest)) S' (bs(?k := bs ?k @ [rows_of host q])) (rs(?k := rs ?k)) \<and>
        work (Queueing (if True then rest else q # rest)) S' < work (Queueing (q # rest)) S"
      using t by (simp only: if_True if_False simp_thms)
    then show ?thesis by blast
  next
    case False
    then have ne: "\<not> column_empty (cuda_buffer_keys ?c)" using empty_has_space [OF cs _ q fits] by blast
    define c' where "c' = ?c\<lparr>cuda_processing_state := True\<rparr>"
    define k' where "k' = (?k + 1) mod ?n"
    define S' where "S' = S\<lparr>chunks := (chunks S)[?k := c'], agg_dev := agg_dev S, curr_filling_chunk := k'\<rparr>"
    have k': "k' < ?n" unfolding k'_def using k by (intro mod_less_divisor) linarith
    have t: "tryQueueData host q S = Inr (False, S')"
      using False ne by (auto simp: tryQueueData_def Let_def set_chunk_def S'_def c'_def k'_def)
    have "agg_inv rep F host qs R (Queueing (q # rest)) S' (bs(?k := bs ?k)) (rs(?k := rs ?k))"
    proof (rule agg_inv_update [OF inv k k' _ _ _ _ _ _ _ _ S'_def])
      show "chunk_flags (?k < signalled ?n (Queueing (q # rest))) (filling (Queueing (q # rest)) \<and> ?k = k') c' (concat (bs ?k))"
        using fl ne em by (simp add: chunk_flags_def c'_def)
    qed (use cs nf sub in \<open>auto simp: c'_def chunk_flags_def\<close>)
    moreover have "work (Queueing (q # rest)) S' < work (Queueing (q # rest)) S"
      by (rule work_upd [OF k S'_def]) (use pg ne in \<open>simp add: chunk_work_def c'_def\<close>)
    ultimately have "tryQueueData host q S = Inr (False, S') \<and>
        agg_inv rep F host qs R (Queueing (if False then rest else q # rest)) S' (bs(?k := bs ?k)) (rs(?k := rs ?k)) \<and>
        work (Queueing (if False then rest else q # rest)) S' < work (Queueing (q # rest)) S"
      using t by (simp only: if_True if_False simp_thms)
    then show ?thesis by blast
  qed
qed

lemma agg_inv_producer:
  assumes "agg_inv rep F host qs R p S bs rs" and "pending host p = pending host p'" and "producer_ok qs (chunks S) p'"
    and "signalled (length (chunks S)) p = signalled (length (chunks S)) p' \<or>
      signalled (length (chunks S)) p \<ge> length (chunks S) \<and> signalled (length (chunks S)) p' \<ge> length (chunks S)"
    and "filling p = filling p'"
  shows "agg_inv rep F host qs R p' S bs rs"
proof -
  have "(i < signalled (length (chunks S)) p) = (i < signalled (length (chunks S)) p')" if "i < length (chunks S)" for i
    using assms(4) that by auto
  then show ?thesis using assms(1-3,5) by (simp add: agg_inv_def)
qed

lemma flush_inv:
  assumes inv: "agg_inv rep F host qs R Flushing S bs rs" and pg: "\<not> cuda_processing_state (curr_chunk S)"
  shows "\<exists>bs rs. agg_inv rep F host qs R (Signalling 0) (waitProcessed_flush S) bs rs"
    and "work (Signalling 0) (waitProcessed_flush S) < work Flushing S"
proof -
  let ?k = "curr_filling_chunk S" and ?n = "length (chunks S)"
  let ?c = "chunks S ! ?k"
  define c' where "c' = (if column_empty (cuda_buffer_keys ?c) then ?c else ?c\<lparr>cuda_processing_state := True\<rparr>)"
  have k: "?k < ?n" and nf: "\<not> dev_table_is_full (agg_dev S)"
    and cs: "chunk_state rep (isDataNeeded F) (dev_mem (agg_dev S)) ?c (bs ?k) (rs ?k)"
    and fl: "chunk_flags False True ?c (concat (bs ?k))"
    using inv by (auto simp: agg_inv_def)
  have em: "column_empty (cuda_buffer_keys ?c) \<longleftrightarrow> concat (bs ?k) = []"
    using cs unfolding chunk_state_def by (intro column_empty_rows) blast+
  have S': "waitProcessed_flush S = S\<lparr>chunks := (chunks S)[?k := c'], agg_dev := agg_dev S, curr_filling_chunk := ?k\<rparr>"
    by (simp add: waitProcessed_flush_def set_chunk_def c'_def Let_def)
  have "agg_inv rep F host qs R (Signalling 0) (waitProcessed_flush S) (bs(?k := bs ?k)) (rs(?k := rs ?k))"
  proof (rule agg_inv_update [OF inv k k _ _ _ _ _ _ _ _ S'])
    show "chunk_flags (?k < signalled ?n (Signalling 0)) (filling (Signalling 0) \<and> ?k = ?k) c' (concat (bs ?k))"
      using fl pg em by (simp add: chunk_flags_def c'_def)
  qed (use cs nf in \<open>auto simp: c'_def chunk_flags_def\<close>)
  then show "\<exists>bs rs. agg_inv rep F host qs R (Signalling 0) (waitProcessed_flush S) bs rs" by blast
  show "work (Signalling 0) (waitProcessed_flush S) < work Flushing S"
    by (rule work_upd [OF k S']) (use pg in \<open>simp add: chunk_work_def c'_def\<close>)
qed

lemma signal_inv:
  assumes inv: "agg_inv rep F host qs R (Signalling i) S bs rs" and i: "i < length (chunks S)"
    and pg: "\<not> cuda_processing_state (chunks S ! i)"
  shows "\<exists>S' bs rs. waitProcessed_signal i S = Inr S' \<and> agg_inv rep F host qs R (Signalling (Suc i)) S' bs rs \<and>
    work (Signalling (Suc i)) S' < work (Signalling i) S"
proof -
  let ?k = "curr_filling_chunk S" and ?n = "length (chunks S)"
  let ?c = "chunks S ! i"
  define c' where "c' = ?c\<lparr>cuda_processing_state := True\<rparr>"
  define S' where "S' = S\<lparr>chunks := (chunks S)[i := c'], agg_dev := agg_dev S, curr_filling_chunk := ?k\<rparr>"
  have k: "?k < ?n" and nf: "\<not> dev_table_is_full (agg_dev S)"
    and cs: "chunk_state rep (isDataNeeded F) (dev_mem (agg_dev S)) ?c (bs i) (rs i)"
    and fl: "chunk_flags False False ?c (concat (bs i))"
    using inv i by (auto simp: agg_inv_def)
  have "column_empty (cuda_buffer_keys ?c) \<longleftrightarrow> concat (bs i) = []"
    using cs unfolding chunk_state_def by (intro column_empty_rows) blast+
  then have e: "concat (bs i) = []" "column_empty (cuda_buffer_keys ?c)" using fl pg by (simp_all add: chunk_flags_def)
  have t: "waitProcessed_signal i S = Inr S'"
    using e(2) by (simp add: waitProcessed_signal_def set_chunk_def S'_def c'_def Let_def)
  have "agg_inv rep F host qs R (Signalling (Suc i)) S' (bs(i := bs i)) (rs(i := rs i))"
  proof (rule agg_inv_update [OF inv i k _ _ _ _ _ _ _ _ S'_def])
    show "chunk_flags (i < signalled ?n (Signalling (Suc i))) (filling (Signalling (Suc i)) \<and> i = ?k) c' (concat (bs i))"
      using e(1) by (simp add: chunk_flags_def c'_def)
    show "chunk_flags (j < signalled ?n (Signalling (Suc i))) (filling (Signalling (Suc i)) \<and> j = ?k) (chunks S ! j) (concat (bs j))"
      if "j \<noteq> i" "chunk_flags (j < signalled ?n (Signalling i)) (filling (Signalling i) \<and> j = ?k) (chunks S ! j) (concat (bs j))" for j
      using that by (simp add: less_Suc_eq)
  qed (use cs nf i in \<open>simp_all add: c'_def\<close>)
  moreover have "work (Signalling (Suc i)) S' < work (Signalling i) S"
    by (rule work_upd [OF i S'_def]) (use pg e i in \<open>simp add: chunk_work_def c'_def\<close>)
  ultimately show ?thesis using t by blast
qed

lemma produce_inv:
  assumes inv: "agg_inv rep F host qs R p S bs rs" and r: "producer_step host p S = Some (p', S')"
  shows "\<exists>bs' rs'. agg_inv rep F host qs R p' S' bs' rs' \<and> work p' S' < work p S"
proof -
  let ?n = "length (chunks S)"
  show ?thesis
  proof (cases p)
    case (Queueing rest)
    show ?thesis
    proof (cases rest)
      case Nil
      then have "p' = Flushing" "S' = S" using r Queueing by simp_all
      then show ?thesis using agg_inv_producer [OF inv, of Flushing] Queueing Nil by (intro exI [of _ bs] exI [of _ rs]) (auto simp: work_def)
    next
      case (Cons q rest')
      then have pg: "\<not> cuda_processing_state (curr_chunk S)" using r Queueing by (auto split: if_splits)
      obtain queued S1 bs' rs' where t: "tryQueueData host q S = Inr (queued, S1)"
        and "agg_inv rep F host qs R (Queueing (if queued then rest' else q # rest')) S1 bs' rs'"
        and "work (Queueing (if queued then rest' else q # rest')) S1 < work (Queueing (q # rest')) S"
        using try_queue_inv [OF inv [unfolded Queueing Cons] pg] by blast
      moreover have "p' = Queueing (if queued then rest' else q # rest')" "S' = S1"
        using r Queueing Cons pg t by simp_all
      ultimately show ?thesis using Queueing Cons by blast
    qed
  next
    case Flushing
    then have "\<not> cuda_processing_state (curr_chunk S)" "p' = Signalling 0" "S' = waitProcessed_flush S"
      using r by (auto split: if_splits)
    then show ?thesis using flush_inv [OF inv [unfolded Flushing]] Flushing by blast
  next
    case (Signalling i)
    show ?thesis
    proof (cases "i < ?n")
      case True
      then have pg: "\<not> cuda_processing_state (chunks S ! i)" using r Signalling by (auto split: if_splits)
      obtain S1 bs' rs' where "waitProcessed_signal i S = Inr S1" "agg_inv rep F host qs R (Signalling (Suc i)) S1 bs' rs'"
          "work (Signalling (Suc i)) S1 < work (Signalling i) S"
        using signal_inv [OF inv [unfolded Signalling] True pg] by blast
      moreover then have "p' = Signalling (Suc i)" "S' = S1" using r Signalling True pg by simp_all
      ultimately show ?thesis using Signalling by blast
    next
      case False
      then have "p' = Joining 0" "S' = S" using r Signalling by simp_all
      moreover have "i = ?n" using inv False Signalling by (simp add: agg_inv_def)
      ultimately show ?thesis using agg_inv_producer [OF inv, of "Joining 0"] Signalling by (intro exI [of _ bs] exI [of _ rs]) (auto simp: work_def)
    qed
  next
    case (Joining i)
    show ?thesis
    proof (cases "i < ?n")
      case True
      then have "worker (chunks S ! i) = Returned" and e: "p' = Joining (Suc i)" "S' = S"
        using r Joining by (auto split: if_splits)
      then have "producer_ok qs (chunks S) (Joining (Suc i))"
        using inv Joining True by (auto simp: agg_inv_def less_Suc_eq)
      then show ?thesis using agg_inv_producer [OF inv, of "Joining (Suc i)"] Joining e True by (intro exI [of _ bs] exI [of _ rs]) (auto simp: work_def)
    next
      case False
      then have e: "p' = Joined" "S' = S" using r Joining by simp_all
      have "producer_ok qs (chunks S) Joined" using inv False Joining by (auto simp: agg_inv_def)
      then show ?thesis using agg_inv_producer [OF inv, of Joined] Joining e by (intro exI [of _ bs] exI [of _ rs]) (auto simp: work_def)
    qed
  qed (use r in simp_all)
qed

section \<open>Whole runs\<close>

text \<open>What holds before \<^verbatim>\<open>startProcessing\<close>: fresh buffers in disjoint regions that are large enough.\<close>

definition setup_ok :: "memory \<Rightarrow> queue_args list \<Rightarrow> 's strings_aggregator \<Rightarrow> bool" where
  "setup_ok host qs S \<longleftrightarrow> static_ok (chunks S) qs (keys_of (concat (map (rows_of host) qs))) \<and>
     \<not> dev_table_is_full (agg_dev S) \<and>
     (\<forall>c \<in> set (chunks S). chunk_config c \<and> raw_ok (cuda_hash_table c) \<and>
        column_holds (dev_mem (agg_dev S)) (cuda_buffer_keys c) [] \<and>
        column_holds (dev_mem (agg_dev S)) (cuda_buffer_vals c) [])"

lemma start_shape: "chunk_shape (c\<lparr>cuda_processing_state := False, worker := Started\<rparr>) = chunk_shape c"
  by (simp add: chunk_shape_def)

lemma static_ok_map:
  assumes "static_ok cs qs K" and "\<And>c. chunk_shape (f c) = chunk_shape c"
  shows "static_ok (map f cs) qs K"
  using assms(1) shape_same(2-4) [OF assms(2)] by (simp add: static_ok_def)

lemma start_inv:
  assumes "setup_ok host qs S"
  shows "agg_inv rep F host qs (concat (map (rows_of host) qs)) (Queueing qs) (startProcessing F S) (\<lambda>_. []) (\<lambda>_. [])"
proof -
  have st: "static_ok (chunks S) qs (keys_of (concat (map (rows_of host) qs)))" using assms by (simp add: setup_ok_def)
  then have "chunks S \<noteq> []" by (simp add: static_ok_def)
  moreover have "chunk_state rep (isDataNeeded F) (dev_mem (agg_dev S))
      ((chunks S ! i)\<lparr>cuda_processing_state := False, worker := Started\<rparr>) [] []" if "i < length (chunks S)" for i
    using assms that by (simp add: setup_ok_def chunk_state_def chunk_config_def)
  moreover have "static_ok (map (\<lambda>c. c\<lparr>cuda_processing_state := False, worker := Started\<rparr>) (chunks S)) qs
      (keys_of (concat (map (rows_of host) qs)))"
    by (rule static_ok_map [OF st start_shape])
  ultimately show ?thesis
    using assms by (simp add: agg_inv_def startProcessing_def setup_ok_def rows_in_def chunk_flags_def)
qed

lemma start_work: 
  assumes "setup_ok host qs S"
  shows "work (Queueing qs) (startProcessing F S) = 3 * length qs + 5 * length (chunks S) + 5"
proof -
  have "column_empty (cuda_buffer_keys c)" if "c \<in> set (chunks S)" for c
  proof -
    have "column_holds (dev_mem (agg_dev S)) (cuda_buffer_keys c) []" using assms that by (simp add: setup_ok_def)
    then show ?thesis by (simp add: column_holds_def column_empty_def)
  qed
  then have "(\<Sum>c \<leftarrow> chunks S. chunk_work (c\<lparr>cuda_processing_state := False, worker := Started\<rparr>)) = (\<Sum>c \<leftarrow> chunks S. 2)"
    by (intro arg_cong [where f = sum_list] map_cong) (simp_all add: chunk_work_def)
  then show ?thesis by (simp add: work_def startProcessing_def comp_def sum_list_triv)
qed

definition any_orders :: orders where
  "any_orders = \<lparr>grid_order = (\<lambda>k n. thread_ids (n div 256 + 1) 256),
     add_sched = (\<lambda>A. concat (replicate (9 * buckets_num A + 1) [0..<add_threads A]))\<rparr>"

lemma any_orders_ok: "orders_ok any_orders"
  unfolding orders_ok_def any_orders_def by (auto simp: schedule_def fair_def count_rounds simp del: replicate_Suc replicate.simps)

lemma worker_steps:
  assumes "worker (chunks S ! i) = Started \<or> worker (chunks S ! i) = Waiting \<and> cuda_processing_state (chunks S ! i)"
  shows "processChunk_step E od F i S \<noteq> None"
  using assms by (auto simp: processChunk_step_def Let_def split: sum.split)

lemma worker_enabled:
  assumes "worker (chunks S ! i) = Started \<or> worker (chunks S ! i) = Waiting \<and> cuda_processing_state (chunks S ! i)"
    and "i < length (chunks S)"
  shows "\<exists>Y. agg_step E F host (Program p S) Y"
proof -
  obtain X where "processChunk_step E any_orders F i S = Some X" using worker_steps [OF assms(1)] by blast
  then show ?thesis using assms(2) any_orders_ok by (cases X) (auto intro: agg_step.intros)
qed

lemma runnable:
  "worker c \<noteq> Returned \<Longrightarrow> cuda_processing_state c \<Longrightarrow> worker c = Started \<or> worker c = Waiting \<and> cuda_processing_state c"
  by (cases "worker c") simp_all

lemma agg_progress:
  assumes inv: "agg_inv rep F host qs R p S bs rs" and "p \<noteq> Joined"
  shows "\<exists>Y. agg_step E F host (Program p S) Y"
proof (cases "producer_step host p S")
  case (Some r)
  then show ?thesis by (cases r) (auto intro: agg_step.produce)
next
  case None
  let ?n = "length (chunks S)"
  have fl: "chunk_flags (i < signalled ?n p) (filling p \<and> i = curr_filling_chunk S) (chunks S ! i) (concat (bs i))" if "i < ?n" for i
    using inv that by (simp add: agg_inv_def)
  have k: "curr_filling_chunk S < ?n" and pr: "producer_ok qs (chunks S) p" using inv by (simp_all add: agg_inv_def)
  have "\<exists>i < ?n. worker (chunks S ! i) = Started \<or> worker (chunks S ! i) = Waiting \<and> cuda_processing_state (chunks S ! i)"
  proof (cases p)
    case (Queueing q)
    then have "cuda_processing_state (curr_chunk S)"
      using None by (cases q) (auto split: if_splits sum.splits prod.splits)
    moreover have "worker (curr_chunk S) \<noteq> Returned" using fl [OF k] Queueing by (simp add: chunk_flags_def)
    ultimately show ?thesis using k runnable by blast
  next
    case Flushing
    then have "cuda_processing_state (curr_chunk S)" using None by (auto split: if_splits)
    moreover have "worker (curr_chunk S) \<noteq> Returned" using fl [OF k] Flushing by (simp add: chunk_flags_def)
    ultimately show ?thesis using k runnable by blast
  next
    case (Signalling i)
    then have i: "i < ?n" and "cuda_processing_state (chunks S ! i)" using None by (auto split: if_splits sum.splits)
    moreover have "worker (chunks S ! i) \<noteq> Returned" using fl [OF i] Signalling by (simp add: chunk_flags_def)
    ultimately show ?thesis using runnable by blast
  next
    case (Joining i)
    then have i: "i < ?n" and w: "worker (chunks S ! i) \<noteq> Returned" using None by (auto split: if_splits)
    moreover have "cuda_processing_state (chunks S ! i)" using fl [OF i] Joining i by (simp add: chunk_flags_def)
    ultimately show ?thesis using runnable by blast
  qed (use assms pr in simp_all)
  then show ?thesis using worker_enabled by blast
qed

context agg_contract
begin

lemma step_inv:
  assumes "agg_inv rep F host qs R p S bs rs" and "exclusive_sum_spec E" and "agg_step E F host (Program p S) X"
  obtains p' S' bs' rs' where "X = Program p' S'" "agg_inv rep F host qs R p' S' bs' rs'" "work p' S' < work p S"
proof (rule agg_stepE [OF assms(3)])
  fix p' S' assume "X = Program p' S'" "producer_step host p S = Some (p', S')"
  then show thesis using produce_inv [OF assms(1)] that by blast
next
  fix od i S' assume "X = Program p S'" "orders_ok od" "i < length (chunks S)" "processChunk_step E od F i S = Some (Inr S')"
  then show thesis using process_inv [OF assms(1,2)] that by blast
next
  fix od i e assume "orders_ok od" "i < length (chunks S)" "processChunk_step E od F i S = Some (Inl e)"
  then show thesis using process_inv [OF assms(1,2)] by blast
qed

lemma run_inv:
  assumes "agg_inv rep F host qs R p S bs rs" and "exclusive_sum_spec E" and "(agg_step E F host ^^ n) (Program p S) X"
  obtains p' S' bs' rs' where "X = Program p' S'" "agg_inv rep F host qs R p' S' bs' rs'" "work p' S' + n \<le> work p S"
proof -
  have "\<exists>p' S' bs' rs'. X = Program p' S' \<and> agg_inv rep F host qs R p' S' bs' rs' \<and> work p' S' + n \<le> work p S"
    using assms(3)
  proof (induction n arbitrary: X)
    case 0
    then show ?case using assms(1) by auto
  next
    case (Suc n)
    from Suc.prems obtain Y where Y: "(agg_step E F host ^^ n) (Program p S) Y" "agg_step E F host Y X" by auto
    from Suc.IH [OF Y(1)] obtain p1 S1 bs1 rs1 where 1: "Y = Program p1 S1" "agg_inv rep F host qs R p1 S1 bs1 rs1"
      "work p1 S1 + n \<le> work p S" by blast
    obtain p2 S2 bs2 rs2 where "X = Program p2 S2" "agg_inv rep F host qs R p2 S2 bs2 rs2" "work p2 S2 < work p1 S1"
      by (rule step_inv [OF 1(2) assms(2) Y(2) [unfolded 1(1)]])
    with 1(3) show ?case by fastforce
  qed
  then show ?thesis using that by blast
qed

text \<open>There is a run to the end.\<close>

lemma run_to_end:
  assumes "exclusive_sum_spec E"
  shows "agg_inv rep F host qs R p S bs rs \<Longrightarrow> \<exists>S'. (agg_step E F host)\<^sup>*\<^sup>* (Program p S) (Program Joined S')"
proof (induction "work p S" arbitrary: p S bs rs rule: less_induct)
  case less
  show ?case
  proof (cases "p = Joined")
    case False
    obtain Y where Y: "agg_step E F host (Program p S) Y" using agg_progress [OF less.prems False] by blast
    obtain p' S' bs' rs' where 1: "Y = Program p' S'" "agg_inv rep F host qs R p' S' bs' rs'" "work p' S' < work p S"
      by (rule step_inv [OF less.prems assms Y])
    obtain S2 where "(agg_step E F host)\<^sup>*\<^sup>* (Program p' S') (Program Joined S2)" using less.hyps [OF 1(3,2)] by blast
    then show ?thesis using Y 1(1) by (meson converse_rtranclp_into_rtranclp)
  qed blast
qed

lemma joined_tables:
  assumes "setup_ok host qs S" and "exclusive_sum_spec E"
    and "(agg_step E F host)\<^sup>*\<^sup>* (Program (Queueing qs) (startProcessing F S)) (Program Joined S')"
  obtains bs rs where "agg_inv rep F host qs (concat (map (rows_of host) qs)) Joined S' bs rs"
    and "mset (concat (map (rows_of host) qs)) = (\<Sum>i < length (chunks S'). mset (rs i))"
proof -
  obtain n where n: "(agg_step E F host ^^ n) (Program (Queueing qs) (startProcessing F S)) (Program Joined S')"
    using assms(3) by (metis rtranclp_power)
  obtain p' S2 bs rs where e: "Program Joined S' = Program p' S2"
    and i: "agg_inv rep F host qs (concat (map (rows_of host) qs)) p' S2 bs rs"
    by (rule run_inv [OF start_inv [OF assms(1)] assms(2) n])
  then have inv: "agg_inv rep F host qs (concat (map (rows_of host) qs)) Joined S' bs rs" by simp
  then have "concat (bs i) = []" if "i < length (chunks S')" for i
    using that by (simp add: agg_inv_def chunk_flags_def)
  then have "rows_in (length (chunks S')) bs rs = (\<Sum>i < length (chunks S'). mset (rs i))"
    unfolding rows_in_def by (intro sum.cong) (simp_all del: concat_eq_Nil_conv mset_concat)
  then show ?thesis using that [OF inv] inv by (simp add: agg_inv_def)
qed

end

end
