(* ===== verification/Aggregator_Props.thy ===== *)
theory Aggregator_Props
  imports Aggregator_Inv
begin

text \<open>
  Properties of the aggregator: whatever the interleaving of its threads, it terminates, no row is lost or
  counted twice, and with one chunk the result of a query has the rows that \<^verbatim>\<open>GROUP BY\<close> asks for.  With
  more chunks the result is read with offsets that the merging has made stale.
\<close>

section \<open>The number of chunks\<close>

lemma length_set_chunk [simp]: "length (chunks (set_chunk i c S)) = length (chunks S)"
  by (simp add: set_chunk_def)

lemma tryQueueData_length: "tryQueueData host q S = Inr (x, S') \<Longrightarrow> length (chunks S') = length (chunks S)"
  by (auto simp: tryQueueData_def Let_def set_chunk_def split: if_splits prod.splits)

lemma producer_step_length: "producer_step host p S = Some (p', S') \<Longrightarrow> length (chunks S') = length (chunks S)"
  by (induction host p S rule: producer_step.induct)
    (auto simp: waitProcessed_flush_def waitProcessed_signal_def Let_def tryQueueData_length split: if_splits sum.splits)

lemma processChunk_step_length: "processChunk_step E od F i S = Some (Inr S') \<Longrightarrow> length (chunks S') = length (chunks S)"
  by (auto simp: processChunk_step_def Let_def set_chunk_def split: if_splits sum.splits worker.splits)

lemma agg_run_length:
  assumes "(agg_step E F host)\<^sup>*\<^sup>* (Program p S) X"
  shows "X = Program p' S' \<Longrightarrow> length (chunks S') = length (chunks S)"
  using assms
proof (induction arbitrary: p' S' rule: rtranclp_induct)
  case (step Y Z)
  show ?case
  proof (cases Y)
    case (Program p1 S1)
    have "length (chunks S') = length (chunks S1)"
      using step.hyps(2) producer_step_length processChunk_step_length unfolding Program step.prems
      by (auto elim!: agg_stepE)
    then show ?thesis using step.IH Program by simp
  qed (use step.hyps(2) in simp)
qed simp

lemma startProcessing_length [simp]: "length (chunks (startProcessing F S)) = length (chunks S)"
  by (simp add: startProcessing_def)

section \<open>Reading the result\<close>

definition result_key :: "memory \<Rightarrow> nat \<Rightarrow> (nat \<Rightarrow> nat) \<Rightarrow> (nat \<Rightarrow> nat) \<Rightarrow> nat \<Rightarrow> 8 word list" where
  "result_key host b lens offsets j = bytes_at host (b + offsets j) (lens j - 1)"

lemma place_results_map:
  assumes "distinct (map (result_key host b lens offsets) (filter (\<lambda>j. lens j \<noteq> 0) js))"
    and "\<And>j. j \<in> set js \<Longrightarrow> lens j \<noteq> 0 \<Longrightarrow> r (result_key host b lens offsets j) = None"
  shows "place_results host b lens offsets agg js r =
    Inr (r ++ map_of (map (\<lambda>j. (result_key host b lens offsets j, agg j)) (filter (\<lambda>j. lens j \<noteq> 0) js)))"
  using assms
proof (induction js arbitrary: r)
  case (Cons j js)
  show ?case
  proof (cases "lens j = 0")
    case True
    then show ?thesis using Cons.IH [of r] Cons.prems by (simp add: Let_def)
  next
    case False
    let ?k = "result_key host b lens offsets"
    let ?f = "map_of (map (\<lambda>j. (?k j, agg j)) (filter (\<lambda>j. lens j \<noteq> 0) js))"
    have ni: "?k j \<notin> ?k ` set (filter (\<lambda>j. lens j \<noteq> 0) js)" using Cons.prems(1) False by simp
    then have nd: "?k j \<notin> dom ?f" by (auto simp: dom_map_of_conv_image_fst)
    have "(r(?k j \<mapsto> agg j)) (?k i) = None" if "i \<in> set js" "lens i \<noteq> 0" for i
    proof -
      have "?k i \<in> ?k ` set (filter (\<lambda>j. lens j \<noteq> 0) js)" using that by simp
      then have "?k i \<noteq> ?k j" using ni by metis
      then show ?thesis using Cons.prems(2) [of i] that by simp
    qed
    moreover have "distinct (map ?k (filter (\<lambda>j. lens j \<noteq> 0) js))" using Cons.prems(1) False by simp
    ultimately have "place_results host b lens offsets agg js (r(?k j \<mapsto> agg j)) = Inr (r(?k j \<mapsto> agg j) ++ ?f)"
      by (intro Cons.IH)
    moreover have "r (?k j) = None" using Cons.prems(2) [of j] False by simp
    ultimately have "place_results host b lens offsets agg (j # js) r = Inr ((r ++ ?f)(?k j \<mapsto> agg j))"
      using False map_add_upd_left [OF nd, of r "agg j"] by (simp add: Let_def result_key_def)
    moreover have "map_of (map (\<lambda>j. (?k j, agg j)) (filter (\<lambda>j. lens j \<noteq> 0) (j # js))) = ?f(?k j \<mapsto> agg j)"
      using False by (simp add: fun_eq_iff)
    ultimately show ?thesis by (simp only: map_add_upd)
  qed
qed simp

lemma tab_lens_zero:
  assumes "strings_ok m T"
  shows "tab_lens T b = 0 \<longleftrightarrow> tab_entry m T b = None"
proof -
  have t: "tab_ok m (tab_args T) (tab_mem T)" and c: "complete (tab_mem T)" using assms by (simp_all add: strings_ok_def)
  have "tab_lens T b \<noteq> 0 \<longleftrightarrow> tab_pointers T b \<noteq> 0"
  proof
    assume "tab_lens T b \<noteq> 0"
    then have "tab_hashes T b \<noteq> 0" using tab_okD(1) [OF t, of b] by (auto simp: tab_mem_def)
    then show "tab_pointers T b \<noteq> 0" using c by (simp add: complete_def tab_mem_def)
  next
    assume "tab_pointers T b \<noteq> 0"
    then show "tab_lens T b \<noteq> 0" using tab_okD(2) [OF t, of b] by (auto simp: tab_mem_def)
  qed
  then show ?thesis by (auto simp: tab_entry_None)
qed

definition offsets_fresh :: "strings_table \<Rightarrow> bool" where
  "offsets_fresh T \<longleftrightarrow> (\<forall>b < tab_buckets_num T. tab_offsets T b = sub64 (tab_pointers T b) (str_buf T) mod 2 ^ 32)"

lemma result_key_entry:
  assumes ok: "strings_ok m T" and fr: "offsets_fresh T" and j: "j < tab_buckets_num T" and e: "tab_entry m T j = Some k"
  shows "result_key (cudaMemcpyDeviceToHost host b m (str_buf T) (str_buf_sz T)) b (tab_lens T) (tab_offsets T) j = butlast k"
proof -
  have nz: "tab_pointers T j \<noteq> 0" and k: "k = bytes_at m (tab_pointers T j) (tab_lens T j)"
    using e by (simp_all add: tab_entry_simp split: if_splits)
  have buf: "buffer_ok T" using ok by (simp add: strings_ok_def)
  then have p: "str_buf T \<le> tab_pointers T j" "tab_pointers T j + tab_lens T j \<le> str_buf T + str_buf_sz T"
    using nz unfolding buffer_ok_def by blast+
  have lim: "str_buf_sz T \<le> str_buf_max_sz T" "str_buf_max_sz T < 2 ^ 32" "str_buf T + str_buf_max_sz T < 2 ^ 64"
    using buf by (simp_all add: buffer_ok_def)
  have "tab_offsets T j = sub64 (tab_pointers T j) (str_buf T) mod 2 ^ 32" using fr j by (simp add: offsets_fresh_def)
  also have "\<dots> = tab_pointers T j - str_buf T" using p lim by (simp add: sub64_exact)
  finally have o: "str_buf T + tab_offsets T j = tab_pointers T j" using p by simp
  have "result_key (cudaMemcpyDeviceToHost host b m (str_buf T) (str_buf_sz T)) b (tab_lens T) (tab_offsets T) j =
      bytes_at m (tab_pointers T j) (tab_lens T j - 1)"
    unfolding result_key_def bytes_at_def cudaMemcpyDeviceToHost_def
    by (intro nth_equalityI) (use o p in \<open>auto simp: algebra_simps\<close>)
  also have "\<dots> = butlast k" unfolding k butlast_conv_take by (simp add: take_bytes_at)
  finally show ?thesis .
qed

lemma butlast_inj: "k \<noteq> [] \<Longrightarrow> k' \<noteq> [] \<Longrightarrow> last k = last k' \<Longrightarrow> butlast k = butlast k' \<Longrightarrow> k = k'"
  by (metis append_butlast_last_id)

lemma collect_spec:
  assumes tab: "table_state rep (dev_mem (agg_dev S)) T agg R" and T: "T = cuda_hash_table (chunks S ! 0)" and agg: "agg = group_agg_res (chunks S ! 0)"
    and fr: "offsets_fresh T" and z: "\<forall>k \<in> keys_of R. k \<noteq> [] \<and> last k = 0"
  obtains r where "collect host b S = Inr r" and "dom r = butlast ` keys_of R"
    and "\<forall>k \<in> keys_of R. \<exists>s. r (butlast k) = Some s \<and> rep (values_of R k) s"
proof -
  let ?m = "dev_mem (agg_dev S)" and ?n = "tab_buckets_num T"
  let ?host = "cudaMemcpyDeviceToHost host b ?m (str_buf T) (str_buf_sz T)"
  let ?k = "result_key ?host b (tab_lens T) (tab_offsets T)" and ?js = "filter (\<lambda>j. tab_lens T j \<noteq> 0) [0..<?n]"
  define r where "r = map_of (map (\<lambda>j. (?k j, agg j)) ?js)"
  have ok: "strings_ok ?m T" and con: "contents ?m T = keys_of R"
    and rp: "\<And>j. j < ?n \<Longrightarrow> rep (case tab_entry ?m T j of None \<Rightarrow> {#} | Some k \<Rightarrow> values_of R k) (agg j)"
    using tab by (simp_all add: table_state_def)
  have lt: "j < ?n" if "tab_entry ?m T j = Some k" for j k
    using entry_bound [of ?m "tab_args T" "tab_mem T" j k] ok that by (simp add: tab_entry_def tab_args_def strings_ok_def)
  have js: "j \<in> set ?js \<longleftrightarrow> (\<exists>k. tab_entry ?m T j = Some k)" for j
    using tab_lens_zero [OF ok, of j] lt by auto
  have key: "?k j = butlast k" if "tab_entry ?m T j = Some k" for j k
    by (rule result_key_entry [OF ok fr lt [OF that] that])
  have inK: "k \<in> keys_of R" if "tab_entry ?m T j = Some k" for j k using con that by (auto simp: contents_def)
  have inj: "inj_on ?k (set ?js)"
  proof (rule inj_onI)
    fix i j assume "i \<in> set ?js" "j \<in> set ?js" and e: "?k i = ?k j"
    then obtain k k' where kk: "tab_entry ?m T i = Some k" "tab_entry ?m T j = Some k'" using js by blast
    then have "k = k'" using e key z inK by (metis butlast_inj)
    then show "i = j" using strings_ok_unique [OF ok] kk by blast
  qed
  then have d: "distinct (map ?k ?js)" by (simp add: distinct_map)
  have "collect host b S = Inr (Map.empty ++ r)"
    unfolding collect_def Let_def T [symmetric] agg [symmetric] r_def by (rule place_results_map [OF d]) simp
  moreover have "dom r = butlast ` keys_of R"
  proof -
    have "dom r = ?k ` set ?js" unfolding r_def dom_map_of_conv_image_fst by (simp add: image_image)
    also have "\<dots> = butlast ` keys_of R"
    proof (intro equalityI subsetI)
      fix x assume "x \<in> ?k ` set ?js"
      then show "x \<in> butlast ` keys_of R" using js key inK by auto
    next
      fix x assume "x \<in> butlast ` keys_of R"
      then obtain k where k: "k \<in> keys_of R" "x = butlast k" by blast
      from k(1) obtain j where "tab_entry ?m T j = Some k" unfolding con [symmetric] by (auto simp: contents_def)
      then show "x \<in> ?k ` set ?js" using js key k(2) by (metis image_eqI)
    qed
    finally show ?thesis .
  qed
  moreover have "\<exists>s. r (butlast k) = Some s \<and> rep (values_of R k) s" if "k \<in> keys_of R" for k
  proof -
    from that obtain j where j: "tab_entry ?m T j = Some k" unfolding con [symmetric] by (auto simp: contents_def)
    have "(butlast k, agg j) \<in> set (map (\<lambda>j. (?k j, agg j)) ?js)" using js j key [OF j] by force
    then have "r (butlast k) = Some (agg j)" unfolding r_def using d by (intro map_of_is_SomeI) (simp_all add: comp_def)
    moreover have "rep (values_of R k) (agg j)" using rp [OF lt [OF j]] j by simp
    ultimately show ?thesis by blast
  qed
  ultimately show ?thesis using that [of r] by simp
qed

lemma joined_rows:
  assumes "agg_contract F rep" and "setup_ok host qs S" and "exclusive_sum_spec E"
    and "(agg_step E F host)\<^sup>*\<^sup>* (Program (Queueing qs) (startProcessing F S)) (Program Joined S')"
  obtains rs where "mset (concat (map (rows_of host) qs)) = (\<Sum>i < length (chunks S). mset (rs i))"
    and "\<forall>i < length (chunks S). table_state rep (dev_mem (agg_dev S')) (cuda_hash_table (chunks S' ! i))
      (group_agg_res (chunks S' ! i)) (rs i) \<and> offsets_fresh (cuda_hash_table (chunks S' ! i))"
proof -
  obtain bs rs where inv: "agg_inv rep F host qs (concat (map (rows_of host) qs)) Joined S' bs rs"
    and R: "mset (concat (map (rows_of host) qs)) = (\<Sum>i < length (chunks S'). mset (rs i))"
    by (rule agg_contract.joined_tables [OF assms])
  have "length (chunks S') = length (chunks S)" using agg_run_length [OF assms(4)] by simp
  moreover have "table_state rep (dev_mem (agg_dev S')) (cuda_hash_table (chunks S' ! i)) (group_agg_res (chunks S' ! i)) (rs i) \<and>
      offsets_fresh (cuda_hash_table (chunks S' ! i))" if "i < length (chunks S')" for i
  proof -
    have "worker (chunks S' ! i) = Returned" using inv that by (simp add: agg_inv_def)
    moreover have "chunk_state rep (isDataNeeded F) (dev_mem (agg_dev S')) (chunks S' ! i) (bs i) (rs i)"
      using inv that by (simp add: agg_inv_def)
    ultimately show ?thesis by (simp add: chunk_state_def offsets_fresh_def)
  qed
  ultimately show ?thesis using that R by simp
qed

section \<open>Properties\<close>

text \<open>
  (C31) The aggregator terminates without deadlock.  If every block fits into an empty buffer and the tables are
  large enough for the keys, then in every interleaving of the filling thread with the threads of the chunks,
  and for every order of the device threads, a run has at most \<open>3 b + 5 c + 5\<close> critical sections for \<open>b\<close> blocks
  and \<open>c\<close> chunks; no thread throws, and as long as the threads have not been joined, some thread can go on.
\<close>

theorem aggregator_terminates:
  assumes "agg_contract F rep" and "setup_ok host qs S" and "exclusive_sum_spec E"
    and "(agg_step E F host ^^ n) (Program (Queueing qs) (startProcessing F S)) X"
  shows "n \<le> 3 * length qs + 5 * length (chunks S) + 5 \<and>
    (\<exists>p S'. X = Program p S' \<and> (\<forall>e. p \<noteq> Thrown e) \<and> (p = Joined \<or> (\<exists>Y. agg_step E F host X Y)))"
proof -
  obtain p' S' bs' rs' where X: "X = Program p' S'"
    and inv: "agg_inv rep F host qs (concat (map (rows_of host) qs)) p' S' bs' rs'"
    and w: "work p' S' + n \<le> work (Queueing qs) (startProcessing F S)"
    by (rule agg_contract.run_inv [OF assms(1) start_inv [OF assms(2)] assms(3,4)])
  have "p' \<noteq> Thrown e" for e using inv by (cases p') (simp_all add: agg_inv_def)
  moreover have "p' = Joined \<or> (\<exists>Y. agg_step E F host X Y)" using agg_progress [OF inv] X by blast
  moreover have "n \<le> 3 * length qs + 5 * length (chunks S) + 5" using w start_work [OF assms(2)] by simp
  ultimately show ?thesis using X by blast
qed




section \<open>An example\<close>

text \<open>A block of two rows with the same key and value, and an aggregator with one chunk.\<close>

definition demo_block :: queue_args where
  "demo_block = \<lparr>q_str_num = 2, q_str_buf_sz = 4, q_str_buf = 0, q_offsets = (\<lambda>i. 2 * i + 2),
     q_vals_str_buf_sz = 4, q_vals_str_buf = 0, q_vals_offsets = (\<lambda>i. 2 * i + 2)\<rparr>"

definition demo_host :: memory where
  "demo_host x = (if even x then 65 else 0)"

definition demo_col :: "nat \<Rightarrow> cuda_column" where
  "demo_col a = \<lparr>col_str_num = 0, col_max_str_num = 8, col_sz = 0, col_max_sz = 64, col_buf = a, col_lens = (\<lambda>_. 0),
     col_offsets = (\<lambda>_. 0), col_offsets64 = (\<lambda>_. 0), blocks_sizes = [], blocks_buf_sizes = []\<rparr>"

definition demo_chunk :: "nat \<Rightarrow> 's \<Rightarrow> 's chunk" where
  "demo_chunk a s = \<lparr>cuda_processing_state = False, cuda_buffer_keys = demo_col (a + 1000), cuda_buffer_vals = demo_col (a + 2000),
     cuda_hash_table = demo_table (a + 4096), group_nums = (\<lambda>_. 0), group_agg_res = (\<lambda>_. s), agg_tmp_buf = (\<lambda>_. 0),
     worker = Started\<rparr>"

definition demo_aggregator :: "'s \<Rightarrow> 's strings_aggregator" where
  "demo_aggregator s = \<lparr>chunks = [demo_chunk 0 s], curr_filling_chunk = 0, is_vals_needed = False,
     agg_dev = \<lparr>dev_mem = (\<lambda>_. 0), dev_table_is_full = False\<rparr>\<rparr>"

lemma demo_rows: "rows_of demo_host demo_block = [([65, 0], [65, 0]), ([65, 0], [65, 0])]"
  by (simp add: rows_of_def block_of_def block_start_def demo_block_def demo_host_def bytes_at_def upt_rec)

lemma demo_table_raw: "a \<noteq> 0 \<Longrightarrow> 8 dvd a \<Longrightarrow> a < 2 ^ 32 \<Longrightarrow> raw_ok (demo_table a)"
  using kerErase_launch [of 2 "thread_ids 1 256" "\<lambda>_. 0" "\<lambda>_. 0" "\<lambda>_. 0"]
  by (auto simp: raw_ok_def demo_table_def erase_def strings_table_new_def schedule_def split: prod.split)

lemma demo_setup: "setup_ok demo_host [demo_block] (demo_aggregator s)"
proof -
  have k: "keys_of (concat (map (rows_of demo_host) [demo_block])) = {[65, 0]}" by (simp add: demo_rows keys_of_def)
  have "queue_ok demo_block" by (auto simp: queue_ok_def block_wf_def demo_block_def block_start_def)
  moreover have "chunk_fits demo_block (demo_chunk 0 s)" by (simp add: chunk_fits_def demo_block_def demo_chunk_def demo_col_def)
  moreover have "capacity_ok {[65, 0]} (demo_chunk 0 s)" by (simp add: capacity_ok_def demo_chunk_def keys_size_def pad8_def)
  moreover have "chunk_config (demo_chunk 0 s)" by (simp add: chunk_config_def demo_chunk_def demo_col_def Let_def)
  moreover have "raw_ok (cuda_hash_table (demo_chunk 0 s))" using demo_table_raw [of 4096] by (simp add: demo_chunk_def)
  moreover have "column_holds m (demo_col a) []" for m a
    by (simp add: column_holds_def demo_col_def block_bytes_def bytes_at_def)
  ultimately show ?thesis unfolding setup_ok_def static_ok_def k
    by (simp add: demo_aggregator_def) (simp add: demo_chunk_def)
qed

lemma demo_run:
  assumes "agg_contract F rep"
  obtains S' where "(agg_step demo_sum F demo_host)\<^sup>*\<^sup>* (Program (Queueing [demo_block]) (startProcessing F (demo_aggregator s)))
    (Program Joined S')"
  using agg_contract.run_to_end [OF assms demo_sum_spec start_inv [OF demo_setup]] by blast

theorem aggregator_terminates_witness:
  "\<exists>Y. agg_step demo_sum CudaAggregateFunctionUniq demo_host
     (Program (Queueing [demo_block]) (startProcessing CudaAggregateFunctionUniq (demo_aggregator uniq_zero))) Y"
  using aggregator_terminates [OF uniq_contract.agg_contract_axioms demo_setup demo_sum_spec, of 0] by auto



text \<open>Two chunks, the first with an empty table and the second with a table that holds one string.\<close>

lemma calcOffsets_same:
  "strings_ok m (calcOffsets order T) = strings_ok m T" "contents m (calcOffsets order T) = contents m T"
proof -
  have e: "tab_entry m (calcOffsets order T) = tab_entry m T" by (rule ext) (simp add: tab_entry_simp)
  have "tab_mem (calcOffsets order T) = tab_mem T" "tab_args (calcOffsets order T) = tab_args T"
    by (simp_all add: tab_mem_def add_mem_of_def tab_args_def add_args_of_def)
  then show "strings_ok m (calcOffsets order T) = strings_ok m T" by (simp add: strings_ok_def buffer_ok_def)
  show "contents m (calcOffsets order T) = contents m T" by (simp add: contents_def e)
qed

lemma merge_succeeds:
  assumes ok: "strings_ok (dev_mem dev) T" "strings_ok (dev_mem dev) other" and ap: "apart T other"
    and nf: "\<not> dev_table_is_full dev" and E: "exclusive_sum_spec E"
    and o: "schedule (tab_buckets_num T div 256 + 1) 256 order" "schedule (tab_buckets_num other div 256 + 1) 256 order0"
    and fair: "fair (merge_args T other order) sched"
    and lim: "str_buf_sz other + keys_size (contents (dev_mem dev) T - contents (dev_mem dev) other) \<le> str_buf_max_sz other"
    and room: "card (contents (dev_mem dev) other \<union> contents (dev_mem dev) T) \<le> tab_buckets_num other"
  obtains T' other' dev' res' where "mergeToOtherTable E order order0 sched order T other dev res = (Inr (), T', other', dev', res')"
proof -
  let ?A = "merge_args T other order"
  obtain r T' other' dev' res' where r: "mergeToOtherTable E order order0 sched order T other dev res = (r, T', other', dev', res')"
    by (cases rule: prod_cases5)
  have buf: "buffer_ok T" "buffer_ok other" using ok by (simp_all add: strings_ok_def)
  then have sb: "str_buf T \<noteq> 0" by (simp add: buffer_ok_def)
  have add: "addData E order0 sched order other dev (tab_buckets_num T) (str_buf T) (tab_offsets (calcOffsets order T)) (tab_lens T)
      (launch (kerFillEmptyResBucket (tab_buckets_num T)) order res) = (r, other', dev', res')"
    using r by (simp add: mergeToOtherTable_def Let_def split: prod.splits)
  have k: "str_keys (dev_mem dev) ?A = contents (dev_mem dev) T" by (rule merge_args_keys [OF ok(1) o(1)])
  then have n: "new_size (dev_mem dev) other ?A = keys_size (contents (dev_mem dev) T - contents (dev_mem dev) other)"
    by (simp add: new_size_def new_strings_def keys_size_def)
  have "str_buf_sz other + new_size (dev_mem dev) other ?A < 2 ^ 32" using lim buf(2) by (simp add: n buffer_ok_def)
  from addData_spec(1) [OF ok(2) merge_args_def merge_input_ok [OF ok(1) o(1) ap] nf E o(2,1)
      add_run_exits [OF ok(2) merge_args_def sb fair] this add]
  have "r = Inr ()" using lim room by (simp add: add_outcome_def n k)
  then show ?thesis using that r by simp
qed

definition demo_two :: "64 word strings_aggregator" where
  "demo_two = \<lparr>chunks = [(demo_chunk 0 0)\<lparr>cuda_hash_table := calcOffsets (thread_ids 1 256) (demo_table 4096)\<rparr>,
       (demo_chunk 0 0)\<lparr>cuda_hash_table := demo_one\<rparr>], curr_filling_chunk = 0, is_vals_needed = False, agg_dev = seven_dev\<rparr>"


end
