(* ===== verification/Core_Block.thy ===== *)
theory Core_Block
  imports Prelude "HOL-Library.List_Lexorder" "HOL-Library.Char_ord" "HOL-Library.Sublist"
begin

text \<open>
  Blocks of columns (\<^verbatim>\<open>Core/Block.cpp\<close>): the columns in order, and the index of their positions by
  name.  Columns and data types enter by their virtual functions, a record that every operation is given.
\<close>

section \<open>The state\<close>

text \<open>The virtual functions of \<^verbatim>\<open>IColumn\<close> and \<^verbatim>\<open>IDataType\<close> that a block calls.\<close>

record ('c, 't, 'f) column_ops =
  op_size :: "'c \<Rightarrow> size_t"
  op_byteSize :: "'c \<Rightarrow> size_t"
  op_allocatedBytes :: "'c \<Rightarrow> size_t"
  op_cloneEmpty :: "'c \<Rightarrow> 'c"
  op_mutate :: "'c \<Rightarrow> 'c"
  op_getName :: "'c \<Rightarrow> string"
  op_dumpStructure :: "'c \<Rightarrow> string"
  op_isColumnConst :: "'c \<Rightarrow> bool"
  op_getField :: "'c \<Rightarrow> 'f"
  op_convertToFullColumnIfConst :: "'c \<Rightarrow> 'c option"
  op_cut :: "'c \<Rightarrow> size_t \<Rightarrow> size_t \<Rightarrow> 'c"
  op_createColumn :: "'t \<Rightarrow> 'c"
  op_equals :: "'t \<Rightarrow> 't \<Rightarrow> bool"
  op_typeName :: "'t \<Rightarrow> string"

text \<open>A pointer that may be null is an option.\<close>

record ('c, 't) elem =
  el_column :: "'c option"
  el_type :: "'t option"
  el_name :: string

record block_info =
  is_overflows :: bool
  bucket_num :: int

record ('c, 't) column_block =
  blk_data :: "('c, 't) elem list"
  index_by_name :: "string \<rightharpoonup> nat"
  blk_info :: block_info

datatype mismatch = DifferentNumber | DifferentNames | DifferentTypes | DifferentColumns | DifferentConstants

datatype block_error = PositionOutOfBound | NotFoundColumn | SizesDontMatch | DifferentStructure mismatch | NullPointer | VectorOutOfRange

definition BlockInfo :: block_info where
  "BlockInfo = \<lparr>is_overflows = False, bucket_num = -1\<rparr>"

definition empty_block :: "('c, 't) column_block" where
  "empty_block = \<lparr>blk_data = [], index_by_name = Map.empty, blk_info = BlockInfo\<rparr>"

section \<open>Columns with type and name\<close>

definition elem_of_type :: "('c, 't, 'f) column_ops \<Rightarrow> 't \<Rightarrow> string \<Rightarrow> ('c, 't) elem" where
  "elem_of_type ops t n = \<lparr>el_column = Some (op_createColumn ops t), el_type = Some t, el_name = n\<rparr>"

definition elem_cloneEmpty :: "('c, 't, 'f) column_ops \<Rightarrow> ('c, 't) elem \<Rightarrow> ('c, 't) elem" where
  "elem_cloneEmpty ops e =
     \<lparr>el_column = map_option (op_cloneEmpty ops) (el_column e), el_type = el_type e, el_name = el_name e\<rparr>"

definition elem_eq :: "('c, 't, 'f) column_ops \<Rightarrow> ('c, 't) elem \<Rightarrow> ('c, 't) elem \<Rightarrow> bool" where
  "elem_eq ops e f \<longleftrightarrow> el_name e = el_name f \<and>
     (case (el_type e, el_type f) of (None, None) \<Rightarrow> True | (Some t, Some u) \<Rightarrow> op_equals ops t u | _ \<Rightarrow> False) \<and>
     (case (el_column e, el_column f) of (None, None) \<Rightarrow> True | (Some c, Some d) \<Rightarrow> op_getName ops c = op_getName ops d
      | _ \<Rightarrow> False)"

definition elem_dumpStructure :: "('c, 't, 'f) column_ops \<Rightarrow> ('c, 't) elem \<Rightarrow> string" where
  "elem_dumpStructure ops e = el_name e @
     (case el_type e of Some t \<Rightarrow> '' '' @ op_typeName ops t | None \<Rightarrow> '' nullptr'') @
     (case el_column e of Some c \<Rightarrow> '' '' @ op_dumpStructure ops c | None \<Rightarrow> '' nullptr'')"

section \<open>Operations\<close>

abbreviation names :: "('c, 't) column_block \<Rightarrow> string list" where
  "names B \<equiv> map el_name (blk_data B)"

definition columns :: "('c, 't) column_block \<Rightarrow> nat" where
  "columns B = length (blk_data B)"

fun initializeIndexByName :: "nat \<Rightarrow> ('c, 't) elem list \<Rightarrow> (string \<rightharpoonup> nat) \<Rightarrow> string \<rightharpoonup> nat" where
  "initializeIndexByName i [] index = index"
| "initializeIndexByName i (e # es) index = initializeIndexByName (Suc i) es (index(el_name e \<mapsto> i))"

definition Block :: "('c, 't) elem list \<Rightarrow> ('c, 't) column_block" where
  "Block es = \<lparr>blk_data = es, index_by_name = initializeIndexByName 0 es Map.empty, blk_info = BlockInfo\<rparr>"

definition insert_at :: "nat \<Rightarrow> ('c, 't) elem \<Rightarrow> ('c, 't) column_block \<Rightarrow> block_error + ('c, 't) column_block" where
  "insert_at position e B =
     (if position > length (blk_data B) then Inl PositionOutOfBound
      else
        (let index = (\<lambda>n. map_option (\<lambda>p. if p \<ge> position then Suc p else p) (index_by_name B n))
         in Inr (B\<lparr>index_by_name := index(el_name e \<mapsto> position),
                   blk_data := take position (blk_data B) @ e # drop position (blk_data B)\<rparr>)))"

definition block_insert :: "('c, 't) elem \<Rightarrow> ('c, 't) column_block \<Rightarrow> ('c, 't) column_block" where
  "block_insert e B =
     B\<lparr>index_by_name := (index_by_name B)(el_name e \<mapsto> length (blk_data B)), blk_data := blk_data B @ [e]\<rparr>"

definition insertUnique :: "('c, 't) elem \<Rightarrow> ('c, 't) column_block \<Rightarrow> ('c, 't) column_block" where
  "insertUnique e B = (if index_by_name B (el_name e) = None then block_insert e B else B)"

definition eraseImpl :: "nat \<Rightarrow> ('c, 't) column_block \<Rightarrow> ('c, 't) column_block" where
  "eraseImpl position B =
     B\<lparr>blk_data := take position (blk_data B) @ drop (Suc position) (blk_data B),
       index_by_name := (\<lambda>n. case index_by_name B n of
           None \<Rightarrow> None
         | Some p \<Rightarrow> if p = position then None else if p > position then Some (p - 1) else Some p)\<rparr>"

definition erase_at :: "nat \<Rightarrow> ('c, 't) column_block \<Rightarrow> block_error + ('c, 't) column_block" where
  "erase_at position B =
     (if blk_data B = [] then Inl PositionOutOfBound
      else if position \<ge> length (blk_data B) then Inl PositionOutOfBound
      else Inr (eraseImpl position B))"

definition erase_name :: "string \<Rightarrow> ('c, 't) column_block \<Rightarrow> block_error + ('c, 't) column_block" where
  "erase_name n B = (case index_by_name B n of None \<Rightarrow> Inl NotFoundColumn | Some p \<Rightarrow> Inr (eraseImpl p B))"

definition safeGetByPosition :: "('c, 't) column_block \<Rightarrow> nat \<Rightarrow> block_error + ('c, 't) elem" where
  "safeGetByPosition B position =
     (if blk_data B = [] then Inl PositionOutOfBound
      else if position \<ge> length (blk_data B) then Inl PositionOutOfBound
      else Inr (blk_data B ! position))"

definition getByName :: "('c, 't) column_block \<Rightarrow> string \<Rightarrow> block_error + ('c, 't) elem" where
  "getByName B n = (case index_by_name B n of None \<Rightarrow> Inl NotFoundColumn | Some p \<Rightarrow> Inr (blk_data B ! p))"

definition has :: "('c, 't) column_block \<Rightarrow> string \<Rightarrow> bool" where
  "has B n \<longleftrightarrow> index_by_name B n \<noteq> None"

definition getPositionByName :: "('c, 't) column_block \<Rightarrow> string \<Rightarrow> block_error + nat" where
  "getPositionByName B n = (case index_by_name B n of None \<Rightarrow> Inl NotFoundColumn | Some p \<Rightarrow> Inr p)"

definition block_bool :: "('c, 't) column_block \<Rightarrow> bool" where
  "block_bool B \<longleftrightarrow> blk_data B \<noteq> []"

text \<open>A size as \<^verbatim>\<open>ssize_t\<close>.\<close>

definition ssize :: "size_t \<Rightarrow> int" where
  "ssize n = (if n < 2 ^ 63 then int n else int n - 2 ^ 64)"

text \<open>The loop of \<open>checkNumberOfRows\<close>; \<open>rows\<close> is -1 before the first column.\<close>

fun check_rows :: "('c, 't, 'f) column_ops \<Rightarrow> int \<Rightarrow> ('c, 't) elem list \<Rightarrow> block_error + unit" where
  "check_rows ops rows [] = Inr ()"
| "check_rows ops rows (e # es) =
     (case el_column e of
        None \<Rightarrow> Inl SizesDontMatch
      | Some c \<Rightarrow>
          (let sz = ssize (op_size ops c)
           in if rows = -1 then check_rows ops sz es
              else if rows \<noteq> sz then Inl SizesDontMatch
              else check_rows ops rows es))"

definition checkNumberOfRows :: "('c, 't, 'f) column_ops \<Rightarrow> ('c, 't) column_block \<Rightarrow> block_error + unit" where
  "checkNumberOfRows ops B = check_rows ops (-1) (blk_data B)"

fun first_rows :: "('c, 't, 'f) column_ops \<Rightarrow> ('c, 't) elem list \<Rightarrow> nat" where
  "first_rows ops [] = 0"
| "first_rows ops (e # es) = (case el_column e of Some c \<Rightarrow> op_size ops c | None \<Rightarrow> first_rows ops es)"

definition block_rows :: "('c, 't, 'f) column_ops \<Rightarrow> ('c, 't) column_block \<Rightarrow> nat" where
  "block_rows ops B = first_rows ops (blk_data B)"

fun sum_sizes :: "('c \<Rightarrow> size_t) \<Rightarrow> ('c, 't) elem list \<Rightarrow> size_t \<Rightarrow> block_error + size_t" where
  "sum_sizes f [] res = Inr res"
| "sum_sizes f (e # es) res =
     (case el_column e of None \<Rightarrow> Inl NullPointer | Some c \<Rightarrow> sum_sizes f es (add64 res (f c)))"

definition block_bytes_size :: "('c, 't, 'f) column_ops \<Rightarrow> ('c, 't) column_block \<Rightarrow> block_error + size_t" where
  "block_bytes_size ops B = sum_sizes (op_byteSize ops) (blk_data B) 0"

definition allocatedBytes :: "('c, 't, 'f) column_ops \<Rightarrow> ('c, 't) column_block \<Rightarrow> block_error + size_t" where
  "allocatedBytes ops B = sum_sizes (op_allocatedBytes ops) (blk_data B) 0"

fun join :: "('a \<Rightarrow> string) \<Rightarrow> bool \<Rightarrow> 'a list \<Rightarrow> string" where
  "join f begin [] = []"
| "join f begin (e # es) = (if \<not> begin then '', '' else []) @ f e @ join f False es"

definition dumpNames :: "('c, 't) column_block \<Rightarrow> string" where
  "dumpNames B = join el_name True (blk_data B)"

definition dumpStructure :: "('c, 't, 'f) column_ops \<Rightarrow> ('c, 't) column_block \<Rightarrow> string" where
  "dumpStructure ops B = join (elem_dumpStructure ops) True (blk_data B)"

definition cloneEmpty :: "('c, 't, 'f) column_ops \<Rightarrow> ('c, 't) column_block \<Rightarrow> ('c, 't) column_block" where
  "cloneEmpty ops B = fold (\<lambda>e. block_insert (elem_cloneEmpty ops e)) (blk_data B) empty_block"

text \<open>A column of the given element, or a new one of its type; a null type is dereferenced.\<close>

definition column_or_new :: "('c, 't, 'f) column_ops \<Rightarrow> ('c \<Rightarrow> 'c) \<Rightarrow> ('c, 't) elem \<Rightarrow> block_error + 'c" where
  "column_or_new ops f e =
     (case el_column e of
        Some c \<Rightarrow> Inr (f c)
      | None \<Rightarrow> (case el_type e of None \<Rightarrow> Inl NullPointer | Some t \<Rightarrow> Inr (op_createColumn ops t)))"

fun map_results :: "('a \<Rightarrow> 'e + 'b) \<Rightarrow> 'a list \<Rightarrow> 'e + 'b list" where
  "map_results f [] = Inr []"
| "map_results f (x # xs) =
     (case f x of Inl e \<Rightarrow> Inl e | Inr y \<Rightarrow> (case map_results f xs of Inl e \<Rightarrow> Inl e | Inr ys \<Rightarrow> Inr (y # ys)))"

definition cloneEmptyColumns :: "('c, 't, 'f) column_ops \<Rightarrow> ('c, 't) column_block \<Rightarrow> block_error + 'c list" where
  "cloneEmptyColumns ops B = map_results (column_or_new ops (op_cloneEmpty ops)) (blk_data B)"

definition mutateColumns :: "('c, 't, 'f) column_ops \<Rightarrow> ('c, 't) column_block \<Rightarrow> block_error + 'c list" where
  "mutateColumns ops B = map_results (column_or_new ops (op_mutate ops)) (blk_data B)"

definition setColumns :: "'c list \<Rightarrow> ('c, 't) column_block \<Rightarrow> block_error + ('c, 't) column_block" where
  "setColumns cs B =
     (if length cs < length (blk_data B) then Inl VectorOutOfRange
      else Inr (B\<lparr>blk_data := map (\<lambda>(e, c). e\<lparr>el_column := Some c\<rparr>) (zip (blk_data B) cs)\<rparr>))"

definition cloneWithColumns :: "'c list \<Rightarrow> ('c, 't) column_block \<Rightarrow> block_error + ('c, 't) column_block" where
  "cloneWithColumns cs B =
     (if length cs < length (blk_data B) then Inl VectorOutOfRange
      else Inr (fold (\<lambda>(e, c). block_insert \<lparr>el_column = Some c, el_type = el_type e, el_name = el_name e\<rparr>)
                  (zip (blk_data B) cs) empty_block))"

text \<open>\<^verbatim>\<open>std::map\<close> is ordered by its keys.\<close>

definition sortColumns :: "('c, 't) column_block \<Rightarrow> ('c, 't) column_block" where
  "sortColumns B =
     fold (\<lambda>n. block_insert (blk_data B ! the (index_by_name B n))) (sorted_list_of_set (dom (index_by_name B))) empty_block"

definition getNamesAndTypesList :: "('c, 't) column_block \<Rightarrow> (string \<times> 't option) list" where
  "getNamesAndTypesList B = map (\<lambda>e. (el_name e, el_type e)) (blk_data B)"

definition getNames :: "('c, 't) column_block \<Rightarrow> string list" where
  "getNames B = fold (\<lambda>e res. res @ [el_name e]) (blk_data B) []"

definition block_clear :: "('c, 't) column_block \<Rightarrow> ('c, 't) column_block" where
  "block_clear B = B\<lparr>blk_info := BlockInfo, blk_data := [], index_by_name := Map.empty\<rparr>"

definition block_swap :: "('c, 't) column_block \<times> ('c, 't) column_block \<Rightarrow> ('c, 't) column_block \<times> ('c, 't) column_block" where
  "block_swap = (\<lambda>(A, B).
     (A\<lparr>blk_info := blk_info B, blk_data := blk_data B, index_by_name := index_by_name B\<rparr>,
      B\<lparr>blk_info := blk_info A, blk_data := blk_data A, index_by_name := index_by_name A\<rparr>))"

text \<open>The hash of all values, row by row.\<close>

definition updateHash ::
  "('c, 't, 'f) column_ops \<Rightarrow> ('c \<Rightarrow> nat \<Rightarrow> 'h \<Rightarrow> 'h) \<Rightarrow> ('c, 't) column_block \<Rightarrow> 'h \<Rightarrow> block_error + 'h" where
  "updateHash ops updateHashWithValue B hash =
     (if block_rows ops B > 0 \<and> list_ex (\<lambda>e. el_column e = None) (blk_data B) then Inl NullPointer
      else Inr (fold (\<lambda>row_no. fold (\<lambda>e. updateHashWithValue (the (el_column e)) row_no) (blk_data B))
                  [0..<block_rows ops B] hash))"

text \<open>\<open>materializeBlock\<close> replaces the constant columns by full ones.\<close>

definition materialize_elem :: "('c, 't, 'f) column_ops \<Rightarrow> ('c, 't) elem \<Rightarrow> block_error + ('c, 't) elem" where
  "materialize_elem ops e =
     (case el_column e of
        None \<Rightarrow> Inl NullPointer
      | Some src \<Rightarrow> (case op_convertToFullColumnIfConst ops src of
          None \<Rightarrow> Inr e
        | Some converted \<Rightarrow> Inr (e\<lparr>el_column := Some converted\<rparr>)))"

definition materializeBlock :: "('c, 't, 'f) column_ops \<Rightarrow> ('c, 't) column_block \<Rightarrow> block_error + ('c, 't) column_block" where
  "materializeBlock ops B =
     (if \<not> block_bool B then Inr B
      else case map_results (materialize_elem ops) (blk_data B) of
             Inl e \<Rightarrow> Inl e
           | Inr es \<Rightarrow> Inr (B\<lparr>blk_data := es\<rparr>))"

section \<open>Comparing the structure\<close>

definition check_elem :: "('c, 't, 'f) column_ops \<Rightarrow> ('c, 't) elem \<Rightarrow> ('c, 't) elem \<Rightarrow> block_error + unit" where
  "check_elem ops actual expected =
     (if el_name actual \<noteq> el_name expected then Inl (DifferentStructure DifferentNames)
      else case (el_type actual, el_type expected) of
        (Some t, Some u) \<Rightarrow>
          (if \<not> op_equals ops t u then Inl (DifferentStructure DifferentTypes)
           else case (el_column actual, el_column expected) of
             (Some c, Some d) \<Rightarrow>
               (if op_getName ops c \<noteq> op_getName ops d then Inl (DifferentStructure DifferentColumns)
                else if op_isColumnConst ops c \<and> op_isColumnConst ops d \<and> op_getField ops c \<noteq> op_getField ops d
                then Inl (DifferentStructure DifferentConstants)
                else Inr ())
           | _ \<Rightarrow> Inl NullPointer)
      | _ \<Rightarrow> Inl NullPointer)"

fun check_elems :: "('c, 't, 'f) column_ops \<Rightarrow> ('c, 't) elem list \<Rightarrow> ('c, 't) elem list \<Rightarrow> block_error + unit" where
  "check_elems ops (a # as) (e # es) = (case check_elem ops a e of Inl err \<Rightarrow> Inl err | Inr u \<Rightarrow> check_elems ops as es)"
| "check_elems ops as es = Inr ()"

definition checkBlockStructure :: "('c, 't, 'f) column_ops \<Rightarrow> ('c, 't) column_block \<Rightarrow> ('c, 't) column_block \<Rightarrow> block_error + unit" where
  "checkBlockStructure ops lhs rhs =
     (if columns lhs \<noteq> columns rhs then Inl (DifferentStructure DifferentNumber)
      else check_elems ops (blk_data lhs) (blk_data rhs))"

definition blocksHaveEqualStructure :: "('c, 't, 'f) column_ops \<Rightarrow> ('c, 't) column_block \<Rightarrow> ('c, 't) column_block \<Rightarrow> bool" where
  "blocksHaveEqualStructure ops lhs rhs = (case checkBlockStructure ops lhs rhs of Inl e \<Rightarrow> False | Inr u \<Rightarrow> True)"

section \<open>The difference of two blocks\<close>

text \<open>The table of the lengths of common subsequences, filled row by row.\<close>

definition lcs_cell :: "('a \<Rightarrow> 'b \<Rightarrow> bool) \<Rightarrow> 'a list \<Rightarrow> 'b list \<Rightarrow> nat \<Rightarrow> nat \<Rightarrow> (nat \<Rightarrow> nat \<Rightarrow> nat) \<Rightarrow> nat \<Rightarrow> nat \<Rightarrow> nat" where
  "lcs_cell eq xs ys i j lcs =
     lcs(i := (lcs i)(j := if eq (xs ! (i - 1)) (ys ! (j - 1)) then lcs (i - 1) (j - 1) + 1
                           else max (lcs (i - 1) j) (lcs i (j - 1))))"

definition lcs_table :: "('a \<Rightarrow> 'b \<Rightarrow> bool) \<Rightarrow> 'a list \<Rightarrow> 'b list \<Rightarrow> nat \<Rightarrow> nat \<Rightarrow> nat" where
  "lcs_table eq xs ys =
     fold (\<lambda>i. fold (lcs_cell eq xs ys i) [1..<length ys + 1]) [1..<length xs + 1] (\<lambda>_ _. 0)"

text \<open>The way back through the table.\<close>

function diff_loop ::
  "('a \<Rightarrow> 'b \<Rightarrow> bool) \<Rightarrow> 'a list \<Rightarrow> 'b list \<Rightarrow> (nat \<Rightarrow> nat \<Rightarrow> nat) \<Rightarrow> nat \<Rightarrow> nat \<Rightarrow> 'a list \<Rightarrow> 'b list \<Rightarrow>
   nat \<times> nat \<times> 'a list \<times> 'b list" where
  "diff_loop eq xs ys lcs l r left right =
     (if l > 0 \<and> r > 0 then
        (if eq (xs ! (l - 1)) (ys ! (r - 1)) then diff_loop eq xs ys lcs (l - 1) (r - 1) left right
         else if lcs l (r - 1) \<ge> lcs (l - 1) r then diff_loop eq xs ys lcs l (r - 1) left (right @ [ys ! (r - 1)])
         else diff_loop eq xs ys lcs (l - 1) r (left @ [xs ! (l - 1)]) right)
      else (l, r, left, right))"
  by pat_completeness auto
termination by (relation "measure (\<lambda>(eq, xs, ys, lcs, l, r, left, right). l + r)") auto

declare diff_loop.simps [simp del]

fun diff_rest :: "'a list \<Rightarrow> nat \<Rightarrow> 'a list \<Rightarrow> 'a list" where
  "diff_rest xs 0 left = left"
| "diff_rest xs (Suc l) left = diff_rest xs l (left @ [xs ! l])"

definition diff_columns :: "('a \<Rightarrow> 'b \<Rightarrow> bool) \<Rightarrow> 'a list \<Rightarrow> 'b list \<Rightarrow> 'a list \<times> 'b list" where
  "diff_columns eq xs ys =
     (let (l, r, left, right) = diff_loop eq xs ys (lcs_table eq xs ys) (length xs) (length ys) [] []
      in (diff_rest xs l left, diff_rest ys r right))"

text \<open>The descriptions of the differences; \<open>toString\<close> prints a position.\<close>

definition diff_line :: "(nat \<Rightarrow> string) \<Rightarrow> ('c, 't, 'f) column_ops \<Rightarrow> ('c, 't) column_block \<Rightarrow> ('c, 't) elem \<Rightarrow> block_error + string" where
  "diff_line toString ops B e =
     (case getPositionByName B (el_name e) of
        Inl err \<Rightarrow> Inl err
      | Inr p \<Rightarrow> Inr (elem_dumpStructure ops e @ '', position: '' @ toString p @ [CHR 0x0A]))"

definition getBlocksDifference ::
  "(nat \<Rightarrow> string) \<Rightarrow> ('c, 't, 'f) column_ops \<Rightarrow> ('c, 't) column_block \<Rightarrow> ('c, 't) column_block \<Rightarrow> block_error + string \<times> string" where
  "getBlocksDifference toString ops lhs rhs =
     (let (left, right) = diff_columns (elem_eq ops) (blk_data lhs) (blk_data rhs)
      in case map_results (diff_line toString ops lhs) (rev left) of
           Inl e \<Rightarrow> Inl e
         | Inr ls \<Rightarrow> (case map_results (diff_line toString ops rhs) (rev right) of
                        Inl e \<Rightarrow> Inl e
                      | Inr rs \<Rightarrow> Inr (concat ls, concat rs)))"

end
