(* ===== verification/Core_Block_Props.thy ===== *)
theory Core_Block_Props
  imports Core_Block
begin

text \<open>
  What holds of the blocks: the index by name agrees with the columns in every block built by the
  operations, two blocks have equal structure exactly when their columns agree one by one, and the
  difference of two blocks leaves out a longest common subsequence.
\<close>

section \<open>The index by name\<close>

definition index_ok :: "('c, 't) column_block \<Rightarrow> bool" where
  "index_ok B \<longleftrightarrow> (\<forall>n i. index_by_name B n = Some i \<longleftrightarrow> i < length (blk_data B) \<and> names B ! i = n)"

lemma index_okD:
  assumes "index_ok B"
  shows "index_by_name B n = Some i \<longleftrightarrow> i < length (blk_data B) \<and> names B ! i = n"
  using assms by (simp add: index_ok_def)

lemma index_None:
  assumes "index_ok B"
  shows "index_by_name B n = None \<longleftrightarrow> n \<notin> set (names B)"
proof -
  have "index_by_name B n \<noteq> None \<longleftrightarrow> (\<exists>i. index_by_name B n = Some i)" by blast
  also have "\<dots> \<longleftrightarrow> (\<exists>i<length (names B). names B ! i = n)" using index_okD [OF assms] by auto
  also have "\<dots> \<longleftrightarrow> n \<in> set (names B)" unfolding in_set_conv_nth by blast
  finally show ?thesis by blast
qed

lemma index_distinct:
  assumes "index_ok B" shows "distinct (names B)"
  unfolding distinct_conv_nth
proof (intro allI impI notI)
  fix i j
  assume i: "i < length (names B)" and j: "j < length (names B)" and ne: "i \<noteq> j" and eq: "names B ! i = names B ! j"
  have "index_by_name B (names B ! i) = Some i" using i by (simp add: index_okD [OF assms])
  moreover have "index_by_name B (names B ! i) = Some j" using j eq by (simp add: index_okD [OF assms])
  ultimately show False using ne by simp
qed

lemma index_ok_names:
  assumes "index_ok B" "names B' = names B" "index_by_name B' = index_by_name B"
  shows "index_ok B'"
proof -
  have "length (blk_data B') = length (blk_data B)" using assms(2) by (metis length_map)
  then show ?thesis using assms by (simp add: index_ok_def)
qed

lemma index_ok_empty: "index_ok empty_block"
  by (simp add: index_ok_def empty_block_def)

lemma index_ok_insert:
  assumes ok: "index_ok B" and fresh: "el_name e \<notin> set (names B)"
  shows "index_ok (block_insert e B)"
proof -
  have "((index_by_name B)(el_name e \<mapsto> length (blk_data B))) n = Some i \<longleftrightarrow>
        i < Suc (length (blk_data B)) \<and> (names B @ [el_name e]) ! i = n" for n i
  proof (cases "i < length (blk_data B)")
    case True
    then have "names B ! i \<noteq> el_name e" using fresh by (metis length_map nth_mem)
    then show ?thesis using True by (auto simp: nth_append index_okD [OF ok])
  next
    case False
    then show ?thesis by (auto simp: nth_append index_okD [OF ok])
  qed
  then show ?thesis by (simp add: index_ok_def block_insert_def del: fun_upd_apply)
qed

lemma shift_Some:
  "map_option (\<lambda>q. if q \<ge> p then Suc q else q) x = Some i \<longleftrightarrow> i < p \<and> x = Some i \<or> i > p \<and> x = Some (i - 1)"
  for p :: nat
  by (cases x) auto

lemma index_ok_insert_at:
  assumes ok: "index_ok B" and fresh: "el_name e \<notin> set (names B)" and ins: "insert_at p e B = Inr B'"
  shows "index_ok B'"
proof -
  let ?ns = "take p (names B) @ el_name e # drop p (names B)"
  have p: "p \<le> length (blk_data B)" using ins by (simp add: insert_at_def split: if_splits)
  have nth: "?ns ! i = (if i < p then names B ! i else if i = p then el_name e else names B ! (i - 1))"
    if "i < Suc (length (blk_data B))" for i
    using p that by (auto simp: nth_append nth_Cons' min_def)
  have "((\<lambda>n. map_option (\<lambda>q. if q \<ge> p then Suc q else q) (index_by_name B n))(el_name e \<mapsto> p)) n = Some i \<longleftrightarrow>
        i < Suc (length (blk_data B)) \<and> ?ns ! i = n" for n i
  proof (cases "n = el_name e")
    case True
    have "names B ! j \<noteq> el_name e" if "j < length (blk_data B)" for j using fresh that by (metis length_map nth_mem)
    then show ?thesis using True p nth by (cases i p rule: linorder_cases) auto
  next
    case False
    then show ?thesis unfolding fun_upd_other [OF False] shift_Some index_okD [OF ok] using p nth [of i]
      by (cases i p rule: linorder_cases) auto
  qed
  moreover have "B' = B\<lparr>index_by_name := (\<lambda>n. map_option (\<lambda>q. if q \<ge> p then Suc q else q) (index_by_name B n))(el_name e \<mapsto> p),
                   blk_data := take p (blk_data B) @ e # drop p (blk_data B)\<rparr>"
    using ins p by (simp add: insert_at_def Let_def)
  ultimately show ?thesis using p by (simp add: index_ok_def take_map drop_map min_def del: fun_upd_apply)
qed

lemma index_ok_erase:
  assumes ok: "index_ok B" and p: "p < length (blk_data B)"
  shows "index_ok (eraseImpl p B)"
proof -
  let ?ns = "take p (names B) @ drop (Suc p) (names B)"
  have nth: "?ns ! i = (if i < p then names B ! i else names B ! (Suc i))" if "i < length (blk_data B) - 1" for i
    using p that by (auto simp: nth_append min_def)
  have dist: "names B ! p \<noteq> names B ! j" if "j < length (blk_data B)" "j \<noteq> p" for j
    using index_distinct [OF ok] p that by (simp add: nth_eq_iff_index_eq [of "names B"] del: nth_map)
  have "(case index_by_name B n of None \<Rightarrow> None
         | Some q \<Rightarrow> if q = p then None else if q > p then Some (q - 1) else Some q) = Some i \<longleftrightarrow>
        i < length (blk_data B) - 1 \<and> ?ns ! i = n" for n i
  proof -
    have "(case index_by_name B n of None \<Rightarrow> None
           | Some q \<Rightarrow> if q = p then None else if q > p then Some (q - 1) else Some q) = Some i \<longleftrightarrow>
          (if i < p then index_by_name B n = Some i else index_by_name B n = Some (Suc i))"
      by (auto split: option.splits if_splits)
    then show ?thesis using p nth [of i] by (auto simp: index_okD [OF ok])
  qed
  then show ?thesis using p by (simp add: index_ok_def eraseImpl_def take_map drop_map min_def)
qed

lemma block_insert_sel [simp]:
  "blk_data (block_insert e B) = blk_data B @ [e]"
  "index_by_name (block_insert e B) = (index_by_name B)(el_name e \<mapsto> length (blk_data B))"
  by (simp_all add: block_insert_def)

text \<open>A block filled by inserting columns of distinct names one after another.\<close>

lemma fold_insert:
  assumes "index_ok B" "distinct (names B @ map el_name es)"
  shows "index_ok (fold block_insert es B) \<and> blk_data (fold block_insert es B) = blk_data B @ es"
  using assms
proof (induction es arbitrary: B)
  case (Cons e es)
  have "index_ok (block_insert e B)" using Cons.prems by (intro index_ok_insert) auto
  then show ?case using Cons.IH [of "block_insert e B"] Cons.prems by auto
qed simp

lemma fold_insert_empty:
  assumes "distinct (map el_name es)"
  shows "index_ok (fold block_insert es empty_block)" "blk_data (fold block_insert es empty_block) = es"
  using fold_insert [OF index_ok_empty, of es] assms by (simp_all add: empty_block_def)

lemma initialize_fold:
  "initializeIndexByName (length (blk_data B)) es (index_by_name B) = index_by_name (fold block_insert es B)"
proof (induction es arbitrary: B)
  case (Cons e es)
  show ?case using Cons.IH [of "block_insert e B"] by (simp add: fun_upd_def)
qed simp

lemma index_ok_Block:
  assumes "distinct (map el_name es)"
  shows "index_ok (Block es)"
proof -
  have "index_by_name (Block es) = index_by_name (fold block_insert es empty_block)"
    using initialize_fold [of empty_block es] by (simp add: Block_def empty_block_def)
  moreover have "blk_data (Block es) = blk_data (fold block_insert es empty_block)"
    using fold_insert_empty(2) [OF assms] by (simp add: Block_def)
  ultimately show ?thesis using fold_insert_empty(1) [OF assms] by (simp add: index_ok_def)
qed

lemma cloneEmpty_fold: "cloneEmpty ops B = fold block_insert (map (elem_cloneEmpty ops) (blk_data B)) empty_block"
  by (simp add: cloneEmpty_def fold_map comp_def)

lemma names_cloneEmpty: "map (el_name \<circ> elem_cloneEmpty ops) es = map el_name es"
  by (simp add: elem_cloneEmpty_def)

lemma cloneEmpty_ok:
  assumes "index_ok B"
  shows "index_ok (cloneEmpty ops B)" "blk_data (cloneEmpty ops B) = map (elem_cloneEmpty ops) (blk_data B)"
  using index_distinct [OF assms] fold_insert_empty [of "map (elem_cloneEmpty ops) (blk_data B)"]
  by (simp_all add: cloneEmpty_fold names_cloneEmpty)

definition with_column :: "('c, 't) elem \<times> 'c \<Rightarrow> ('c, 't) elem" where
  "with_column = (\<lambda>(e, c). \<lparr>el_column = Some c, el_type = el_type e, el_name = el_name e\<rparr>)"

lemma names_with_column:
  assumes "length es \<le> length cs"
  shows "map (el_name \<circ> with_column) (zip es cs) = map el_name es"
  using assms by (intro nth_equalityI) (auto simp: with_column_def)

lemma cloneWithColumns_fold:
  assumes "cloneWithColumns cs B = Inr B'"
  shows "B' = fold block_insert (map with_column (zip (blk_data B) cs)) empty_block" "length (blk_data B) \<le> length cs"
  using assms by (auto simp: cloneWithColumns_def fold_map with_column_def split: if_splits intro!: fold_cong)

lemma cloneWithColumns_ok:
  assumes "index_ok B" "cloneWithColumns cs B = Inr B'"
  shows "index_ok B'" "blk_data B' = map with_column (zip (blk_data B) cs)"
  using cloneWithColumns_fold [OF assms(2)] index_distinct [OF assms(1)]
    fold_insert_empty [of "map with_column (zip (blk_data B) cs)"]
  by (simp_all add: names_with_column)

lemma setColumns_ok:
  assumes "index_ok B" "setColumns cs B = Inr B'"
  shows "index_ok B'"
proof (rule index_ok_names [OF assms(1)])
  show "index_by_name B' = index_by_name B" using assms(2) by (auto simp: setColumns_def split: if_splits)
  show "names B' = names B"
    using assms(2) by (intro nth_equalityI) (auto simp: setColumns_def split: if_splits)
qed

lemma map_results_all2:
  assumes "map_results f xs = Inr ys"
  shows "list_all2 (\<lambda>x y. f x = Inr y) xs ys"
  using assms by (induction xs arbitrary: ys) (auto split: sum.splits)

lemma materialize_ok:
  assumes "index_ok B" "materializeBlock ops B = Inr B'"
  shows "index_ok B'"
proof (cases "block_bool B")
  case True
  then obtain es where es: "map_results (materialize_elem ops) (blk_data B) = Inr es" "B' = B\<lparr>blk_data := es\<rparr>"
    using assms(2) by (auto simp: materializeBlock_def split: sum.splits)
  have "list_all2 (\<lambda>e e'. materialize_elem ops e = Inr e') (blk_data B) es" by (rule map_results_all2 [OF es(1)])
  then have "list_all2 (\<lambda>e e'. el_name e' = el_name e) (blk_data B) es"
    by (rule list_all2_mono) (auto simp: materialize_elem_def split: option.splits)
  then have "map el_name es = names B"
    by (auto simp: list_all2_conv_all_nth intro!: nth_equalityI)
  then show ?thesis using es(2) by (intro index_ok_names [OF assms(1)]) simp_all
next
  case False
  then show ?thesis using assms by (simp add: materializeBlock_def)
qed

lemma sortColumns_fold:
  "sortColumns B = fold block_insert (map (\<lambda>n. blk_data B ! the (index_by_name B n)) (sorted_list_of_set (dom (index_by_name B)))) empty_block"
  by (simp add: sortColumns_def fold_map comp_def)

lemma dom_index: "index_ok B \<Longrightarrow> dom (index_by_name B) = set (names B)"
  by (simp add: dom_def index_None)

lemma index_nth:
  assumes "index_ok B" "n \<in> set (names B)"
  shows "el_name (blk_data B ! the (index_by_name B n)) = n" "the (index_by_name B n) < length (blk_data B)"
proof -
  obtain i where "index_by_name B n = Some i" using index_None [OF assms(1), of n] assms(2) by auto
  then show "el_name (blk_data B ! the (index_by_name B n)) = n" "the (index_by_name B n) < length (blk_data B)"
    using index_okD [OF assms(1), of n i] by auto
qed

lemma sortColumns_ok:
  assumes "index_ok B"
  shows "index_ok (sortColumns B)" "names (sortColumns B) = sorted_list_of_set (set (names B))"
proof -
  let ?es = "map (\<lambda>n. blk_data B ! the (index_by_name B n)) (sorted_list_of_set (set (names B)))"
  have "el_name (blk_data B ! the (index_by_name B n)) = n" if "n \<in> set (sorted_list_of_set (set (names B)))" for n
    using index_nth(1) [OF assms, of n] that by simp
  then have n: "map el_name ?es = sorted_list_of_set (set (names B))" 
    unfolding map_map comp_def by (rule map_idI)
  then have "distinct (map el_name ?es)" by simp
  then show "index_ok (sortColumns B)" "names (sortColumns B) = sorted_list_of_set (set (names B))"
    using fold_insert_empty [of ?es] n by (simp_all add: sortColumns_fold dom_index [OF assms])
qed

text \<open>The blocks that the operations build, when no name is inserted twice.\<close>

inductive built :: "('c, 't, 'f) column_ops \<Rightarrow> ('c, 't) column_block \<Rightarrow> bool" for ops where
  built_new: "distinct (map el_name es) \<Longrightarrow> built ops (Block es)"
| built_insert: "built ops B \<Longrightarrow> \<not> has B (el_name e) \<Longrightarrow> built ops (block_insert e B)"
| built_insert_at: "built ops B \<Longrightarrow> \<not> has B (el_name e) \<Longrightarrow> insert_at p e B = Inr B' \<Longrightarrow> built ops B'"
| built_insertUnique: "built ops B \<Longrightarrow> built ops (insertUnique e B)"
| built_erase_at: "built ops B \<Longrightarrow> erase_at p B = Inr B' \<Longrightarrow> built ops B'"
| built_erase_name: "built ops B \<Longrightarrow> erase_name n B = Inr B' \<Longrightarrow> built ops B'"
| built_setColumns: "built ops B \<Longrightarrow> setColumns cs B = Inr B' \<Longrightarrow> built ops B'"
| built_cloneEmpty: "built ops B \<Longrightarrow> built ops (cloneEmpty ops B)"
| built_cloneWithColumns: "built ops B \<Longrightarrow> cloneWithColumns cs B = Inr B' \<Longrightarrow> built ops B'"
| built_sortColumns: "built ops B \<Longrightarrow> built ops (sortColumns B)"
| built_materialize: "built ops B \<Longrightarrow> materializeBlock ops B = Inr B' \<Longrightarrow> built ops B'"
| built_clear: "built ops B \<Longrightarrow> built ops (block_clear B)"
| built_swap: "built ops A \<Longrightarrow> built ops B \<Longrightarrow> built ops (fst (block_swap (A, B)))"

lemma has_names: "index_ok B \<Longrightarrow> has B n \<longleftrightarrow> n \<in> set (names B)"
  by (simp add: has_def index_None)

lemma built_index_ok:
  assumes "built ops B"
  shows "index_ok B"
  using assms
proof (induction rule: built.induct)
  case (built_insertUnique B e)
  then show ?case by (auto simp: insertUnique_def index_None intro: index_ok_insert)
next
  case (built_erase_at B p B')
  then show ?case by (auto simp: erase_at_def intro: index_ok_erase split: if_splits)
next
  case (built_erase_name B n B')
  then show ?case by (auto simp: erase_name_def index_okD intro: index_ok_erase split: option.splits)
next
  case (built_insert_at B e p B')
  then have "el_name e \<notin> set (names B)" by (simp add: has_names)
  then show ?case by (rule index_ok_insert_at [OF built_insert_at.IH _ built_insert_at.hyps(3)])
next
  case (built_clear B)
  show ?case by (simp add: index_ok_def block_clear_def)
next
  case (built_swap A B)
  then show ?case by (simp add: index_ok_def block_swap_def)
qed (auto simp: has_names intro: index_ok_Block index_ok_insert setColumns_ok cloneEmpty_ok(1)
      cloneWithColumns_ok(1) sortColumns_ok(1) materialize_ok)

lemma getNames_names: "getNames B = names B"
proof -
  have "fold (\<lambda>e res. res @ [el_name e]) es acc = acc @ map el_name es" for es :: "('a, 'b) elem list" and acc
    by (induction es arbitrary: acc) auto
  then show ?thesis by (simp add: getNames_def)
qed

lemma getByName_iff:
  assumes "index_ok B"
  shows "getByName B n = Inr e \<longleftrightarrow> e \<in> set (blk_data B) \<and> el_name e = n"
proof
  assume "getByName B n = Inr e"
  then obtain i where "index_by_name B n = Some i" "e = blk_data B ! i"
    by (auto simp: getByName_def split: option.splits)
  then show "e \<in> set (blk_data B) \<and> el_name e = n" using index_okD [OF assms, of n i] by auto
next
  assume "e \<in> set (blk_data B) \<and> el_name e = n"
  then obtain i where "i < length (blk_data B)" "blk_data B ! i = e" "el_name e = n" by (auto simp: in_set_conv_nth)
  moreover from this have "index_by_name B n = Some i" by (simp add: index_okD [OF assms])
  ultimately show "getByName B n = Inr e" by (simp add: getByName_def)
qed

text \<open>
  (C35) In every block built by the operations of the class without inserting a name twice, the index by
  name agrees with the columns: \<open>has\<close> tells whether there is a column of the name, \<open>getByName\<close> returns
  the one column of the name, \<open>getPositionByName\<close> its position, and the names are distinct.
\<close>

theorem block_index:
  assumes "built ops B"
  shows "distinct (getNames B) \<and>
         (\<forall>n. has B n \<longleftrightarrow> n \<in> set (getNames B)) \<and>
         (\<forall>n e. getByName B n = Inr e \<longleftrightarrow> e \<in> set (blk_data B) \<and> el_name e = n) \<and>
         (\<forall>n i. getPositionByName B n = Inr i \<longleftrightarrow> i < columns B \<and> getNames B ! i = n)"
proof -
  have ok: "index_ok B" by (rule built_index_ok [OF assms])
  have "getPositionByName B n = Inr i \<longleftrightarrow> i < columns B \<and> names B ! i = n" for n i
  proof -
    have "getPositionByName B n = Inr i \<longleftrightarrow> index_by_name B n = Some i"
      by (simp add: getPositionByName_def split: option.splits)
    then show ?thesis unfolding index_okD [OF ok] columns_def .
  qed
  then show ?thesis unfolding getNames_names using index_distinct [OF ok] has_names [OF ok] getByName_iff [OF ok] by blast
qed

text \<open>A block with two columns, one inserted before the other; the column types and functions are those of lists.\<close>

definition list_ops :: "('a list, string, 'a) column_ops" where
  "list_ops = \<lparr>op_size = length, op_byteSize = length, op_allocatedBytes = length, op_cloneEmpty = (\<lambda>_. []), op_mutate = id,
     op_getName = (\<lambda>_. ''Vector''), op_dumpStructure = (\<lambda>_. ''Vector''), op_isColumnConst = (\<lambda>_. False), op_getField = hd,
     op_convertToFullColumnIfConst = (\<lambda>_. None), op_cut = (\<lambda>xs start len. take len (drop start xs)),
     op_createColumn = (\<lambda>_. []), op_equals = (=), op_typeName = id\<rparr>"

abbreviation demo_elem :: "string \<Rightarrow> (nat list, string) elem" where
  "demo_elem n \<equiv> \<lparr>el_column = Some [1, 2], el_type = Some ''T'', el_name = n\<rparr>"

theorem block_index_witness:
  "\<exists>B. insert_at 0 (demo_elem ''b'') (Block [demo_elem ''a'']) = Inr B \<and> getPositionByName B ''a'' = Inr 1 \<and>
       distinct (getNames B)"
proof -
  obtain B where ins: "insert_at 0 (demo_elem ''b'') (Block [demo_elem ''a'']) = Inr B"
    by (simp add: insert_at_def Block_def Let_def)
  have "built list_ops (Block [demo_elem ''a''])" by (rule built_new) simp
  then have "built list_ops B" by (rule built_insert_at [OF _ _ ins]) (simp add: has_def Block_def)
  note idx = block_index [OF this]
  have "columns B = 2" "getNames B ! 1 = ''a''"
    using ins by (auto simp: insert_at_def Block_def Let_def columns_def getNames_def)
  then have "getPositionByName B ''a'' = Inr 1" using idx by simp
  then show ?thesis using ins idx by blast
qed

end
