(* ===== verification/Core_Block_Diff.thy ===== *)
theory Core_Block_Diff
  imports Core_Block_Props
begin

text \<open>
  The difference of two blocks (\<^verbatim>\<open>getBlocksDifference\<close>): the table holds the lengths of the longest
  common subsequences, and the way back leaves out one of them.
\<close>

section \<open>The table\<close>

fun lcs_len :: "('a \<Rightarrow> 'b \<Rightarrow> bool) \<Rightarrow> 'a list \<Rightarrow> 'b list \<Rightarrow> nat \<Rightarrow> nat \<Rightarrow> nat" where
  "lcs_len eq xs ys 0 j = 0"
| "lcs_len eq xs ys i 0 = 0"
| "lcs_len eq xs ys (Suc i) (Suc j) =
     (if eq (xs ! i) (ys ! j) then Suc (lcs_len eq xs ys i j)
      else max (lcs_len eq xs ys i (Suc j)) (lcs_len eq xs ys (Suc i) j))"

lemma lcs_len_0 [simp]: "lcs_len eq xs ys i 0 = 0"
  by (cases i) auto

lemma lcs_row:
  assumes "\<forall>b. T i b = lcs_len eq xs ys i b \<or> n < b" "\<forall>b. T (Suc i) b = 0" "j \<le> n"
  shows "fold (lcs_cell eq xs ys (Suc i)) [1..<j + 1] T =
         (\<lambda>a b. if a = Suc i \<and> b \<le> j then lcs_len eq xs ys (Suc i) b else T a b)"
  using assms(3)
proof (induction j)
  case 0
  then show ?case using assms(2) by (auto simp: fun_eq_iff)
next
  case (Suc j)
  have row: "T i j = lcs_len eq xs ys i j" "T i (Suc j) = lcs_len eq xs ys i (Suc j)"
    using assms(1) Suc.prems by (meson Suc_leD not_less)+
  let ?R = "\<lambda>j a b. if a = Suc i \<and> b \<le> j then lcs_len eq xs ys (Suc i) b else T a b"
  have "fold (lcs_cell eq xs ys (Suc i)) [1..<Suc j + 1] T =
        lcs_cell eq xs ys (Suc i) (Suc j) (fold (lcs_cell eq xs ys (Suc i)) [1..<j + 1] T)" by simp
  also have "\<dots> = lcs_cell eq xs ys (Suc i) (Suc j) (?R j)" using Suc by simp
  also have "\<dots> = ?R (Suc j)"
  proof (intro ext)
    fix a b
    show "lcs_cell eq xs ys (Suc i) (Suc j) (?R j) a b = ?R (Suc j) a b"
      by (cases "a = Suc i"; cases "b = Suc j") (simp_all add: lcs_cell_def row le_Suc_eq)
  qed
  finally show ?case .
qed

lemma lcs_rows:
  "fold (\<lambda>i. fold (lcs_cell eq xs ys i) [1..<n + 1]) [1..<m + 1] (\<lambda>_ _. 0) =
   (\<lambda>a b. if a \<le> m \<and> b \<le> n then lcs_len eq xs ys a b else 0)"
proof (induction m)
  case 0
  then show ?case by (auto simp: fun_eq_iff)
next
  case (Suc m)
  let ?T = "\<lambda>a b. if a \<le> m \<and> b \<le> n then lcs_len eq xs ys a b else 0"
  have "fold (lcs_cell eq xs ys (Suc m)) [1..<n + 1] ?T =
         (\<lambda>a b. if a = Suc m \<and> b \<le> n then lcs_len eq xs ys (Suc m) b else ?T a b)"
    by (rule lcs_row [where n = n]) auto
  also have "\<dots> = (\<lambda>a b. if a \<le> Suc m \<and> b \<le> n then lcs_len eq xs ys a b else 0)" by (simp add: fun_eq_iff le_Suc_eq)
  finally show ?case using Suc by simp
qed

lemma lcs_table:
  assumes "i \<le> length xs" "j \<le> length ys"
  shows "lcs_table eq xs ys i j = lcs_len eq xs ys i j"
  unfolding lcs_table_def lcs_rows using assms by simp

section \<open>No common subsequence is longer\<close>

lemma subseq_snoc:
  assumes "subseq cs (us @ [x])"
  shows "subseq cs us \<or> (\<exists>cs'. cs = cs' @ [x] \<and> subseq cs' us)"
proof -
  obtain c1 c2 where c: "cs = c1 @ c2" "subseq c1 us" "subseq c2 [x]" using assms by (auto simp: subseq_append_iff)
  then have "c2 = [] \<or> c2 = [x]" by (cases c2) (auto simp: list_emb_Nil2 dest: list_emb_length split: if_splits)
  then show ?thesis using c by auto
qed

lemma subseq_butlast_snoc:
  assumes "subseq cs (us @ [x])"
  shows "subseq (butlast cs) us"
proof -
  have "subseq (butlast cs) cs" using prefixeq_butlast [of cs] by (rule prefix_imp_subseq)
  then show ?thesis using subseq_snoc [OF assms] by (auto dest: subseq_order.trans)
qed

lemma lcs_len_max:
  assumes "i \<le> length xs" "j \<le> length ys" "subseq cs (take i xs)" "subseq ds (take j ys)" "list_all2 eq cs ds"
  shows "length cs \<le> lcs_len eq xs ys i j"
  using assms
proof (induction eq xs ys i j arbitrary: cs ds rule: lcs_len.induct)
  case (3 eq xs ys i j)
  have x: "take (Suc i) xs = take i xs @ [xs ! i]" and y: "take (Suc j) ys = take j ys @ [ys ! j]"
    using 3(4,5) by (auto simp: take_Suc_conv_app_nth)
  show ?case
  proof (cases "eq (xs ! i) (ys ! j)")
    case True
    have "list_all2 eq (butlast cs) (butlast ds)"
      using 3(8) by (auto simp: list_all2_conv_all_nth nth_butlast)
    then have "length (butlast cs) \<le> lcs_len eq xs ys i j"
      using 3 True by (intro 3(1)) (auto simp: x y dest: subseq_butlast_snoc)
    then show ?thesis using True by simp
  next
    case False
    have "\<not> (\<exists>cs' ds'. cs = cs' @ [xs ! i] \<and> ds = ds' @ [ys ! j])" using 3(8) False by (auto simp: list_all2_append1 list_all2_Cons1)
    then have "subseq cs (take i xs) \<or> subseq ds (take j ys)"
      using subseq_snoc [OF 3(6) [unfolded x]] subseq_snoc [OF 3(7) [unfolded y]] by blast
    then have "length cs \<le> lcs_len eq xs ys i (Suc j) \<or> length cs \<le> lcs_len eq xs ys (Suc i) j"
      using 3(2) [OF False _ _ _ 3(7,8)] 3(3) [OF False _ _ 3(6) _ 3(8)] 3(4,5) by auto
    then show ?thesis using False by auto
  qed
qed (auto dest!: list_emb_Nil2)

section \<open>The way back\<close>

lemma shuffles_snoc1:
  "zs \<in> shuffles xs ys \<Longrightarrow> zs @ [z] \<in> shuffles (xs @ [z]) ys"
proof (induction zs arbitrary: xs ys)
  case Nil
  then show ?case by simp
next
  case (Cons a zs)
  consider xs' where "xs = a # xs'" "zs \<in> shuffles xs' ys" | ys' where "ys = a # ys'" "zs \<in> shuffles xs ys'"
    using Cons.prems unfolding Cons_in_shuffles_iff by (metis list.collapse)
  then show ?case
    by cases (auto intro: Cons_in_shuffles_leftI Cons_in_shuffles_rightI Cons.IH)
qed

lemma shuffles_snoc2: "zs \<in> shuffles xs ys \<Longrightarrow> zs @ [z] \<in> shuffles xs (ys @ [z])"
  using shuffles_snoc1 [of zs ys xs z] by (simp add: shuffles_commutes [of xs])

lemma diff_rest: "l \<le> length xs \<Longrightarrow> diff_rest xs l left = left @ rev (take l xs)"
  by (induction l arbitrary: left) (auto simp: take_Suc_conv_app_nth)

definition split_off :: "('a \<Rightarrow> 'b \<Rightarrow> bool) \<Rightarrow> 'a list \<Rightarrow> 'b list \<Rightarrow> nat \<Rightarrow> 'a list \<Rightarrow> 'b list \<Rightarrow> bool" where
  "split_off eq xs ys n la rb \<longleftrightarrow>
     (\<exists>cs ds. xs \<in> shuffles cs la \<and> ys \<in> shuffles ds rb \<and> list_all2 eq cs ds \<and> length cs = n)"

lemma split_off_match:
  assumes "split_off eq xs ys n la rb" "eq x y"
  shows "split_off eq (xs @ [x]) (ys @ [y]) (Suc n) la rb"
proof -
  obtain cs ds where "xs \<in> shuffles cs la" "ys \<in> shuffles ds rb" "list_all2 eq cs ds" "length cs = n"
    using assms(1) unfolding split_off_def by blast
  then have "xs @ [x] \<in> shuffles (cs @ [x]) la \<and> ys @ [y] \<in> shuffles (ds @ [y]) rb \<and> list_all2 eq (cs @ [x]) (ds @ [y]) \<and>
        length (cs @ [x]) = Suc n"
    using assms(2) by (simp add: shuffles_snoc1 list_all2_appendI)
  then show ?thesis unfolding split_off_def by blast
qed

lemma split_off_left: "split_off eq xs ys n la rb \<Longrightarrow> split_off eq (xs @ [x]) ys n (la @ [x]) rb"
  unfolding split_off_def by (blast intro: shuffles_snoc2)

lemma split_off_right: "split_off eq xs ys n la rb \<Longrightarrow> split_off eq xs (ys @ [y]) n la (rb @ [y])"
  unfolding split_off_def by (blast intro: shuffles_snoc2)

text \<open>What the loops leave of the first \<open>l\<close> and \<open>r\<close> columns.\<close>

lemma diff_loop_split:
  assumes "l \<le> length xs" "r \<le> length ys"
  shows "\<exists>la rb. split_off eq (take l xs) (take r ys) (lcs_len eq xs ys l r) la rb \<and>
           (let (l', r', A, B) = diff_loop eq xs ys (lcs_table eq xs ys) l r left right
            in diff_rest xs l' A = left @ rev la \<and> diff_rest ys r' B = right @ rev rb)"
  using assms
proof (induction "l + r" arbitrary: l r left right rule: less_induct)
  case less
  note step = diff_loop.simps [of eq xs ys "lcs_table eq xs ys" l r left right]
  consider "l = 0 \<or> r = 0" | i j where "l = Suc i" "r = Suc j" by (cases l; cases r) auto
  then show ?case
  proof cases
    case 1
    then have "split_off eq (take l xs) (take r ys) (lcs_len eq xs ys l r) (take l xs) (take r ys)"
      unfolding split_off_def by (intro exI [of _ "[]"]) auto
    then show ?thesis using 1 less.prems step by (intro exI [of _ "take l xs"] exI [of _ "take r ys"]) (auto simp: diff_rest)
  next
    case 2
    have x: "take l xs = take i xs @ [xs ! i]" and y: "take r ys = take j ys @ [ys ! j]"
      using less.prems 2 by (auto simp: take_Suc_conv_app_nth)
    have i: "i \<le> length xs" and j: "j \<le> length ys" using less.prems 2 by auto
    note table = lcs_table [OF less.prems(1) j, of eq] lcs_table [OF i less.prems(2), of eq]
    show ?thesis
    proof (cases "eq (xs ! i) (ys ! j)")
      case True
      obtain la rb where "split_off eq (take i xs) (take j ys) (lcs_len eq xs ys i j) la rb"
        "let (l', r', A, B) = diff_loop eq xs ys (lcs_table eq xs ys) i j left right
         in diff_rest xs l' A = left @ rev la \<and> diff_rest ys r' B = right @ rev rb"
        using less.hyps [of i j left right] i j 2 by auto
      then show ?thesis using True 2 step x y split_off_match [of eq _ _ _ _ _ "xs ! i" "ys ! j"]
        by (intro exI [of _ la] exI [of _ rb]) auto
    next
      case ne: False
      show ?thesis
      proof (cases "lcs_len eq xs ys l j \<ge> lcs_len eq xs ys i r")
        case True
        obtain la rb where "split_off eq (take l xs) (take j ys) (lcs_len eq xs ys l j) la rb"
          "let (l', r', A, B) = diff_loop eq xs ys (lcs_table eq xs ys) l j left (right @ [ys ! j])
           in diff_rest xs l' A = left @ rev la \<and> diff_rest ys r' B = (right @ [ys ! j]) @ rev rb"
          using less.hyps [of l j left "right @ [ys ! j]"] less.prems j 2 by auto
        then show ?thesis using True ne 2 step y table split_off_right [of eq "take l xs" "take j ys" _ la rb "ys ! j"]
          by (intro exI [of _ la] exI [of _ "rb @ [ys ! j]"]) (auto simp: max_def)
      next
        case False
        obtain la rb where "split_off eq (take i xs) (take r ys) (lcs_len eq xs ys i r) la rb"
          "let (l', r', A, B) = diff_loop eq xs ys (lcs_table eq xs ys) i r (left @ [xs ! i]) right
           in diff_rest xs l' A = (left @ [xs ! i]) @ rev la \<and> diff_rest ys r' B = right @ rev rb"
          using less.hyps [of i r "left @ [xs ! i]" right] less.prems i 2 by auto
        then show ?thesis using False ne 2 step x table split_off_left [of eq "take i xs" "take r ys" _ la rb "xs ! i"]
          by (intro exI [of _ "la @ [xs ! i]"] exI [of _ rb]) (auto simp: max_def)
      qed
    qed
  qed
qed

lemma diff_columns_split:
  obtains la rb where "diff_columns eq xs ys = (rev la, rev rb)"
    "split_off eq xs ys (lcs_len eq xs ys (length xs) (length ys)) la rb"
  using diff_loop_split [of "length xs" xs "length ys" ys eq "[]" "[]"] by (auto simp: diff_columns_def Let_def case_prod_beta)

section \<open>The difference of two blocks\<close>

text \<open>The line that describes a column of a block.\<close>

definition describe :: "(nat \<Rightarrow> string) \<Rightarrow> ('c, 't, 'f) column_ops \<Rightarrow> ('c, 't) column_block \<Rightarrow> ('c, 't) elem \<Rightarrow> string" where
  "describe toString ops B e =
     elem_dumpStructure ops e @ '', position: '' @ toString (the (index_by_name B (el_name e))) @ [CHR 0x0A]"

lemma describe_nonempty: "describe toString ops B e \<noteq> []"
  by (simp add: describe_def)

lemma map_results_map: "\<forall>x\<in>set xs. f x = Inr (g x) \<Longrightarrow> map_results f xs = Inr (map g xs)"
  by (induction xs) auto

lemma diff_lines:
  assumes "index_ok B" "set es \<subseteq> set (blk_data B)"
  shows "map_results (diff_line toString ops B) es = Inr (map (describe toString ops B) es)"
proof (rule map_results_map, rule ballI)
  fix e assume "e \<in> set es"
  then have "el_name e \<in> set (names B)" using assms(2) by auto
  then obtain i where "index_by_name B (el_name e) = Some i" using index_None [OF assms(1), of "el_name e"] by fastforce
  then show "diff_line toString ops B e = Inr (describe toString ops B e)"
    by (simp add: diff_line_def describe_def getPositionByName_def)
qed

lemma difference_split:
  assumes "index_ok lhs" "index_ok rhs"
  obtains left right cs ds where
    "getBlocksDifference toString ops lhs rhs =
       Inr (concat (map (describe toString ops lhs) left), concat (map (describe toString ops rhs) right))"
    "blk_data lhs \<in> shuffles cs left" "blk_data rhs \<in> shuffles ds right" "list_all2 (elem_eq ops) cs ds"
    "length cs = lcs_len (elem_eq ops) (blk_data lhs) (blk_data rhs) (length (blk_data lhs)) (length (blk_data rhs))"
proof -
  obtain la rb where d: "diff_columns (elem_eq ops) (blk_data lhs) (blk_data rhs) = (rev la, rev rb)"
    and sp: "split_off (elem_eq ops) (blk_data lhs) (blk_data rhs)
      (lcs_len (elem_eq ops) (blk_data lhs) (blk_data rhs) (length (blk_data lhs)) (length (blk_data rhs))) la rb"
    by (rule diff_columns_split)
  then obtain cs ds where sh: "blk_data lhs \<in> shuffles cs la" "blk_data rhs \<in> shuffles ds rb" "list_all2 (elem_eq ops) cs ds"
      "length cs = lcs_len (elem_eq ops) (blk_data lhs) (blk_data rhs) (length (blk_data lhs)) (length (blk_data rhs))"
    unfolding split_off_def by blast
  have "set la \<subseteq> set (blk_data lhs)" "set rb \<subseteq> set (blk_data rhs)" using set_shuffles sh(1,2) by auto
  then have "getBlocksDifference toString ops lhs rhs =
       Inr (concat (map (describe toString ops lhs) la), concat (map (describe toString ops rhs) rb))"
    using diff_lines [OF assms(1), of la toString ops] diff_lines [OF assms(2), of rb toString ops] by (simp add: getBlocksDifference_def d)
  then show thesis using sh by (rule that)
qed

text \<open>
  (C36) The difference of two blocks describes, in order and with their positions, exactly the columns
  outside a longest common subsequence: both blocks are interleavings of the described columns with
  columns that are equal one by one, and no other common subsequence is longer.
\<close>

theorem blocks_difference:
  assumes "built ops lhs" "built ops rhs"
  shows "\<exists>left right cs ds.
      getBlocksDifference toString ops lhs rhs =
        Inr (concat (map (describe toString ops lhs) left), concat (map (describe toString ops rhs) right)) \<and>
      blk_data lhs \<in> shuffles cs left \<and> blk_data rhs \<in> shuffles ds right \<and> list_all2 (elem_eq ops) cs ds \<and>
      (\<forall>cs' ds'. subseq cs' (blk_data lhs) \<and> subseq ds' (blk_data rhs) \<and> list_all2 (elem_eq ops) cs' ds' \<longrightarrow>
         length cs' \<le> length cs)"
proof -
  obtain left right cs ds where r: "getBlocksDifference toString ops lhs rhs =
        Inr (concat (map (describe toString ops lhs) left), concat (map (describe toString ops rhs) right))"
      "blk_data lhs \<in> shuffles cs left" "blk_data rhs \<in> shuffles ds right" "list_all2 (elem_eq ops) cs ds"
      "length cs = lcs_len (elem_eq ops) (blk_data lhs) (blk_data rhs) (length (blk_data lhs)) (length (blk_data rhs))"
    by (rule difference_split [OF built_index_ok [OF assms(1)] built_index_ok [OF assms(2)]])
  have "\<forall>cs' ds'. subseq cs' (blk_data lhs) \<and> subseq ds' (blk_data rhs) \<and> list_all2 (elem_eq ops) cs' ds' \<longrightarrow>
         length cs' \<le> length cs"
    using lcs_len_max [of "length (blk_data lhs)" "blk_data lhs" "length (blk_data rhs)" "blk_data rhs"] r(5) by auto
  then show ?thesis using r(1-4) by blast
qed

abbreviation demo_block_ab :: "(nat list, string) column_block" where
  "demo_block_ab \<equiv> Block [demo_elem ''a'', demo_elem ''b'']"

abbreviation demo_block_bc :: "(nat list, string) column_block" where
  "demo_block_bc \<equiv> Block [demo_elem ''b'', demo_elem ''c'']"

theorem blocks_difference_witness:
  "built list_ops demo_block_ab \<and> built list_ops demo_block_bc \<and>
   (\<exists>left right cs ds. blk_data demo_block_ab \<in> shuffles cs left \<and> blk_data demo_block_bc \<in> shuffles ds right \<and>
      list_all2 (elem_eq list_ops) cs ds \<and>
      getBlocksDifference (\<lambda>_. ''0'') list_ops demo_block_ab demo_block_bc =
        Inr (concat (map (describe (\<lambda>_. ''0'') list_ops demo_block_ab) left),
             concat (map (describe (\<lambda>_. ''0'') list_ops demo_block_bc) right)))"
proof -
  have b: "built list_ops demo_block_ab" "built list_ops demo_block_bc" by (rule built_new, simp)+
  show ?thesis using b blocks_difference [OF b, of "\<lambda>_. ''0''"] by blast
qed

section \<open>Equal structure\<close>

definition no_null :: "('c, 't) column_block \<Rightarrow> bool" where
  "no_null B \<longleftrightarrow> list_all (\<lambda>e. el_type e \<noteq> None \<and> el_column e \<noteq> None) (blk_data B)"

definition same_constant :: "('c, 't, 'f) column_ops \<Rightarrow> ('c, 't) elem \<Rightarrow> ('c, 't) elem \<Rightarrow> bool" where
  "same_constant ops a e \<longleftrightarrow>
     \<not> (op_isColumnConst ops (the (el_column a)) \<and> op_isColumnConst ops (the (el_column e)) \<and>
        op_getField ops (the (el_column a)) \<noteq> op_getField ops (the (el_column e)))"

lemma check_elem_iff:
  assumes "el_type a \<noteq> None" "el_column a \<noteq> None" "el_type e \<noteq> None" "el_column e \<noteq> None"
  shows "check_elem ops a e = Inr () \<longleftrightarrow> elem_eq ops a e \<and> same_constant ops a e"
  using assms by (auto simp: check_elem_def elem_eq_def same_constant_def split: if_splits)

lemma check_elems_iff:
  assumes "length as = length es" "list_all (\<lambda>e. el_type e \<noteq> None \<and> el_column e \<noteq> None) as"
    "list_all (\<lambda>e. el_type e \<noteq> None \<and> el_column e \<noteq> None) es"
  shows "check_elems ops as es = Inr () \<longleftrightarrow> list_all2 (elem_eq ops) as es \<and> list_all2 (same_constant ops) as es"
  using assms
proof (induction as es rule: list_induct2)
  case (Cons a as e es)
  have "check_elem ops a e = Inr () \<longleftrightarrow> elem_eq ops a e \<and> same_constant ops a e"
    by (rule check_elem_iff) (use Cons.prems in auto)
  then show ?case using Cons by (cases "check_elem ops a e") auto
qed simp

lemma equal_structure_iff:
  assumes "no_null lhs" "no_null rhs"
  shows "blocksHaveEqualStructure ops lhs rhs \<longleftrightarrow>
         list_all2 (elem_eq ops) (blk_data lhs) (blk_data rhs) \<and> list_all2 (same_constant ops) (blk_data lhs) (blk_data rhs)"
proof (cases "length (blk_data lhs) = length (blk_data rhs)")
  case True
  have "blocksHaveEqualStructure ops lhs rhs \<longleftrightarrow> check_elems ops (blk_data lhs) (blk_data rhs) = Inr ()"
    using True by (auto simp: blocksHaveEqualStructure_def checkBlockStructure_def columns_def split: sum.splits)
  then show ?thesis using check_elems_iff [OF True] assms by (simp add: no_null_def)
next
  case False
  then show ?thesis
    by (auto simp: blocksHaveEqualStructure_def checkBlockStructure_def columns_def dest: list_all2_lengthD)
qed

lemma difference_empty:
  assumes "index_ok lhs" "index_ok rhs"
  shows "getBlocksDifference toString ops lhs rhs = Inr ([], []) \<longleftrightarrow> list_all2 (elem_eq ops) (blk_data lhs) (blk_data rhs)"
proof -
  obtain left right cs ds where r: "getBlocksDifference toString ops lhs rhs =
        Inr (concat (map (describe toString ops lhs) left), concat (map (describe toString ops rhs) right))"
      and sh: "blk_data lhs \<in> shuffles cs left" "blk_data rhs \<in> shuffles ds right" and eq: "list_all2 (elem_eq ops) cs ds"
      and len: "length cs = lcs_len (elem_eq ops) (blk_data lhs) (blk_data rhs) (length (blk_data lhs)) (length (blk_data rhs))"
    by (rule difference_split [OF assms])
  have "concat (map (describe toString ops B) es) = [] \<longleftrightarrow> es = []" for B es
    by (cases es) (auto simp: describe_nonempty)
  then have "getBlocksDifference toString ops lhs rhs = Inr ([], []) \<longleftrightarrow> left = [] \<and> right = []"
    using r by auto
  also have "\<dots> \<longleftrightarrow> list_all2 (elem_eq ops) (blk_data lhs) (blk_data rhs)"
  proof
    assume "left = [] \<and> right = []"
    then show "list_all2 (elem_eq ops) (blk_data lhs) (blk_data rhs)"
      using sh eq by (simp add: shuffles_commutes [of _ "[]"])
  next
    assume all: "list_all2 (elem_eq ops) (blk_data lhs) (blk_data rhs)"
    have "length (blk_data lhs) \<le> length cs"
      using lcs_len_max [OF order_refl order_refl _ _ all] len by simp
    then show "left = [] \<and> right = []"
      using length_shuffles [OF sh(1)] length_shuffles [OF sh(2)] list_all2_lengthD [OF eq] list_all2_lengthD [OF all] by simp
  qed
  finally show ?thesis .
qed

text \<open>
  Two blocks without null pointers have equal structure exactly when their difference is empty and
  constant columns at the same position have the same value, which the difference does not compare.
\<close>

lemma equal_structure_difference:
  assumes "built ops lhs" "built ops rhs" "no_null lhs" "no_null rhs"
  shows "blocksHaveEqualStructure ops lhs rhs \<longleftrightarrow>
         getBlocksDifference toString ops lhs rhs = Inr ([], []) \<and>
         list_all2 (same_constant ops) (blk_data lhs) (blk_data rhs)"
  using equal_structure_iff [OF assms(3,4), of ops]
    difference_empty [OF built_index_ok [OF assms(1)] built_index_ok [OF assms(2)], of toString ops] by simp

end
