(* ===== verification/Column_String.thy ===== *)
theory Column_String
  imports Prelude
begin

text \<open>
  Columns of strings (\<^verbatim>\<open>Columns/ColumnString\<close>) and the filtering of arrays that they share with other columns
  (\<^verbatim>\<open>Columns/ColumnsCommon.cpp\<close>).  A column has the bytes of all strings, each with a terminating zero, and for
  every string the offset of its end.  Offsets are sizes of arrays in memory, so their sums do not wrap.
\<close>

type_synonym bytes = "8 word list"

datatype column_err = ParameterOutOfBound | SizesOfColumnsDoesntMatch | AccessOutOfRange | NotImplemented

section \<open>Filtering arrays\<close>

text \<open>
  The elements and offsets of the result and the last offset.  \<open>insertOne\<close> and \<open>insertChunk\<close> are the methods
  of \<^verbatim>\<open>ResultOffsetsBuilder\<close>.
\<close>

record 'a filter_state =
  fs_elems :: "'a list"
  fs_offsets :: "nat list"
  fs_current :: nat

definition insertOne :: "nat \<Rightarrow> 'a filter_state \<Rightarrow> 'a filter_state" where
  "insertOne array_size st =
     st\<lparr>fs_current := fs_current st + array_size,
        fs_offsets := fs_offsets st @ [fs_current st + array_size]\<rparr>"

definition insertChunk :: "nat list \<Rightarrow> bool \<Rightarrow> nat \<Rightarrow> nat \<Rightarrow> 'a filter_state \<Rightarrow> 'a filter_state" where
  "insertChunk src_offsets first chunk_offset chunk_size st =
     (let diff_offset = chunk_offset - fs_current st
      in st\<lparr>fs_offsets := fs_offsets st @
              (if \<not> first \<and> diff_offset > 0 then map (\<lambda>x. x - diff_offset) src_offsets else src_offsets),
            fs_current := fs_current st + chunk_size\<rparr>)"

definition copy_array :: "'a list \<Rightarrow> nat list \<Rightarrow> nat \<Rightarrow> 'a filter_state \<Rightarrow> 'a filter_state" where
  "copy_array src_elems src_offsets i st =
     (let offset = (if i = 0 then 0 else src_offsets ! (i - 1));
          size = src_offsets ! i - offset;
          st = insertOne size st
      in st\<lparr>fs_elems := fs_elems st @ take size (drop offset src_elems)\<rparr>)"

text \<open>The comparison with zero as signed bytes that makes the mask of 16 rows: bytes from 128 are negative.\<close>

definition cmpgt_zero :: "8 word \<Rightarrow> bool" where
  "cmpgt_zero b \<longleftrightarrow> 0 < unat b \<and> unat b < 128"

definition filter_chunk :: "'a list \<Rightarrow> nat list \<Rightarrow> bytes \<Rightarrow> nat \<Rightarrow> 'a filter_state \<Rightarrow> 'a filter_state" where
  "filter_chunk src_elems src_offsets filt k st =
     (let pos = 16 * k; mask = map cmpgt_zero (take 16 (drop pos filt))
      in if \<not> list_ex (\<lambda>b. b) mask then st
         else if list_all (\<lambda>b. b) mask then
           (let first = (pos = 0);
                chunk_offset = (if first then 0 else src_offsets ! (pos - 1));
                chunk_size = src_offsets ! (pos + 15) - chunk_offset;
                st = insertChunk (take 16 (drop pos src_offsets)) first chunk_offset chunk_size st
            in st\<lparr>fs_elems := fs_elems st @ take chunk_size (drop chunk_offset src_elems)\<rparr>)
         else fold (\<lambda>i st. if filt ! (pos + i) \<noteq> 0 then copy_array src_elems src_offsets (pos + i) st else st) [0..<16] st)"

definition filter_tail :: "'a list \<Rightarrow> nat list \<Rightarrow> bytes \<Rightarrow> nat \<Rightarrow> 'a filter_state \<Rightarrow> 'a filter_state" where
  "filter_tail src_elems src_offsets filt i st =
     (if filt ! i \<noteq> 0 then copy_array src_elems src_offsets i st else st)"

definition filterArraysImpl :: "'a list \<Rightarrow> nat list \<Rightarrow> bytes \<Rightarrow> column_err + 'a list \<times> nat list" where
  "filterArraysImpl src_elems src_offsets filt =
     (let size = length src_offsets
      in if size \<noteq> length filt then Inl SizesOfColumnsDoesntMatch
         else
           (let st = \<lparr>fs_elems = [], fs_offsets = [], fs_current = 0\<rparr>;
                st = fold (filter_chunk src_elems src_offsets filt) [0..<size div 16] st;
                st = fold (filter_tail src_elems src_offsets filt) [size div 16 * 16..<size] st
            in Inr (fs_elems st, fs_offsets st)))"

section \<open>The column\<close>

record column_string =
  str_chars :: bytes
  str_offsets :: "nat list"

definition ColumnString_create :: column_string where
  "ColumnString_create = \<lparr>str_chars = [], str_offsets = []\<rparr>"

definition str_size :: "column_string \<Rightarrow> nat" where
  "str_size c = length (str_offsets c)"

definition str_byteSize :: "column_string \<Rightarrow> nat" where
  "str_byteSize c = length (str_chars c) + length (str_offsets c) * 8"

definition offsetAt :: "column_string \<Rightarrow> nat \<Rightarrow> nat" where
  "offsetAt c i = (if i = 0 then 0 else str_offsets c ! (i - 1))"

definition sizeAt :: "column_string \<Rightarrow> nat \<Rightarrow> nat" where
  "sizeAt c i = (if i = 0 then str_offsets c ! 0 else str_offsets c ! i - str_offsets c ! (i - 1))"

definition getDataAt :: "column_string \<Rightarrow> nat \<Rightarrow> bytes" where
  "getDataAt c n = take (sizeAt c n - 1) (drop (offsetAt c n) (str_chars c))"

definition getDataAtWithTerminatingZero :: "column_string \<Rightarrow> nat \<Rightarrow> bytes" where
  "getDataAtWithTerminatingZero c n = take (sizeAt c n) (drop (offsetAt c n) (str_chars c))"

text \<open>The string \<open>s\<close> of a field; \<^verbatim>\<open>c_str\<close> ends with a zero byte.\<close>

definition str_insert :: "bytes \<Rightarrow> column_string \<Rightarrow> column_string" where
  "str_insert s c =
     (let old_size = length (str_chars c); size_to_append = length s + 1; new_size = old_size + size_to_append
      in c\<lparr>str_chars := str_chars c @ take size_to_append (s @ [0]), str_offsets := str_offsets c @ [new_size]\<rparr>)"

definition str_insertFrom :: "column_string \<Rightarrow> nat \<Rightarrow> column_string \<Rightarrow> column_string" where
  "str_insertFrom src n c =
     (if n \<noteq> 0 then
        (let size_to_append = str_offsets src ! n - str_offsets src ! (n - 1)
         in if size_to_append = 1 then
              (let chars = str_chars c @ [0]
               in c\<lparr>str_chars := chars, str_offsets := str_offsets c @ [length chars]\<rparr>)
            else
              (let old_size = length (str_chars c); offset = str_offsets src ! (n - 1);
                   new_size = old_size + size_to_append
               in c\<lparr>str_chars := str_chars c @ take size_to_append (drop offset (str_chars src)),
                    str_offsets := str_offsets c @ [new_size]\<rparr>))
      else
        (let old_size = length (str_chars c); size_to_append = str_offsets src ! 0;
             new_size = old_size + size_to_append
         in c\<lparr>str_chars := str_chars c @ take size_to_append (str_chars src),
              str_offsets := str_offsets c @ [new_size]\<rparr>))"

definition insertData :: "bytes \<Rightarrow> column_string \<Rightarrow> column_string" where
  "insertData s c =
     (let old_size = length (str_chars c); new_size = old_size + length s + 1
      in c\<lparr>str_chars := str_chars c @ s @ [0], str_offsets := str_offsets c @ [new_size]\<rparr>)"

definition insertDataWithTerminatingZero :: "bytes \<Rightarrow> column_string \<Rightarrow> column_string" where
  "insertDataWithTerminatingZero s c =
     (let old_size = length (str_chars c); new_size = old_size + length s
      in c\<lparr>str_chars := str_chars c @ s, str_offsets := str_offsets c @ [new_size]\<rparr>)"

definition str_popBack :: "nat \<Rightarrow> column_string \<Rightarrow> column_string" where
  "str_popBack n c =
     (let nested_n = last (str_offsets c) - offsetAt c (length (str_offsets c) - n)
      in c\<lparr>str_chars := take (length (str_chars c) - nested_n) (str_chars c),
           str_offsets := take (length (str_offsets c) - n) (str_offsets c)\<rparr>)"

text \<open>A size of eight bytes, little-endian.\<close>

definition le64 :: "nat \<Rightarrow> bytes" where
  "le64 n = map (\<lambda>k. word_of_nat (n div 256 ^ k)) [0..<8]"

fun of_le :: "bytes \<Rightarrow> nat" where
  "of_le [] = 0"
| "of_le (b # bs) = unat b + 256 * of_le bs"

definition serializeValueIntoArena :: "column_string \<Rightarrow> nat \<Rightarrow> bytes" where
  "serializeValueIntoArena c n =
     (let string_size = sizeAt c n; offset = offsetAt c n
      in le64 string_size @ take string_size (drop offset (str_chars c)))"

text \<open>The column and the bytes after the read data.\<close>

definition deserializeAndInsertFromArena :: "bytes \<Rightarrow> column_string \<Rightarrow> column_string \<times> bytes" where
  "deserializeAndInsertFromArena pos c =
     (let string_size = of_le (take 8 pos); pos = drop 8 pos;
          old_size = length (str_chars c); new_size = old_size + string_size
      in (c\<lparr>str_chars := str_chars c @ take string_size pos, str_offsets := str_offsets c @ [new_size]\<rparr>, drop string_size pos))"

definition str_updateHashWithValue :: "('h \<Rightarrow> bytes \<Rightarrow> 'h) \<Rightarrow> column_string \<Rightarrow> nat \<Rightarrow> 'h \<Rightarrow> 'h" where
  "str_updateHashWithValue update c n hash =
     (let string_size = sizeAt c n; offset = offsetAt c n;
          hash = update hash (le64 string_size)
      in update hash (take string_size (drop offset (str_chars c))))"

definition str_insertDefault :: "column_string \<Rightarrow> column_string" where
  "str_insertDefault c =
     c\<lparr>str_chars := str_chars c @ [0],
       str_offsets := str_offsets c @ [if length (str_offsets c) = 0 then 1 else last (str_offsets c) + 1]\<rparr>"

definition str_cloneResized :: "nat \<Rightarrow> column_string \<Rightarrow> column_string" where
  "str_cloneResized to_size c =
     (let from_size = str_size c
      in if to_size = 0 then ColumnString_create
         else if to_size \<le> from_size then
           \<lparr>str_chars = take (str_offsets c ! (to_size - 1)) (str_chars c), str_offsets = take to_size (str_offsets c)\<rparr>
         else
           (let res = (if from_size > 0 then c else ColumnString_create);
                offset = (if from_size > 0 then last (str_offsets c) else 0)
            in \<lparr>str_chars = str_chars res @ replicate (to_size - from_size) 0,
                str_offsets = str_offsets res @ map (\<lambda>i. offset + (i - from_size) + 1) [from_size..<to_size]\<rparr>))"

definition str_insertRangeFrom ::
  "column_string \<Rightarrow> size_t \<Rightarrow> size_t \<Rightarrow> column_string \<Rightarrow> column_err + column_string" where
  "str_insertRangeFrom src start len c =
     (if len = 0 then Inr c
      else if add64 start len > length (str_offsets src) then Inl ParameterOutOfBound
      else if start + len > length (str_offsets src) then Inl AccessOutOfRange
      else
        (let nested_offset = offsetAt src start;
             nested_length = str_offsets src ! (start + len - 1) - nested_offset;
             chars = str_chars c @ take nested_length (drop nested_offset (str_chars src))
         in if start = 0 \<and> str_offsets c = [] then
              Inr \<lparr>str_chars = chars, str_offsets = take len (str_offsets src)\<rparr>
            else
              (let prev_max_offset = (if str_offsets c \<noteq> [] then last (str_offsets c) else 0)
               in Inr \<lparr>str_chars = chars,
                       str_offsets = str_offsets c @
                         map (\<lambda>i. str_offsets src ! (start + i) - nested_offset + prev_max_offset) [0..<len]\<rparr>)))"

definition str_cut :: "size_t \<Rightarrow> size_t \<Rightarrow> column_string \<Rightarrow> column_err + column_string" where
  "str_cut start len c = str_insertRangeFrom c start len (str_cloneResized 0 c)"

definition str_filter :: "bytes \<Rightarrow> column_string \<Rightarrow> column_err + column_string" where
  "str_filter filt c =
     (if length (str_offsets c) = 0 then Inr ColumnString_create
      else case filterArraysImpl (str_chars c) (str_offsets c) filt of
             Inl e \<Rightarrow> Inl e
           | Inr (chars, offsets) \<Rightarrow> Inr \<lparr>str_chars = chars, str_offsets = offsets\<rparr>)"

text \<open>\<open>raw n\<close> are the bytes of a new array of size \<open>n\<close>, which the loop overwrites from the start.\<close>

definition str_permute :: "(nat \<Rightarrow> bytes) \<Rightarrow> nat list \<Rightarrow> nat \<Rightarrow> column_string \<Rightarrow> column_err + column_string" where
  "str_permute raw perm limit c =
     (let size = length (str_offsets c); limit = (if limit = 0 then size else min size limit)
      in if length perm < limit then Inl SizesOfColumnsDoesntMatch
         else if limit = 0 then Inr ColumnString_create
         else if list_ex (\<lambda>j. j \<ge> size) (take limit perm) then Inl AccessOutOfRange
         else
           (let new_chars_size = (if limit = size then length (str_chars c) else sum_list (map (sizeAt c) (take limit perm)));
                (chars, offsets, current_new_offset) =
                  fold (\<lambda>j (chars, offsets, current_new_offset).
                      (let string_offset = (if j = 0 then 0 else str_offsets c ! (j - 1));
                           string_size = str_offsets c ! j - string_offset
                       in (chars @ take string_size (drop string_offset (str_chars c)),
                           offsets @ [current_new_offset + string_size], current_new_offset + string_size)))
                    (take limit perm) ([], [], 0)
            in if current_new_offset > new_chars_size then Inl AccessOutOfRange
               else Inr \<lparr>str_chars = chars @ drop current_new_offset (raw new_chars_size), str_offsets = offsets\<rparr>))"

fun memcmp :: "bytes \<Rightarrow> bytes \<Rightarrow> int" where
  "memcmp (a # as) (b # bs) = (if a = b then memcmp as bs else if a < b then -1 else 1)"
| "memcmp as bs = 0"

definition str_less :: "bool \<Rightarrow> column_string \<Rightarrow> nat \<Rightarrow> nat \<Rightarrow> bool" where
  "str_less positive parent lhs rhs =
     (let left_len = sizeAt parent lhs; right_len = sizeAt parent rhs;
          res = memcmp (take (min left_len right_len) (drop (offsetAt parent lhs) (str_chars parent)))
                       (take (min left_len right_len) (drop (offsetAt parent rhs) (str_chars parent)))
      in if res \<noteq> 0 then (if positive then res < 0 else res > 0)
         else (if positive then left_len < right_len else left_len > right_len))"

text \<open>\<^verbatim>\<open>std::sort\<close> and \<^verbatim>\<open>std::partial_sort\<close> are given.\<close>

definition str_getPermutation ::
  "((nat \<Rightarrow> nat \<Rightarrow> bool) \<Rightarrow> nat list \<Rightarrow> nat list) \<Rightarrow> ((nat \<Rightarrow> nat \<Rightarrow> bool) \<Rightarrow> nat \<Rightarrow> nat list \<Rightarrow> nat list) \<Rightarrow>
   bool \<Rightarrow> nat \<Rightarrow> column_string \<Rightarrow> nat list" where
  "str_getPermutation sort_by partial_sort reverse limit c =
     (let s = length (str_offsets c); res = [0..<s]; limit = (if limit \<ge> s then 0 else limit)
      in if limit \<noteq> 0
         then (if reverse then partial_sort (str_less False c) limit res else partial_sort (str_less True c) limit res)
         else (if reverse then sort_by (str_less False c) res else sort_by (str_less True c) res))"

definition compareAt :: "column_string \<Rightarrow> nat \<Rightarrow> nat \<Rightarrow> column_string \<Rightarrow> int" where
  "compareAt c n m rhs =
     (let size = sizeAt c n; rhs_size = sizeAt rhs m;
          cmp = memcmp (take (min size rhs_size) (drop (offsetAt c n) (str_chars c)))
                       (take (min size rhs_size) (drop (offsetAt rhs m) (str_chars rhs)))
      in if cmp \<noteq> 0 then cmp else if size > rhs_size then 1 else if size < rhs_size then -1 else 0)"

text \<open>The loops of \<open>replicate\<close>: one copy of a string, and the loop over the strings.\<close>

definition replicate_one :: "bytes \<Rightarrow> nat \<Rightarrow> nat \<times> bytes \<times> nat list \<Rightarrow> nat \<times> bytes \<times> nat list" where
  "replicate_one str string_size = (\<lambda>(current_new_offset, res_chars, res_offsets).
     (current_new_offset + string_size, res_chars @ str, res_offsets @ [current_new_offset + string_size]))"

fun replicate_loop :: "bytes \<Rightarrow> nat \<Rightarrow> nat \<Rightarrow> (nat \<times> nat) list \<Rightarrow> nat \<times> bytes \<times> nat list \<Rightarrow> nat \<times> bytes \<times> nat list" where
  "replicate_loop chars prev_replicate_offset prev_string_offset [] st = st"
| "replicate_loop chars prev_replicate_offset prev_string_offset ((replicate_offset, offset) # xs) st =
     (let size_to_replicate = replicate_offset - prev_replicate_offset;
          string_size = offset - prev_string_offset;
          str = take string_size (drop prev_string_offset chars)
      in replicate_loop chars replicate_offset offset xs ((replicate_one str string_size ^^ size_to_replicate) st))"

definition str_replicate :: "nat list \<Rightarrow> column_string \<Rightarrow> column_err + column_string" where
  "str_replicate replicate_offsets c =
     (if str_size c \<noteq> length replicate_offsets then Inl SizesOfColumnsDoesntMatch
      else if str_size c = 0 then Inr ColumnString_create
      else
        (let (current_new_offset, chars, offsets) =
               replicate_loop (str_chars c) 0 0 (zip replicate_offsets (str_offsets c)) (0, [], [])
         in Inr \<lparr>str_chars = chars, str_offsets = offsets\<rparr>))"

definition str_getExtremes :: "column_string \<Rightarrow> bytes \<times> bytes" where
  "str_getExtremes c =
     (let col_size = str_size c
      in if col_size = 0 then ([], [])
         else
           (let (min_idx, max_idx) =
                  fold (\<lambda>i (min_idx, max_idx).
                      if str_less True c i min_idx then (i, max_idx)
                      else if str_less True c max_idx i then (min_idx, i) else (min_idx, max_idx)) [1..<col_size] (0, 0)
            in (getDataAt c min_idx, getDataAt c max_idx)))"

text \<open>\<open>scatterImpl\<close> for this class; an index that is out of range is undefined.\<close>

definition str_scatter :: "nat \<Rightarrow> nat list \<Rightarrow> column_string \<Rightarrow> column_err + column_string list" where
  "str_scatter num_columns selector c =
     (if str_size c \<noteq> length selector then Inl SizesOfColumnsDoesntMatch
      else if list_ex (\<lambda>k. k \<ge> num_columns) selector then Inl AccessOutOfRange
      else Inr (fold (\<lambda>(i, k) columns. columns[k := str_insertFrom c i (columns ! k)]) (zip [0..<str_size c] selector)
                  (replicate num_columns (str_cloneResized 0 c))))"

end
