(* ===== verification/Column_String_Props.thy ===== *)
theory Column_String_Props
  imports Column_String
begin

text \<open>
  A column of strings implements a list of byte strings: every operation of the class is the operation on
  lists, and the errors are those of wrong arguments.
\<close>

section \<open>The column of a list of strings\<close>

definition enc :: "bytes list \<Rightarrow> bytes" where
  "enc ss = concat (map (\<lambda>s. s @ [0]) ss)"

fun ends_from :: "nat \<Rightarrow> bytes list \<Rightarrow> nat list" where
  "ends_from a [] = []"
| "ends_from a (s # ss) = (a + length s + 1) # ends_from (a + length s + 1) ss"

definition column_of :: "bytes list \<Rightarrow> column_string" where
  "column_of ss = \<lparr>str_chars = enc ss, str_offsets = ends_from 0 ss\<rparr>"

named_theorems column_simps

lemma enc_simps [simp]:
  "enc [] = []" "enc (s # ss) = s @ 0 # enc ss" "enc (ss @ ts) = enc ss @ enc ts"
  by (simp_all add: enc_def)

lemma length_ends [simp]: "length (ends_from a ss) = length ss"
  by (induction ss arbitrary: a) auto

lemma ends_append [simp]: "ends_from a (ss @ ts) = ends_from a ss @ ends_from (a + length (enc ss)) ts"
  by (induction ss arbitrary: a) (auto simp: algebra_simps)

lemma ends_Nil [simp]: "ends_from a ss = [] \<longleftrightarrow> ss = []"
  by (cases ss) auto

lemma take_enc: "length (enc (take (Suc i) ss)) = length (enc (take i ss)) + length (ss ! i) + 1" if "i < length ss"
  using that by (simp add: take_Suc_conv_app_nth)

lemma ends_nth:
  assumes "i < length ss"
  shows "ends_from a ss ! i = a + length (enc (take (Suc i) ss))"
  using assms
proof (induction ss arbitrary: a i)
  case (Cons s ss)
  then show ?case by (cases i) auto
qed simp

lemma ends_last: "ss \<noteq> [] \<Longrightarrow> last (ends_from a ss) = a + length (enc ss)"
  by (induction ss arbitrary: a) auto

lemma ends_shift: "ends_from (a + d) ss = map (\<lambda>x. x + d) (ends_from a ss)"
proof (induction ss arbitrary: a)
  case (Cons s ss)
  show ?case using Cons [of "a + length s + 1"] by (simp add: algebra_simps)
qed simp

lemma ends_take: "take n (ends_from a ss) = ends_from a (take n ss)"
proof (induction ss arbitrary: n a)
  case (Cons s ss)
  then show ?case by (cases n) auto
qed simp

lemma column_of_sel [simp]:
  "str_chars (column_of ss) = enc ss" "str_offsets (column_of ss) = ends_from 0 ss"
  by (simp_all add: column_of_def)

lemma column_ofI: "str_chars c = enc ss \<Longrightarrow> str_offsets c = ends_from 0 ss \<Longrightarrow> c = column_of ss"
  by (simp add: column_of_def)

lemma str_size [column_simps]: "str_size (column_of ss) = length ss"
  by (simp add: str_size_def)

lemma offsetAt_of [column_simps]: "i \<le> length ss \<Longrightarrow> offsetAt (column_of ss) i = length (enc (take i ss))"
  by (cases i) (auto simp: offsetAt_def ends_nth)

lemma offset_nth [column_simps]: "i < length ss \<Longrightarrow> ends_from 0 ss ! i = length (enc (take i ss)) + length (ss ! i) + 1"
  by (simp add: ends_nth take_enc)

lemma sizeAt_of [column_simps]: "i < length ss \<Longrightarrow> sizeAt (column_of ss) i = length (ss ! i) + 1"
  by (cases i) (auto simp: sizeAt_def ends_nth take_enc)

lemma enc_split: "enc ss = enc (take i ss) @ enc (take n (drop i ss)) @ enc (drop (i + n) ss)"
proof -
  have "ss = take i ss @ take n (drop i ss) @ drop (i + n) ss"
    by (metis add.commute append_take_drop_id drop_drop)
  then show ?thesis by (metis enc_simps(3))
qed

text \<open>The bytes of \<open>n\<close> strings from the \<open>i\<close>-th.\<close>

lemma enc_slice:
  "take (length (enc (take n (drop i ss)))) (drop (length (enc (take i ss))) (enc ss)) = enc (take n (drop i ss))"
  by (subst enc_split [of ss i n]) simp

lemma enc_slice_one:
  assumes "i < length ss"
  shows "take (length (ss ! i) + 1) (drop (length (enc (take i ss))) (enc ss)) = ss ! i @ [0]"
proof -
  have "take 1 (drop i ss) = [ss ! i]" using assms by (simp add: Cons_nth_drop_Suc [symmetric])
  then show ?thesis using enc_slice [of 1 i ss] by simp
qed

lemma enc_slice_len:
  assumes "i + n \<le> length ss"
  shows "length (enc (take (i + n) ss)) - length (enc (take i ss)) = length (enc (take n (drop i ss)))"
  by (simp add: take_add)

section \<open>The operations\<close>

lemma getDataAt_of: "i < length ss \<Longrightarrow> getDataAt (column_of ss) i = ss ! i"
proof -
  assume i: "i < length ss"
  have "take (length (ss ! i)) (take (length (ss ! i) + 1) (drop (length (enc (take i ss))) (enc ss))) = ss ! i"
    unfolding enc_slice_one [OF i] by simp
  then show "getDataAt (column_of ss) i = ss ! i" using i by (simp add: getDataAt_def column_simps)
qed

lemma getDataAtWithTerminatingZero_of:
  "i < length ss \<Longrightarrow> getDataAtWithTerminatingZero (column_of ss) i = ss ! i @ [0]"
  using enc_slice_one [of i ss] by (simp add: getDataAtWithTerminatingZero_def column_simps)

lemma insertData_of: "insertData s (column_of ss) = column_of (ss @ [s])"
  by (rule column_ofI) (simp_all add: insertData_def Let_def)

lemma insert_of: "str_insert s (column_of ss) = column_of (ss @ [s])"
  by (rule column_ofI) (simp_all add: str_insert_def Let_def)

lemma insertDataWithTerminatingZero_of: "insertDataWithTerminatingZero (s @ [0]) (column_of ss) = column_of (ss @ [s])"
  by (rule column_ofI) (simp_all add: insertDataWithTerminatingZero_def Let_def)

lemma insertDefault_of: "str_insertDefault (column_of ss) = column_of (ss @ [[]])"
  by (rule column_ofI) (auto simp: str_insertDefault_def ends_last)

lemma insertFrom_of:
  assumes "n < length ts"
  shows "str_insertFrom (column_of ts) n (column_of ss) = column_of (ss @ [ts ! n])"
proof (cases n)
  case 0
  then show ?thesis using assms enc_slice_one [of 0 ts]
    by (intro column_ofI) (simp_all add: str_insertFrom_def Let_def column_simps)
next
  case (Suc k)
  have d: "ends_from 0 ts ! n - ends_from 0 ts ! k = length (ts ! n) + 1" "ends_from 0 ts ! k = length (enc (take n ts))"
    using assms Suc by (simp_all add: ends_nth take_enc)
  show ?thesis
  proof (cases "ts ! n = []")
    case True
    then show ?thesis using Suc d by (intro column_ofI) (simp_all add: str_insertFrom_def Let_def)
  next
    case False
    then show ?thesis using Suc d enc_slice_one [OF assms]
      by (intro column_ofI) (simp_all add: str_insertFrom_def Let_def)
  qed
qed

lemma popBack_of:
  assumes "0 < n" "n \<le> length ss"
  shows "str_popBack n (column_of ss) = column_of (take (length ss - n) ss)"
proof -
  let ?k = "length ss - n"
  have "ss \<noteq> []" using assms by auto
  then have "last (ends_from 0 ss) - offsetAt (column_of ss) ?k = length (enc ss) - length (enc (take ?k ss))"
    by (simp add: ends_last column_simps)
  moreover have "length (enc (take ?k ss)) \<le> length (enc ss)" by (subst enc_split [of ss ?k n]) simp
  moreover have "take (length (enc (take ?k ss))) (enc ss) = enc (take ?k ss)" using enc_slice [of ?k 0 ss] by simp
  ultimately show ?thesis by (intro column_ofI) (simp_all add: str_popBack_def Let_def ends_take)
qed

lemma cloneResized_of:
  "str_cloneResized n (column_of ss) = column_of (take n ss @ replicate (n - length ss) [])"
proof -
  have ends0: "ends_from a (replicate k []) = map (\<lambda>i. a + i + 1) [0..<k]" for a k
  proof (induction k arbitrary: a)
    case (Suc k)
    show ?case using Suc [of "Suc a"] by (simp add: upt_conv_Cons map_Suc_upt [symmetric] del: upt_Suc)
  qed simp
  have enc0: "enc (replicate k []) = replicate k 0" for k by (induction k) auto
  consider "n = 0" | "0 < n" "n \<le> length ss" | "length ss < n" by linarith
  then show ?thesis
  proof cases
    case 1
    then show ?thesis by (intro column_ofI) (simp_all add: str_cloneResized_def ColumnString_create_def Let_def)
  next
    case 2
    have "take (length (enc (take n ss))) (enc ss) = enc (take n ss)" using enc_slice [of n 0 ss] by simp
    then show ?thesis using 2 by (intro column_ofI) (simp_all add: str_cloneResized_def Let_def column_simps ends_nth ends_take)
  next
    case 3
    have "map (\<lambda>i. a + (i - length ss) + 1) [length ss..<n] = map (\<lambda>i. a + i + 1) [0..<n - length ss]" for a
      by (intro nth_equalityI) auto
    then show ?thesis using 3
      by (intro column_ofI) (auto simp: str_cloneResized_def ColumnString_create_def Let_def column_simps ends_last ends0 enc0)
  qed
qed

lemma insertRangeFrom_of:
  assumes "start + len \<le> length ts" "length ts < 2 ^ 64"
  shows "str_insertRangeFrom (column_of ts) start len (column_of ss) = Inr (column_of (ss @ take len (drop start ts)))"
proof (cases "len = 0")
  case False
  let ?us = "take len (drop start ts)"
  have nl: "ends_from 0 ts ! (start + len - 1) - offsetAt (column_of ts) start = length (enc ?us)"
    using assms False enc_slice_len [OF assms(1)] by (simp add: column_simps ends_nth)
  have no: "offsetAt (column_of ts) start = length (enc (take start ts))" using assms by (simp add: column_simps)
  have off: "ends_from 0 ts ! (start + i) - length (enc (take start ts)) + p = ends_from p ?us ! i" if "i < len" for i p
  proof -
    have "i < length ?us" using that assms(1) by simp
    then have "ends_from p ?us ! i = p + length (enc (take (Suc i) ?us))" by (rule ends_nth)
    moreover have "take (Suc i) ?us = take (Suc i) (drop start ts)" using that by simp
    ultimately show ?thesis using that assms(1) enc_slice_len [of start "Suc i" ts] by (simp add: ends_nth)
  qed
  have offs: "map (\<lambda>i. ends_from 0 ts ! (start + i) - length (enc (take start ts)) + p) [0..<len] = ends_from p ?us" for p
    using off assms(1) by (intro nth_equalityI) auto
  have chars: "take (ends_from 0 ts ! (start + len - 1) - length (enc (take start ts)))
      (drop (length (enc (take start ts))) (enc ts)) = enc ?us"
    unfolding nl [unfolded no] by (rule enc_slice)
  have c: "\<lparr>str_chars = enc ss @ enc ?us, str_offsets = ends_from 0 ss @ ends_from (length (enc ss)) ?us\<rparr> = column_of (ss @ ?us)"
    by (simp add: column_of_def)
  have "start = 0 \<Longrightarrow> ss = [] \<Longrightarrow> \<lparr>str_chars = enc ss @ enc ?us, str_offsets = take len (ends_from 0 ts)\<rparr> = column_of (ss @ ?us)"
    by (simp add: column_of_def ends_take)
  moreover have "(if ends_from 0 ss \<noteq> [] then last (ends_from 0 ss) else 0) = length (enc ss)" by (simp add: ends_last)
  moreover have "add64 start len = start + len" using assms by (simp add: add64_exact)
  ultimately show ?thesis using False assms(1)
    unfolding str_insertRangeFrom_def Let_def column_of_sel chars no offs by (simp only: c) simp
qed (simp add: str_insertRangeFrom_def)

lemma insertRangeFrom_error:
  assumes "len \<noteq> 0" "length ts < start + len" "start + len < 2 ^ 64"
  shows "str_insertRangeFrom (column_of ts) start len c = Inl ParameterOutOfBound"
  using assms by (simp add: str_insertRangeFrom_def add64_exact)

subsection \<open>Filtering\<close>

lemma cmpgt_zero: "unat b < 128 \<Longrightarrow> cmpgt_zero b \<longleftrightarrow> b \<noteq> 0"
  by (simp add: cmpgt_zero_def unat_gt_0)

definition filter_of :: "bytes list \<Rightarrow> 8 word filter_state" where
  "filter_of ss = \<lparr>fs_elems = enc ss, fs_offsets = ends_from 0 ss, fs_current = length (enc ss)\<rparr>"

definition chosen :: "bytes list \<Rightarrow> bytes \<Rightarrow> nat list \<Rightarrow> bytes list" where
  "chosen ts filt js = map ((!) ts) (filter (\<lambda>j. filt ! j \<noteq> 0) js)"

lemma chosen_simps [simp]:
  "chosen ts filt [] = []" "chosen ts filt (is @ js) = chosen ts filt is @ chosen ts filt js"
  "chosen ts filt (j # js) = (if filt ! j \<noteq> 0 then ts ! j # chosen ts filt js else chosen ts filt js)"
  by (simp_all add: chosen_def)

lemma ends_drop: "p \<le> length ts \<Longrightarrow> drop p (ends_from a ts) = ends_from (a + length (enc (take p ts))) (drop p ts)"
  using ends_append [of a "take p ts" "drop p ts"] by simp

lemma prev_end: "i \<le> length ts \<Longrightarrow> (if i = 0 then 0 else ends_from 0 ts ! (i - 1)) = length (enc (take i ts))"
  by (cases i) (auto simp: ends_nth)

lemma copy_array_of:
  assumes "i < length ts"
  shows "copy_array (enc ts) (ends_from 0 ts) i (filter_of ss) = filter_of (ss @ [ts ! i])"
proof -
  have "(if i = 0 then 0 else ends_from 0 ts ! (i - 1)) = length (enc (take i ts))" using assms by (intro prev_end) simp
  moreover have "ends_from 0 ts ! i - length (enc (take i ts)) = length (ts ! i) + 1" using assms by (simp add: column_simps)
  ultimately show ?thesis using enc_slice_one [OF assms]
    unfolding copy_array_def Let_def by (simp add: insertOne_def filter_of_def)
qed

lemma fold_tail:
  assumes "\<forall>j\<in>set js. j < length ts"
  shows "fold (\<lambda>j st. if filt ! j \<noteq> 0 then copy_array (enc ts) (ends_from 0 ts) j st else st) js (filter_of ss) =
         filter_of (ss @ chosen ts filt js)"
  using assms by (induction js arbitrary: ss) (auto simp: copy_array_of)

lemma chosen_all:
  assumes "p + n \<le> length ts" "\<forall>j\<in>set [p..<p + n]. filt ! j \<noteq> 0"
  shows "chosen ts filt [p..<p + n] = take n (drop p ts)"
proof -
  have "filter (\<lambda>j. filt ! j \<noteq> 0) [p..<p + n] = [p..<p + n]" using assms(2) by (simp add: filter_id_conv)
  then show ?thesis using assms(1) unfolding chosen_def by (auto intro: nth_equalityI)
qed

lemma chosen_none: "\<forall>j\<in>set js. filt ! j = 0 \<Longrightarrow> chosen ts filt js = []"
  by (simp add: chosen_def filter_empty_conv)

lemma chosen_le:
  "p \<le> length ts \<Longrightarrow> length (enc (chosen ts filt [0..<p])) \<le> length (enc (take p ts))"
  by (induction p) (auto simp: take_enc)

lemma insertChunk_of:
  assumes "p + 16 \<le> length ts" "length (enc ss) \<le> length (enc (take p ts))" "p = 0 \<longrightarrow> ss = []"
  shows "(let off = (if p = 0 then 0 else ends_from 0 ts ! (p - 1)); sz = ends_from 0 ts ! (p + 15) - off;
              st = insertChunk (take 16 (drop p (ends_from 0 ts))) (p = 0) off sz (filter_of ss)
          in st\<lparr>fs_elems := fs_elems st @ take sz (drop off (enc ts))\<rparr>) = filter_of (ss @ take 16 (drop p ts))"
proof -
  let ?us = "take 16 (drop p ts)" and ?o = "length (enc (take p ts))"
  have off: "(if p = 0 then 0 else ends_from 0 ts ! (p - 1)) = ?o"
    using assms(1) by (intro prev_end) simp
  have sz: "ends_from 0 ts ! (p + 15) - ?o = length (enc ?us)"
    using assms(1) enc_slice_len [of p 16 ts] by (simp add: ends_nth add.commute)
  have src: "take 16 (drop p (ends_from 0 ts)) = ends_from ?o ?us" using assms(1) by (simp add: ends_drop ends_take)
  have "map (\<lambda>x. x - (?o - length (enc ss))) (ends_from ?o ?us) = ends_from (length (enc ss)) ?us"
    using ends_shift [of "length (enc ss)" "?o - length (enc ss)" ?us] assms(2) by (simp add: comp_def)
  moreover have "\<not> (p \<noteq> 0 \<and> 0 < ?o - length (enc ss)) \<Longrightarrow> ?o = length (enc ss)" using assms(2,3) by auto
  ultimately have "(if p \<noteq> 0 \<and> 0 < ?o - length (enc ss) then map (\<lambda>x. x - (?o - length (enc ss))) (ends_from ?o ?us)
      else ends_from ?o ?us) = ends_from (length (enc ss)) ?us" by auto
  then show ?thesis unfolding off Let_def sz src by (simp add: insertChunk_def filter_of_def enc_slice)
qed

lemma filter_chunk_of:
  assumes "16 * k + 16 \<le> length ts" "length filt = length ts" "\<forall>b\<in>set filt. unat b < 128"
  shows "filter_chunk (enc ts) (ends_from 0 ts) filt k (filter_of (chosen ts filt [0..<16 * k])) =
         filter_of (chosen ts filt [0..<16 * k + 16])"
proof -
  let ?p = "16 * k" and ?ss = "chosen ts filt [0..<16 * k]"
  let ?mask = "map cmpgt_zero (take 16 (drop ?p filt))"
  have bit: "cmpgt_zero (filt ! j) \<longleftrightarrow> filt ! j \<noteq> 0" if "j < length filt" for j using assms(3) that by (simp add: cmpgt_zero)
  have mask: "?mask = map (\<lambda>j. filt ! j \<noteq> 0) [?p..<?p + 16]"
    using assms(1,2) by (intro nth_equalityI) (auto simp: bit)
  have all: "chosen ts filt [0..<?p + 16] = ?ss @ chosen ts filt [?p..<?p + 16]"
    using upt_add_eq_append [of 0 ?p 16] by simp
  have ex: "list_ex (\<lambda>b. b) ?mask \<longleftrightarrow> (\<exists>j\<in>set [?p..<?p + 16]. filt ! j \<noteq> 0)"
    and al: "list_all (\<lambda>b. b) ?mask \<longleftrightarrow> (\<forall>j\<in>set [?p..<?p + 16]. filt ! j \<noteq> 0)"
    unfolding mask by (auto simp: list_ex_iff list_all_iff)
  consider "\<not> list_ex (\<lambda>b. b) ?mask" | "list_ex (\<lambda>b. b) ?mask" "list_all (\<lambda>b. b) ?mask"
    | "list_ex (\<lambda>b. b) ?mask" "\<not> list_all (\<lambda>b. b) ?mask" by blast
  then show ?thesis
  proof cases
    case 1
    then have "chosen ts filt [?p..<?p + 16] = []" unfolding ex by (intro chosen_none) blast
    then show ?thesis using 1 all by (simp add: filter_chunk_def Let_def)
  next
    case 2
    then have "chosen ts filt [?p..<?p + 16] = take 16 (drop ?p ts)" using assms(1) unfolding al by (intro chosen_all)
    moreover have "length (enc ?ss) \<le> length (enc (take ?p ts))" using assms(1) by (intro chosen_le) simp
    ultimately show ?thesis using 2 insertChunk_of [of ?p ts ?ss] assms(1) unfolding all filter_chunk_def Let_def by simp
  next
    case 3
    have "fold (\<lambda>j st. if filt ! j \<noteq> 0 then copy_array (enc ts) (ends_from 0 ts) j st else st) [?p..<?p + 16] (filter_of ?ss) =
        filter_of (?ss @ chosen ts filt [?p..<?p + 16])"
      using assms(1) by (intro fold_tail) auto
    moreover have "[?p..<?p + 16] = map (\<lambda>i. ?p + i) [0..<16]" by (simp add: map_add_upt [symmetric] add.commute)
    ultimately show ?thesis using 3 unfolding all filter_chunk_def Let_def by (simp add: fold_map comp_def)
  qed
qed

lemma filter_of_list:
  assumes "length filt = length ts" "\<forall>b\<in>set filt. unat b < 128"
  shows "str_filter filt (column_of ts) = Inr (column_of (chosen ts filt [0..<length ts]))"
proof -
  let ?n = "length ts"
  have init: "\<lparr>fs_elems = [], fs_offsets = [], fs_current = 0\<rparr> = filter_of (chosen ts filt [0..<16 * 0])"
    by (simp add: filter_of_def)
  have chunks: "fold (filter_chunk (enc ts) (ends_from 0 ts) filt) [0..<k] (filter_of (chosen ts filt [0..<16 * 0])) =
      filter_of (chosen ts filt [0..<16 * k])" if "16 * k \<le> ?n" for k
    using that
  proof (induction k)
    case (Suc k)
    then show ?case using filter_chunk_of [OF _ assms, of k] by (simp add: algebra_simps)
  qed simp
  have "fold (filter_tail (enc ts) (ends_from 0 ts) filt) [?n div 16 * 16..<?n] (filter_of (chosen ts filt [0..<16 * (?n div 16)])) =
      filter_of (chosen ts filt [0..<16 * (?n div 16)] @ chosen ts filt [?n div 16 * 16..<?n])"
    using fold_tail [of "[?n div 16 * 16..<?n]" ts filt] by (simp add: filter_tail_def [abs_def])
  moreover have "[0..<?n] = [0..<16 * (?n div 16)] @ [?n div 16 * 16..<?n]"
  proof -
    obtain d where d: "?n = 16 * (?n div 16) + d" using div_mult_mod_eq [of ?n 16] by (metis mult.commute)
    show ?thesis using upt_add_eq_append [of 0 "16 * (?n div 16)" d] unfolding d [symmetric] by (simp add: mult.commute)
  qed
  ultimately have "filterArraysImpl (enc ts) (ends_from 0 ts) filt =
      Inr (enc (chosen ts filt [0..<?n]), ends_from 0 (chosen ts filt [0..<?n]))"
    using assms(1) chunks [of "?n div 16"] unfolding filterArraysImpl_def Let_def init by (simp add: filter_of_def)
  then show ?thesis by (cases ts) (auto simp: str_filter_def column_of_def ColumnString_create_def)
qed

end
