(* ===== verification/Column_String_Refine.thy ===== *)
theory Column_String_Refine
  imports Column_String_Props "HOL-Library.List_Lexorder" "HOL-Library.Multiset"
begin

text \<open>
  The operations of a column of strings that permute, replicate, compare and serialize, and the statement
  that the class implements lists of strings.
\<close>

section \<open>Permutations\<close>

definition build_of :: "bytes list \<Rightarrow> bytes \<times> nat list \<times> nat" where
  "build_of ss = (enc ss, ends_from 0 ss, length (enc ss))"

lemma permute_step:
  assumes "j < length ts"
  shows "(\<lambda>(chars, offsets, current_new_offset).
            (let string_offset = (if j = 0 then 0 else ends_from 0 ts ! (j - 1));
                 string_size = ends_from 0 ts ! j - string_offset
             in (chars @ take string_size (drop string_offset (enc ts)),
                 offsets @ [current_new_offset + string_size], current_new_offset + string_size))) (build_of ss) =
         build_of (ss @ [ts ! j])"
proof -
  have "(if j = 0 then 0 else ends_from 0 ts ! (j - 1)) = length (enc (take j ts))" using assms by (intro prev_end) simp
  moreover have "ends_from 0 ts ! j - length (enc (take j ts)) = length (ts ! j) + 1" using assms by (simp add: column_simps)
  ultimately show ?thesis using enc_slice_one [OF assms] by (simp add: build_of_def Let_def)
qed

lemma permute_fold:
  assumes "\<forall>j\<in>set js. j < length ts"
  shows "fold (\<lambda>j (chars, offsets, current_new_offset).
            (let string_offset = (if j = 0 then 0 else ends_from 0 ts ! (j - 1));
                 string_size = ends_from 0 ts ! j - string_offset
             in (chars @ take string_size (drop string_offset (enc ts)),
                 offsets @ [current_new_offset + string_size], current_new_offset + string_size))) js (build_of ss) =
         build_of (ss @ map ((!) ts) js)"
  using assms
proof (induction js arbitrary: ss)
  case (Cons j js)
  have "j < length ts" using Cons.prems by simp
  note step = permute_step [OF this, of ss]
  show ?case unfolding fold_Cons comp_apply step using Cons by simp
qed simp

lemma length_enc: "length (enc ss) = sum_list (map (\<lambda>s. length s + 1) ss)"
  by (induction ss) auto

lemma permute_of:
  assumes n: "n = (if limit = 0 then length ts else min (length ts) limit)" and "n \<le> length perm"
    and lt: "\<forall>j\<in>set (take n perm). j < length ts" and raw: "\<forall>k. length (raw k) = k"
    and perm: "n < length ts \<or> mset (take n perm) = mset [0..<length ts]"
  shows "str_permute raw perm limit (column_of ts) = Inr (column_of (map ((!) ts) (take n perm)))"
proof (cases "n = 0")
  case True
  then show ?thesis using n by (auto simp: str_permute_def column_of_def ColumnString_create_def Let_def)
next
  case False
  let ?us = "map ((!) ts) (take n perm)"
  have sum: "sum_list (map (sizeAt (column_of ts)) (take n perm)) = length (enc ?us)"
    using lt unfolding length_enc map_map by (intro arg_cong [where f = sum_list] map_cong) (auto simp: column_simps)
  have "n = length ts \<Longrightarrow> length (enc ts) = length (enc ?us)"
  proof -
    assume "n = length ts"
    then have "mset (take n perm) = mset [0..<length ts]" using perm by simp
    then have "mset ?us = mset (map ((!) ts) [0..<length ts])" unfolding mset_map by (rule arg_cong)
    then have "mset (map (\<lambda>s. length s + 1) ?us) = mset (map (\<lambda>s. length s + 1) ts)" unfolding mset_map map_nth by simp
    then show ?thesis unfolding length_enc by (metis sum_mset_sum_list)
  qed
  then have size: "(if n = length ts then length (enc ts) else sum_list (map (sizeAt (column_of ts)) (take n perm))) = length (enc ?us)"
    using sum by simp
  have "\<not> list_ex (\<lambda>j. j \<ge> length ts) (take n perm)" using lt by (auto simp: list_ex_iff not_le)
  moreover have start: "([], [], 0) = build_of []" by (simp add: build_of_def)
  moreover have lim: "(if limit = 0 then length ts else min (length ts) limit) = n" by (simp add: n)
  ultimately show ?thesis using False assms(2) raw
    unfolding str_permute_def Let_def [where s = limit] column_of_sel length_ends Let_def lim size start
      permute_fold [OF lt, of "[]", unfolded Let_def]
    by (simp add: build_of_def column_of_def)
qed

section \<open>Replication\<close>

fun sums_from :: "nat \<Rightarrow> nat list \<Rightarrow> nat list" where
  "sums_from a [] = []"
| "sums_from a (n # ns) = (a + n) # sums_from (a + n) ns"

lemma length_sums [simp]: "length (sums_from a ns) = length ns"
  by (induction ns arbitrary: a) auto

definition copies_of :: "bytes list \<Rightarrow> nat \<times> bytes \<times> nat list" where
  "copies_of ss = (length (enc ss), enc ss, ends_from 0 ss)"

lemma replicate_one_of: "(replicate_one (s @ [0]) (length s + 1) ^^ n) (copies_of acc) = copies_of (acc @ replicate n s)"
  by (induction n) (simp_all add: replicate_one_def copies_of_def replicate_append_same [symmetric])

lemma replicate_loop_of:
  assumes "length ns = length ss"
  shows "replicate_loop (enc (pre @ ss)) p (length (enc pre)) (zip (sums_from p ns) (ends_from (length (enc pre)) ss)) (copies_of acc) =
         copies_of (acc @ concat (map2 replicate ns ss))"
  using assms
proof (induction ns ss arbitrary: pre p acc rule: list_induct2)
  case (Cons n ns s ss)
  have "take (length s + 1) (drop (length (enc pre)) (enc (pre @ s # ss))) = s @ [0]" by simp
  then show ?case using Cons.IH [of "pre @ [s]" "p + n" "acc @ replicate n s"] replicate_one_of [of n s acc]
    by (simp add: Let_def)
qed simp

lemma replicate_of:
  assumes "length ns = length ss"
  shows "str_replicate (sums_from 0 ns) (column_of ss) = Inr (column_of (concat (map2 replicate ns ss)))"
proof (cases "ss = []")
  case False
  have "(0, [], []) = copies_of []" by (simp add: copies_of_def)
  then show ?thesis using False assms replicate_loop_of [OF assms, of "[]" 0 "[]"]
    by (simp add: str_replicate_def str_size_def copies_of_def column_of_def)
qed (use assms in \<open>simp add: str_replicate_def str_size_def column_of_def ColumnString_create_def\<close>)

section \<open>Serialization\<close>

lemma of_le_le: "of_le (map (\<lambda>k. word_of_nat (n div 256 ^ k)) [0..<m]) = n mod 256 ^ m"
proof (induction m arbitrary: n)
  case (Suc m)
  have "map (\<lambda>k. word_of_nat (n div 256 ^ k) :: 8 word) [0..<Suc m] =
        word_of_nat n # map (\<lambda>k. word_of_nat (n div 256 div 256 ^ k)) [0..<m]"
    by (simp add: upt_conv_Cons map_Suc_upt [symmetric] div_mult2_eq comp_def del: upt_Suc)
  then have "of_le (map (\<lambda>k. word_of_nat (n div 256 ^ k)) [0..<Suc m]) = n mod 256 + 256 * (n div 256 mod 256 ^ m)"
    using Suc [of "n div 256"] by (simp add: unat_of_nat)
  then show ?case by (simp add: mod_mult2_eq)
qed simp

lemma le64: "n < 2 ^ 64 \<Longrightarrow> of_le (le64 n) = n" "length (le64 n) = 8"
  using of_le_le [of n 8] by (simp_all add: le64_def)

lemma serialize_of:
  assumes "n < length ts" "length (ts ! n) + 1 < 2 ^ 64"
  shows "deserializeAndInsertFromArena (serializeValueIntoArena (column_of ts) n @ rest) (column_of ss) =
         (column_of (ss @ [ts ! n]), rest)"
proof -
  have "serializeValueIntoArena (column_of ts) n = le64 (length (ts ! n) + 1) @ (ts ! n @ [0])"
    using assms enc_slice_one [of n ts] by (simp add: serializeValueIntoArena_def Let_def column_simps)
  then show ?thesis using le64(1) [OF assms(2)] le64(2) by (simp add: deserializeAndInsertFromArena_def Let_def column_of_def)
qed

section \<open>Comparison\<close>

lemma Nil_less_iff: "[] < xs \<longleftrightarrow> xs \<noteq> []" for xs :: bytes
  by (cases xs) auto

lemma zt_less: "s @ [0] < t @ [0] \<longleftrightarrow> s < t" for s t :: bytes
proof (induction s arbitrary: t)
  case Nil
  show ?case by (cases t) (auto simp: word_gt_0 Nil_less_iff)
next
  case (Cons a s)
  show ?case using Cons [of "tl t"] by (cases t) auto
qed

lemma memcmp_less:
  "(if memcmp (take (min (length a) (length b)) a) (take (min (length a) (length b)) b) \<noteq> 0
    then memcmp (take (min (length a) (length b)) a) (take (min (length a) (length b)) b) < 0
    else length a < length b) \<longleftrightarrow> a < b"
proof (induction a b rule: list_induct2')
  case (4 a as b bs)
  then show ?case by (cases "a = b") auto
qed auto

lemma memcmp_0: "length a = length b \<Longrightarrow> memcmp a b = 0 \<longleftrightarrow> a = b"
  by (induction a b rule: list_induct2) auto

lemma slice_bytes:
  assumes "i < length ss" "k \<le> length (ss ! i) + 1"
  shows "take k (drop (length (enc (take i ss))) (enc ss)) = take k (ss ! i @ [0])"
proof -
  have "take k (drop (length (enc (take i ss))) (enc ss)) = take k (take (length (ss ! i) + 1) (drop (length (enc (take i ss))) (enc ss)))"
    using assms(2) by (simp add: min_def)
  then show ?thesis unfolding enc_slice_one [OF assms(1)] .
qed

lemma compareAt_of:
  assumes "i < length ss" "j < length ts"
  shows "compareAt (column_of ss) i j (column_of ts) < 0 \<longleftrightarrow> ss ! i < ts ! j"
    and "compareAt (column_of ss) i j (column_of ts) = 0 \<longleftrightarrow> ss ! i = ts ! j"
proof -
  let ?a = "ss ! i @ [0]" and ?b = "ts ! j @ [0]" and ?k = "min (length (ss ! i) + 1) (length (ts ! j) + 1)"
  have cmp: "compareAt (column_of ss) i j (column_of ts) =
      (let cmp = memcmp (take ?k ?a) (take ?k ?b)
       in if cmp \<noteq> 0 then cmp else if length ?a > length ?b then 1 else if length ?a < length ?b then -1 else 0)"
    using assms by (simp add: compareAt_def Let_def column_simps slice_bytes)
  show "compareAt (column_of ss) i j (column_of ts) < 0 \<longleftrightarrow> ss ! i < ts ! j"
    unfolding cmp Let_def using memcmp_less [of ?a ?b] by (auto simp: zt_less split: if_splits)
  show "compareAt (column_of ss) i j (column_of ts) = 0 \<longleftrightarrow> ss ! i = ts ! j"
  proof (cases "length (ss ! i) = length (ts ! j)")
    case True
    then have "memcmp (take ?k ?a) (take ?k ?b) = 0 \<longleftrightarrow> ?a = ?b" using memcmp_0 [of ?a ?b] by simp
    then show ?thesis unfolding cmp Let_def using True by simp
  next
    case False
    then have "ss ! i \<noteq> ts ! j" by auto
    then show ?thesis unfolding cmp Let_def using False by simp
  qed
qed

lemma less_of:
  assumes "i < length ss" "j < length ss"
  shows "str_less True (column_of ss) i j \<longleftrightarrow> ss ! i < ss ! j"
    and "str_less False (column_of ss) i j \<longleftrightarrow> ss ! j < ss ! i"
proof -
  have pos: "str_less True (column_of ss) i j \<longleftrightarrow> compareAt (column_of ss) i j (column_of ss) < 0"
    by (auto simp: str_less_def compareAt_def Let_def)
  then show "str_less True (column_of ss) i j \<longleftrightarrow> ss ! i < ss ! j" using compareAt_of(1) [OF assms] by simp
  have "str_less False (column_of ss) i j \<longleftrightarrow>
      \<not> compareAt (column_of ss) i j (column_of ss) < 0 \<and> compareAt (column_of ss) i j (column_of ss) \<noteq> 0"
    by (auto simp: str_less_def compareAt_def Let_def)
  then show "str_less False (column_of ss) i j \<longleftrightarrow> ss ! j < ss ! i" using compareAt_of [OF assms] by auto
qed

lemma extremes_fold:
  assumes "n < length ss"
  shows "\<exists>a b. fold (\<lambda>i (min_idx, max_idx).
             if str_less True (column_of ss) i min_idx then (i, max_idx)
             else if str_less True (column_of ss) max_idx i then (min_idx, i) else (min_idx, max_idx)) [1..<Suc n] (0, 0) = (a, b) \<and>
           a \<le> n \<and> b \<le> n \<and> ss ! a = Min ((!) ss ` {..n}) \<and> ss ! b = Max ((!) ss ` {..n})"
  using assms
proof (induction n)
  case (Suc n)
  then obtain a b where ab: "fold (\<lambda>i (min_idx, max_idx).
             if str_less True (column_of ss) i min_idx then (i, max_idx)
             else if str_less True (column_of ss) max_idx i then (min_idx, i) else (min_idx, max_idx)) [1..<Suc n] (0, 0) = (a, b)"
    "a \<le> n" "b \<le> n" and mn: "ss ! a = Min ((!) ss ` {..n})" and mx: "ss ! b = Max ((!) ss ` {..n})" by auto
  let ?x = "ss ! Suc n"
  have le: "ss ! a \<le> ss ! b" unfolding mn using ab(3) by (intro Min_le) auto
  have M: "Min ((!) ss ` {..Suc n}) = min ?x (ss ! a)" "Max ((!) ss ` {..Suc n}) = max ?x (ss ! b)"
    unfolding mn mx atMost_Suc image_insert by (intro Min_insert Max_insert; simp)+
  have l: "str_less True (column_of ss) (Suc n) a \<longleftrightarrow> ?x < ss ! a" "str_less True (column_of ss) b (Suc n) \<longleftrightarrow> ss ! b < ?x"
    using Suc.prems ab by (auto simp: less_of)
  have up: "[1..<Suc (Suc n)] = [1..<Suc n] @ [Suc n]" by simp
  consider "?x < ss ! a" | "\<not> ?x < ss ! a" "ss ! b < ?x" | "\<not> ?x < ss ! a" "\<not> ss ! b < ?x" by blast
  then show ?case
  proof cases
    case 1
    then show ?thesis unfolding up fold_append comp_apply ab(1) M using le ab
      by (intro exI [of _ "Suc n"] exI [of _ b]) (auto simp: l min_def max_def)
  next
    case 2
    then show ?thesis unfolding up fold_append comp_apply ab(1) M using ab
      by (intro exI [of _ a] exI [of _ "Suc n"]) (auto simp: l min_def max_def)
  next
    case 3
    then show ?thesis unfolding up fold_append comp_apply ab(1) M using ab
      by (intro exI [of _ a] exI [of _ b]) (auto simp: l min_def max_def)
  qed
qed simp

lemma getExtremes_of:
  assumes "ss \<noteq> []"
  shows "str_getExtremes (column_of ss) = (Min (set ss), Max (set ss))"
proof -
  obtain n where n: "length ss = Suc n" using assms by (cases ss) auto
  have set: "set ss = (!) ss ` {..n}" using n by (auto simp: set_conv_nth less_Suc_eq_le)
  obtain a b where "fold (\<lambda>i (min_idx, max_idx).
             if str_less True (column_of ss) i min_idx then (i, max_idx)
             else if str_less True (column_of ss) max_idx i then (min_idx, i) else (min_idx, max_idx)) [1..<Suc n] (0, 0) = (a, b)"
    "a \<le> n" "b \<le> n" "ss ! a = Min (set ss)" "ss ! b = Max (set ss)"
    using extremes_fold [of n ss] n unfolding set by auto
  moreover from this have "getDataAt (column_of ss) a = ss ! a" "getDataAt (column_of ss) b = ss ! b"
    using n by (simp_all add: getDataAt_of)
  ultimately show ?thesis unfolding str_getExtremes_def Let_def str_size n by simp
qed

text \<open>Permuting by a sorting permutation sorts the column.\<close>

lemma sort_of:
  assumes p: "p = str_getPermutation sort_by partial_sort False 0 (column_of ss)" and perm: "mset p = mset [0..<length ss]"
    and sorted: "sorted_wrt (\<lambda>i j. \<not> str_less True (column_of ss) j i) p" and raw: "\<forall>k. length (raw k) = k"
  shows "str_permute raw p 0 (column_of ss) = Inr (column_of (sort ss))"
proof -
  have len: "length p = length ss" using mset_eq_length [OF perm] by simp
  have lt: "\<forall>j\<in>set p. j < length ss" using mset_eq_setD [OF perm] by auto
  have "sorted_wrt (\<lambda>i j. ss ! i \<le> ss ! j) p"
  proof (rule sorted_wrt_mono_rel [OF _ sorted])
    fix i j assume "i \<in> set p" "j \<in> set p" "\<not> str_less True (column_of ss) j i"
    then show "ss ! i \<le> ss ! j" using lt less_of(1) [of j ss i] by simp
  qed
  then have "sorted (map ((!) ss) p)" by (simp add: sorted_map)
  moreover have "mset (map ((!) ss) p) = mset ss" using perm by (metis map_nth mset_map)
  ultimately have "map ((!) ss) p = sort ss" by (metis properties_for_sort)
  moreover have "str_permute raw p 0 (column_of ss) = Inr (column_of (map ((!) ss) (take (length ss) p)))"
    using len lt perm raw by (intro permute_of) auto
  ultimately show ?thesis using len by simp
qed

section \<open>The class implements lists of strings\<close>

text \<open>
  (C37) The column of a list of strings, its bytes and offsets, is kept by every operation of the class, which
  is the operation on lists: reading and appending a string, also one taken from another column or read
  back after serialization, removing the last strings, resizing with empty strings, appending a range,
  filtering in chunks of 16 rows, replicating, comparing, and finding the extremes.  A range outside of the
  source column is an error.
\<close>

theorem column_string_refines:
  assumes "length ts < 2 ^ 64" and "\<forall>s\<in>set ts. length s + 1 < 2 ^ 64"
  shows "(\<forall>i < length ss. getDataAt (column_of ss) i = ss ! i) \<and>
    (\<forall>s. insertData s (column_of ss) = column_of (ss @ [s])) \<and>
    (\<forall>n < length ts. str_insertFrom (column_of ts) n (column_of ss) = column_of (ss @ [ts ! n]) \<and>
       (\<forall>rest. deserializeAndInsertFromArena (serializeValueIntoArena (column_of ts) n @ rest) (column_of ss) =
          (column_of (ss @ [ts ! n]), rest))) \<and>
    (\<forall>n. 0 < n \<and> n \<le> length ss \<longrightarrow> str_popBack n (column_of ss) = column_of (take (length ss - n) ss)) \<and>
    (\<forall>n. str_cloneResized n (column_of ss) = column_of (take n ss @ replicate (n - length ss) [])) \<and>
    (\<forall>start len. start + len < 2 ^ 64 \<longrightarrow>
       str_insertRangeFrom (column_of ts) start len (column_of ss) =
         (if len = 0 \<or> start + len \<le> length ts then Inr (column_of (ss @ take len (drop start ts)))
          else Inl ParameterOutOfBound)) \<and>
    (\<forall>filt. length filt = length ss \<and> (\<forall>b\<in>set filt. unat b < 128) \<longrightarrow>
       str_filter filt (column_of ss) = Inr (column_of (map fst (filter (\<lambda>(s, b). b \<noteq> 0) (zip ss filt))))) \<and>
    (\<forall>ns. length ns = length ss \<longrightarrow>
       str_replicate (sums_from 0 ns) (column_of ss) = Inr (column_of (concat (map2 replicate ns ss)))) \<and>
    (\<forall>i j. i < length ss \<and> j < length ts \<longrightarrow>
       (compareAt (column_of ss) i j (column_of ts) < 0 \<longleftrightarrow> ss ! i < ts ! j) \<and>
       (compareAt (column_of ss) i j (column_of ts) = 0 \<longleftrightarrow> ss ! i = ts ! j)) \<and>
    (ss \<noteq> [] \<longrightarrow> str_getExtremes (column_of ss) = (Min (set ss), Max (set ss)))"
proof (intro conjI allI impI)
  fix start len :: nat assume lim: "start + len < 2 ^ 64"
  show "str_insertRangeFrom (column_of ts) start len (column_of ss) =
         (if len = 0 \<or> start + len \<le> length ts then Inr (column_of (ss @ take len (drop start ts)))
          else Inl ParameterOutOfBound)"
    using insertRangeFrom_of [OF _ assms(1)] insertRangeFrom_error [OF _ _ lim, of ts] by (auto simp: str_insertRangeFrom_def)
next
  fix filt :: bytes assume f: "length filt = length ss \<and> (\<forall>b\<in>set filt. unat b < 128)"
  have "zip ss filt = map (\<lambda>i. (ss ! i, filt ! i)) [0..<length ss]" using f by (intro nth_equalityI) auto
  then have "map fst (filter (\<lambda>(s, b). b \<noteq> 0) (zip ss filt)) = chosen ss filt [0..<length ss]"
    by (simp add: chosen_def filter_map comp_def)
  then show "str_filter filt (column_of ss) = Inr (column_of (map fst (filter (\<lambda>(s, b). b \<noteq> 0) (zip ss filt))))"
    using f filter_of_list [of filt ss] by simp
qed (use assms(2) in \<open>auto simp: getDataAt_of insertData_of insertFrom_of serialize_of popBack_of cloneResized_of replicate_of
       compareAt_of getExtremes_of\<close>)

theorem column_string_refines_witness:
  "str_insertRangeFrom (column_of [[1], [2, 3]]) 1 1 (column_of [[], [7]]) = Inr (column_of [[], [7], [2, 3]]) \<and>
   str_insertRangeFrom (column_of [[1], [2, 3]]) 1 2 (column_of [[], [7]]) = Inl ParameterOutOfBound"
  using column_string_refines [of "[[1], [2, 3]]" "[[], [7]]"] by simp

text \<open>
  The chunks of 16 rows compare the bytes of the filter as signed numbers and the last rows compare them
  with zero: with a byte from 128, a row is dropped in the chunks and kept among the last rows.
\<close>

lemma filter_negative_bytes:
  "str_filter (replicate 16 128) (column_of (replicate 16 [])) = Inr (column_of [])"
  "str_filter [128] (column_of [[]]) = Inr (column_of [[]])"
proof -
  have "filter_chunk (enc ts) os (replicate 16 128) 0 st = st" for ts os st
    by (simp add: filter_chunk_def cmpgt_zero_def list_ex_iff)
  then show "str_filter (replicate 16 128) (column_of (replicate 16 [])) = Inr (column_of [])"
    by (simp add: str_filter_def filterArraysImpl_def Let_def column_of_def)
  show "str_filter [128] (column_of [[]]) = Inr (column_of [[]])"
    by (simp add: str_filter_def filterArraysImpl_def filter_tail_def copy_array_def insertOne_def column_of_def Let_def)
qed

end
