(* ===== verification/Spec2Isabelle.thy ===== *)
theory Spec2Isabelle
  imports Pinned_Pool_Props Cuda_Hash Int_Hash Cuda_Atomics Aggregator_Props Core_Block_Diff Column_String_Refine
begin

text \<open>
  A verification library for the GPU aggregation of ClickHouse
  (\<^verbatim>\<open>src/clickhouse-gpu\<close>).

  \<^bold>\<open>The pinned memory pool\<close> (\<^verbatim>\<open>dbms/src/Common/Cuda/CudaHostPinnedMemPool\<close>,
  \<^verbatim>\<open>SinglyLinkedList\<close>, \<^verbatim>\<open>CudaHostPinnedMemPoolUtils\<close>, \<^verbatim>\<open>Common/Allocator\<close>).
  Every allocation of the server goes through one pool of page-locked memory.  Theory Pinned_Pool
  has its operations on the bytes of the region: the free list is the chain of nodes stored in the
  free blocks themselves, sizes are 64-bit with wrap-around, and the two searches of the list are
  partial functions since a corrupted chain may be cyclic.  Theory Pinned_Pool_Correct describes
  the chain by a list of blocks and each operation by what it does to that list.  Theory
  Block_Store states the contract of an allocator as a locale and proves reallocation from it;
  Pinned_Pool_Store interprets it on the pool; Pinned_Pool_Props has the properties.
\<close>

end
